(* ===== verification/Prelude.thy ===== *)
theory Prelude
  imports Main "HOL-Library.Word"
begin

text \<open>
  What the components share: the faults of C and C++ code as values, the result type of code
  that may run into one, fixed-size character arrays as functions with explicit bounds, the
  conversions between C's integer types, and the \<^theory_text>\<open>named_theorems\<close> collections the component
  proofs are carried by.

  A fault is an access the language gives no meaning to, or a failed allocation, which throws.
  The model never continues past it: an operation that may fault returns \<open>Inl\<close> of the fault, and
  a theorem that an operation is safe says that it returns \<open>Inr\<close>.
\<close>

named_theorems res_simps "evaluation of computations that may fault"
named_theorems frame_simps "fields an operation leaves as they are"
named_theorems buf_simps "reads of a character array after a write"

section \<open>Faults and results\<close>

datatype fault =
    Out_Of_Bounds   \<comment> \<open>an access outside an array\<close>
  | Null_Deref      \<comment> \<open>an access through a null pointer\<close>
  | Int_Overflow    \<comment> \<open>a signed addition that does not fit\<close>
  | Empty_Container \<comment> \<open>\<open>front\<close> or \<open>pop\<close> of an empty container\<close>
  | Bad_Alloc       \<comment> \<open>\<open>new\<close> of a negative number of elements, an exception\<close>
  | Logic_Error     \<comment> \<open>an exception of the JSON library\<close>
  | Not_Joinable    \<comment> \<open>\<open>join\<close> of a thread that is not joinable, an exception\<close>
  | Use_After_Free  \<comment> \<open>an access to an object that has been destroyed\<close>

type_synonym 'a res = "fault + 'a"

definition bindr :: "'a res \<Rightarrow> ('a \<Rightarrow> 'b res) \<Rightarrow> 'b res" where
  "bindr r f = (case r of Inl e \<Rightarrow> Inl e | Inr x \<Rightarrow> f x)"

lemma bindr_simps [simp, res_simps]:
  "bindr (Inr x) f = f x"
  "bindr (Inl e) f = Inl e"
  by (simp_all add: bindr_def)

lemma bindr_assoc [res_simps]: "bindr (bindr r f) g = bindr r (\<lambda>x. bindr (f x) g)"
  by (cases r) simp_all

lemma bindr_cong [fundef_cong]:
  "r = r' \<Longrightarrow> (\<And>x. r' = Inr x \<Longrightarrow> f x = g x) \<Longrightarrow> bindr r f = bindr r' g"
  by (cases r') simp_all

lemma bindr_eq_Inr: "bindr r f = Inr y \<longleftrightarrow> (\<exists>x. r = Inr x \<and> f x = Inr y)"
  by (cases r) simp_all

lemma bindr_eq_Inl: "bindr r f = Inl e \<longleftrightarrow> r = Inl e \<or> (\<exists>x. r = Inr x \<and> f x = Inl e)"
  by (cases r) simp_all

lemma bindr_InrE:
  assumes "bindr r f = Inr y"
  obtains x where "r = Inr x" and "f x = Inr y"
  using assms by (auto simp: bindr_eq_Inr)

definition assertr :: "fault \<Rightarrow> bool \<Rightarrow> unit res" where
  "assertr e b = (if b then Inr () else Inl e)"

lemma assertr_simps [simp, res_simps]:
  "assertr e True = Inr ()"
  "assertr e False = Inl e"
  "assertr e b = Inr u \<longleftrightarrow> b"
  "assertr e b = Inl e' \<longleftrightarrow> \<not> b \<and> e' = e"
  by (auto simp: assertr_def)

text \<open>
  Two readings of a postcondition: \<open>wp Q r\<close> says that \<open>r\<close> is no fault and its value satisfies
  \<open>Q\<close>; \<open>wlp Q r\<close> only speaks of the value where there is one.
\<close>

definition wp :: "('a \<Rightarrow> bool) \<Rightarrow> 'a res \<Rightarrow> bool" where
  "wp Q r = (case r of Inl _ \<Rightarrow> False | Inr x \<Rightarrow> Q x)"

definition wlp :: "('a \<Rightarrow> bool) \<Rightarrow> 'a res \<Rightarrow> bool" where
  "wlp Q r = (case r of Inl _ \<Rightarrow> True | Inr x \<Rightarrow> Q x)"

named_theorems wp_simps "weakest preconditions of computations that may fault"

lemma wp_basic [simp, wp_simps]:
  "wp Q (Inr x) = Q x"
  "wp Q (Inl e) = False"
  "wp Q (bindr r f) = wp (\<lambda>x. wp Q (f x)) r"
  by (simp_all add: wp_def) (cases r; simp)

lemma wlp_basic [simp, wp_simps]:
  "wlp Q (Inr x) = Q x"
  "wlp Q (Inl e) = True"
  "wlp Q (bindr r f) = (\<forall>x. r = Inr x \<longrightarrow> wlp Q (f x))"
  by (simp_all add: wlp_def) (cases r; simp)

lemma wp_if [wp_simps]: "wp Q (if b then r else s) = (if b then wp Q r else wp Q s)"
  by simp

lemma wlp_if [wp_simps]: "wlp Q (if b then r else s) = (if b then wlp Q r else wlp Q s)"
  by simp

lemma wp_case_option [wp_simps]:
  "wp Q (case x of None \<Rightarrow> r | Some y \<Rightarrow> f y) = (case x of None \<Rightarrow> wp Q r | Some y \<Rightarrow> wp Q (f y))"
  by (simp split: option.split)

lemma wlp_case_option [wp_simps]:
  "wlp Q (case x of None \<Rightarrow> r | Some y \<Rightarrow> f y) = (case x of None \<Rightarrow> wlp Q r | Some y \<Rightarrow> wlp Q (f y))"
  by (simp split: option.split)

lemma wp_mono: "wp Q r \<Longrightarrow> (\<And>x. r = Inr x \<Longrightarrow> Q x \<Longrightarrow> R x) \<Longrightarrow> wp R r"
  by (auto simp: wp_def split: sum.splits)

lemma wp_bindI: "wp P r \<Longrightarrow> (\<And>x. P x \<Longrightarrow> wp Q (f x)) \<Longrightarrow> wp Q (bindr r f)"
  by (cases r) simp_all

lemma wp_iff: "wp Q r \<longleftrightarrow> (\<exists>x. r = Inr x \<and> Q x)"
  by (auto simp: wp_def split: sum.splits)

lemma wlp_iff: "wlp Q r \<longleftrightarrow> (\<forall>x. r = Inr x \<longrightarrow> Q x)"
  by (auto simp: wlp_def split: sum.splits)

lemma wlpD: "r = Inr x \<Longrightarrow> wlp Q r \<Longrightarrow> Q x"
  by simp

section \<open>Integers of C\<close>

text \<open>A conversion to \<open>int\<close> keeps the low 32 bits, one to \<open>short\<close> the low 16 (two's complement).\<close>

definition to_int32 :: "int \<Rightarrow> int" where
  "to_int32 x = signed_take_bit 31 x"

definition to_short :: "int \<Rightarrow> int" where
  "to_short x = signed_take_bit 15 x"

abbreviation "INT_MAX \<equiv> (2147483647 :: int)"
abbreviation "INT_MIN \<equiv> (- 2147483648 :: int)"
abbreviation "LONG_MAX \<equiv> (9223372036854775807 :: int)"
abbreviation "LONG_MIN \<equiv> (- 9223372036854775808 :: int)"

lemma to_int32_id: "INT_MIN \<le> x \<Longrightarrow> x \<le> INT_MAX \<Longrightarrow> to_int32 x = x"
  unfolding to_int32_def by (rule signed_take_bit_int_eq_self) simp_all

lemma to_int32_range: "INT_MIN \<le> to_int32 x \<and> to_int32 x \<le> INT_MAX"
  using signed_take_bit_int_greater_eq_minus_exp [of 31 x] signed_take_bit_int_less_exp [of 31 x]
  by (simp add: to_int32_def)

lemma to_short_id: "- 32768 \<le> x \<Longrightarrow> x \<le> 32767 \<Longrightarrow> to_short x = x"
  unfolding to_short_def by (rule signed_take_bit_int_eq_self) simp_all

lemma to_short_range: "- 32768 \<le> to_short x \<and> to_short x \<le> 32767"
  using signed_take_bit_int_greater_eq_minus_exp [of 15 x] signed_take_bit_int_less_exp [of 15 x]
  by (simp add: to_short_def)

text \<open>Signed addition of two \<open>int\<close>s: overflow has no meaning in C++.\<close>

definition add_int :: "int \<Rightarrow> int \<Rightarrow> int res" where
  "add_int a b = (if INT_MIN \<le> a + b \<and> a + b \<le> INT_MAX then Inr (a + b) else Inl Int_Overflow)"

section \<open>Character arrays\<close>

text \<open>
  An array \<open>char b[n]\<close> is a function on its indices; every access that the source does not
  guard checks the index against \<open>n\<close>.
\<close>

type_synonym cbuf = "nat \<Rightarrow> char"

abbreviation "NUL \<equiv> CHR 0x00"
abbreviation "TAB \<equiv> CHR 0x09"
abbreviation "LF \<equiv> CHR 0x0A"
abbreviation "CR \<equiv> CHR 0x0D"
abbreviation "SP \<equiv> CHR '' ''"
abbreviation "CRLF \<equiv> [CR, LF]"

definition zero_buf :: cbuf where
  "zero_buf = (\<lambda>_. NUL)"

definition peek :: "nat \<Rightarrow> cbuf \<Rightarrow> nat \<Rightarrow> char res" where
  "peek n b i = (if i < n then Inr (b i) else Inl Out_Of_Bounds)"

definition poke :: "nat \<Rightarrow> cbuf \<Rightarrow> nat \<Rightarrow> char \<Rightarrow> cbuf res" where
  "poke n b i c = (if i < n then Inr (b(i := c)) else Inl Out_Of_Bounds)"

text \<open>\<open>blit b i s\<close> stores the bytes \<open>s\<close> from index \<open>i\<close> on, as \<open>memcpy\<close> does.\<close>

definition blit :: "cbuf \<Rightarrow> nat \<Rightarrow> char list \<Rightarrow> cbuf" where
  "blit b i s = (\<lambda>k. if i \<le> k \<and> k < i + length s then s ! (k - i) else b k)"

lemma blit_Nil [simp]: "blit b i [] = b"
  by (rule ext) (auto simp: blit_def)

lemma blit_below [buf_simps]: "k < i \<Longrightarrow> blit b i s k = b k"
  by (simp add: blit_def)

lemma blit_above [buf_simps]: "i + length s \<le> k \<Longrightarrow> blit b i s k = b k"
  by (simp add: blit_def)

lemma blit_inside [buf_simps]: "k < length s \<Longrightarrow> blit b i s (i + k) = s ! k"
  by (simp add: blit_def)

lemma blit_append: "blit b i (s @ t) = blit (blit b i s) (i + length s) t"
  by (auto simp: blit_def fun_eq_iff nth_append)

lemma blit_Cons: "blit b i (c # s) = blit (b(i := c)) (Suc i) s"
  by (auto simp: blit_def fun_eq_iff nth_Cons')

text \<open>The bytes of \<open>b\<close> from \<open>i\<close> (included) to \<open>j\<close> (excluded).\<close>

definition slice :: "cbuf \<Rightarrow> nat \<Rightarrow> nat \<Rightarrow> char list" where
  "slice b i j = map b [i..<j]"

lemma length_slice [simp]: "length (slice b i j) = j - i"
  by (simp add: slice_def)

lemma slice_nth: "k < j - i \<Longrightarrow> slice b i j ! k = b (i + k)"
  by (simp add: slice_def)

lemma slice_empty [simp]: "j \<le> i \<Longrightarrow> slice b i j = []"
  by (simp add: slice_def)

lemma slice_split: "i \<le> m \<Longrightarrow> m \<le> j \<Longrightarrow> slice b i j = slice b i m @ slice b m j"
  using upt_add_eq_append [of i m "j - m"] by (simp add: slice_def flip: map_append)

lemma slice_cong: "(\<And>k. i \<le> k \<Longrightarrow> k < j \<Longrightarrow> b k = b' k) \<Longrightarrow> slice b i j = slice b' i j"
  by (simp add: slice_def)

lemma slice_blit: "slice (blit b i s) i (i + length s) = s"
  by (rule nth_equalityI) (simp_all add: slice_nth buf_simps)

lemma slice_blit_below: "j \<le> i \<Longrightarrow> slice (blit b i s) k j = slice b k j"
  by (rule slice_cong) (simp add: buf_simps)

end
