(* ===== verification/CString.thy ===== *)
theory CString
  imports Prelude
begin

text \<open>
  The C library's string functions, as the request parser calls them: on a pointer into a
  character array \<open>char b[n]\<close>, given by its index. Each scans the array byte by byte and stops
  where the C function stops; a scan that leaves the array is \<open>Out_Of_Bounds\<close>. The predicate
  \<open>cstr_at\<close> says that a NUL-terminated string stands at an index, and the lemmas give the
  value of every function there as a function of that string.
\<close>

named_theorems cstr_simps "string functions on a terminated string"

section \<open>Scanning\<close>

function scan :: "nat \<Rightarrow> cbuf \<Rightarrow> (char \<Rightarrow> bool) \<Rightarrow> nat \<Rightarrow> nat res" where
  "scan n b P i =
     (if i < n then (if P (b i) then Inr i else scan n b P (Suc i)) else Inl Out_Of_Bounds)"
  by pat_completeness auto
termination
  by (relation "measure (\<lambda>(n, b, P, i). n - i)") auto

declare scan.simps [simp del]

definition strlen_at :: "nat \<Rightarrow> cbuf \<Rightarrow> nat \<Rightarrow> nat res" where
  "strlen_at n b i = bindr (scan n b (\<lambda>c. c = NUL) i) (\<lambda>j. Inr (j - i))"

definition strpbrk :: "nat \<Rightarrow> cbuf \<Rightarrow> nat \<Rightarrow> char list \<Rightarrow> nat option res" where
  "strpbrk n b i accept =
     bindr (scan n b (\<lambda>c. c = NUL \<or> c \<in> set accept) i)
       (\<lambda>j. Inr (if b j = NUL then None else Some j))"

definition strchr :: "nat \<Rightarrow> cbuf \<Rightarrow> nat \<Rightarrow> char \<Rightarrow> nat option res" where
  "strchr n b i ch =
     bindr (scan n b (\<lambda>c. c = NUL \<or> c = ch) i)
       (\<lambda>j. Inr (if b j = ch then Some j else None))"

definition strspn :: "nat \<Rightarrow> cbuf \<Rightarrow> nat \<Rightarrow> char list \<Rightarrow> nat res" where
  "strspn n b i accept =
     bindr (scan n b (\<lambda>c. c = NUL \<or> c \<notin> set accept) i) (\<lambda>j. Inr (j - i))"

text \<open>\<open>tolower\<close> of the C locale.\<close>

definition tolower :: "char \<Rightarrow> char" where
  "tolower c =
     (let k = (of_char c :: nat) in if 65 \<le> k \<and> k \<le> 90 then char_of (k + 32) else c)"

text \<open>\<open>strcasecmp(p, lit) == 0\<close> and \<open>strncasecmp(p, lit, strlen(lit)) == 0\<close>.\<close>

fun strcasecmp_eq :: "nat \<Rightarrow> cbuf \<Rightarrow> nat \<Rightarrow> string \<Rightarrow> bool res" where
  "strcasecmp_eq n b i [] = bindr (peek n b i) (\<lambda>c. Inr (c = NUL))"
| "strcasecmp_eq n b i (d # ds) =
     bindr (peek n b i)
       (\<lambda>c. if tolower c = tolower d then strcasecmp_eq n b (Suc i) ds else Inr False)"

fun strncasecmp_eq :: "nat \<Rightarrow> cbuf \<Rightarrow> nat \<Rightarrow> string \<Rightarrow> bool res" where
  "strncasecmp_eq n b i [] = Inr True"
| "strncasecmp_eq n b i (d # ds) =
     bindr (peek n b i)
       (\<lambda>c. if tolower c = tolower d then strncasecmp_eq n b (Suc i) ds else Inr False)"

text \<open>
  \<open>atol\<close>: white space, an optional sign, decimal digits; a value outside \<open>long\<close> is the
  nearest \<open>long\<close>, as \<open>strtol\<close> returns it.
\<close>

definition isspace :: "char \<Rightarrow> bool" where
  "isspace c \<longleftrightarrow> c = SP \<or> (9 \<le> (of_char c :: nat) \<and> (of_char c :: nat) \<le> 13)"

definition isdigit :: "char \<Rightarrow> bool" where
  "isdigit c \<longleftrightarrow> 48 \<le> (of_char c :: nat) \<and> (of_char c :: nat) \<le> 57"

definition digit_val :: "char \<Rightarrow> int" where
  "digit_val c = of_char c - 48"

definition dec_value :: "char list \<Rightarrow> int" where
  "dec_value ds = foldl (\<lambda>v c. 10 * v + digit_val c) 0 ds"

definition clamp_long :: "int \<Rightarrow> int" where
  "clamp_long v = max LONG_MIN (min LONG_MAX v)"

definition atol :: "nat \<Rightarrow> cbuf \<Rightarrow> nat \<Rightarrow> int res" where
  "atol n b i =
     bindr (scan n b (\<lambda>c. \<not> isspace c) i) (\<lambda>j.
     let neg = (b j = CHR ''-''); k = (if neg \<or> b j = CHR ''+'' then Suc j else j) in
     bindr (scan n b (\<lambda>c. \<not> isdigit c) k) (\<lambda>e.
     let v = dec_value (slice b k e) in
     Inr (clamp_long (if neg then - v else v))))"

section \<open>Strings in an array\<close>

definition cstr_at :: "cbuf \<Rightarrow> nat \<Rightarrow> string \<Rightarrow> bool" where
  "cstr_at b i s \<longleftrightarrow>
     (\<forall>k < length s. b (i + k) = s ! k) \<and> NUL \<notin> set s \<and> b (i + length s) = NUL"

lemma scan_step: "i < n \<Longrightarrow> \<not> P (b i) \<Longrightarrow> scan n b P i = scan n b P (Suc i)"
  by (simp add: scan.simps [of n b P i])

lemma scan_hit: "i < n \<Longrightarrow> P (b i) \<Longrightarrow> scan n b P i = Inr i"
  by (simp add: scan.simps [of n b P i])

lemma scan_to:
  assumes "\<And>k. i \<le> k \<Longrightarrow> k < j \<Longrightarrow> \<not> P (b k)" and "i \<le> j" and "j < n" and "P (b j)"
  shows "scan n b P i = Inr j"
  using assms
proof (induction n b P i rule: scan.induct)
  case (1 n b P i)
  show ?case
  proof (cases "i = j")
    case True
    with "1.prems" show ?thesis by (simp add: scan_hit)
  next
    case False
    with "1.prems" have "\<not> P (b i)" and "i < n" by auto
    moreover have "scan n b P (Suc i) = Inr j"
      using False "1.prems" \<open>\<not> P (b i)\<close> \<open>i < n\<close> by (intro "1.IH") auto
    ultimately show ?thesis by (simp add: scan_step)
  qed
qed

lemma scan_InrD:
  "scan n b P i = Inr j \<Longrightarrow> i \<le> j \<and> j < n \<and> P (b j) \<and> (\<forall>k. i \<le> k \<and> k < j \<longrightarrow> \<not> P (b k))"
proof (induction n b P i rule: scan.induct)
  case (1 n b P i)
  show ?case
  proof (cases "i < n \<and> \<not> P (b i)")
    case True
    with "1" have "Suc i \<le> j \<and> j < n \<and> P (b j) \<and> (\<forall>k. Suc i \<le> k \<and> k < j \<longrightarrow> \<not> P (b k))"
      by (simp add: scan_step)
    with True show ?thesis by (metis Suc_leD Suc_leI le_neq_implies_less)
  next
    case False
    with "1.prems" show ?thesis by (auto simp: scan.simps [of n b P i] split: if_splits)
  qed
qed

lemma scan_total:
  assumes "i \<le> j" and "j < n" and "P (b j)"
  shows "\<exists>m. scan n b P i = Inr m \<and> i \<le> m \<and> m \<le> j"
  using assms
proof (induction n b P i rule: scan.induct)
  case (1 n b P i)
  show ?case
  proof (cases "P (b i)")
    case True
    with "1.prems" show ?thesis by (auto simp: scan_hit)
  next
    case False
    with "1.prems" have "i < n" "Suc i \<le> j" by (auto simp: Suc_le_eq le_less)
    with False "1.IH" "1.prems" obtain m where "scan n b P (Suc i) = Inr m" "Suc i \<le> m" "m \<le> j"
      by auto
    with False \<open>i < n\<close> show ?thesis by (auto simp: scan_step)
  qed
qed

lemma cstr_at_nth: "cstr_at b i s \<Longrightarrow> k < length s \<Longrightarrow> b (i + k) = s ! k"
  by (simp add: cstr_at_def)

lemma cstr_at_end: "cstr_at b i s \<Longrightarrow> b (i + length s) = NUL"
  by (simp add: cstr_at_def)

lemma cstr_at_nonnul: "cstr_at b i s \<Longrightarrow> k < length s \<Longrightarrow> b (i + k) \<noteq> NUL"
  by (auto simp: cstr_at_def in_set_conv_nth)

lemma cstr_at_append:
  "cstr_at b i (s @ t) \<longleftrightarrow> (\<forall>k < length s. b (i + k) = s ! k) \<and> NUL \<notin> set s \<and> cstr_at b (i + length s) t"
proof -
  have "(\<forall>k < length s + length t. b (i + k) = (s @ t) ! k) \<longleftrightarrow>
        (\<forall>k < length s. b (i + k) = s ! k) \<and> (\<forall>k < length t. b (i + length s + k) = t ! k)"
    (is "?L \<longleftrightarrow> ?R1 \<and> ?R2")
  proof
    assume L: ?L
    have "b (i + k) = s ! k" if "k < length s" for k
      using L that by (auto simp: nth_append dest: spec [of _ k])
    moreover have "b (i + length s + k) = t ! k" if "k < length t" for k
      using L [rule_format, of "length s + k"] that by (simp add: add.assoc)
    ultimately show "?R1 \<and> ?R2" by blast
  next
    assume R: "?R1 \<and> ?R2"
    show ?L
    proof (intro allI impI)
      fix k assume k: "k < length s + length t"
      show "b (i + k) = (s @ t) ! k"
      proof (cases "k < length s")
        case True with R show ?thesis by (simp add: nth_append)
      next
        case False
        with R [THEN conjunct2, rule_format, of "k - length s"] k show ?thesis
          by (simp add: nth_append)
      qed
    qed
  qed
  then show ?thesis by (auto simp: cstr_at_def ac_simps)
qed

lemma cstr_at_Cons: "cstr_at b i (c # s) \<longleftrightarrow> b i = c \<and> c \<noteq> NUL \<and> cstr_at b (Suc i) s"
  using cstr_at_append [of b i "[c]" s] by auto

lemma cstr_at_Nil: "cstr_at b i [] \<longleftrightarrow> b i = NUL"
  by (simp add: cstr_at_def)

lemma cstr_at_drop: "cstr_at b i s \<Longrightarrow> k \<le> length s \<Longrightarrow> cstr_at b (i + k) (drop k s)"
  using cstr_at_append [of b i "take k s" "drop k s"] by simp

lemma cstr_at_cong:
  "(\<And>k. i \<le> k \<Longrightarrow> k \<le> i + length s \<Longrightarrow> b k = b' k) \<Longrightarrow> cstr_at b i s \<longleftrightarrow> cstr_at b' i s"
  by (auto simp: cstr_at_def)

lemma cstr_at_unique: "cstr_at b i s \<Longrightarrow> cstr_at b i t \<Longrightarrow> s = t"
proof (induction s arbitrary: i t)
  case Nil
  then show ?case by (cases t) (auto simp: cstr_at_Cons cstr_at_Nil)
next
  case (Cons c s)
  then show ?case by (cases t) (auto simp: cstr_at_Cons cstr_at_Nil)
qed

text \<open>A NUL anywhere behind the index makes a string stand there.\<close>

lemma cstr_at_exists:
  assumes "i \<le> j" and "b j = NUL"
  obtains s where "cstr_at b i s" and "i + length s \<le> j"
proof -
  obtain m where m: "scan (Suc j) b (\<lambda>c. c = NUL) i = Inr m" "i \<le> m" "m \<le> j"
    using scan_total [of i j "Suc j" "\<lambda>c. c = NUL" b] assms by auto
  then have bm: "b m = NUL" and before: "\<And>k. i \<le> k \<Longrightarrow> k < m \<Longrightarrow> b k \<noteq> NUL"
    using scan_InrD [OF m(1)] by auto
  have "cstr_at b i (slice b i m)"
    using m bm before by (auto simp: cstr_at_def slice_nth in_set_conv_nth)
  with m show thesis by (intro that [of "slice b i m"]) auto
qed

lemma cstr_at_blit: "NUL \<notin> set s \<Longrightarrow> b (i + length s) = NUL \<Longrightarrow> cstr_at (blit b i s) i s"
  by (simp add: cstr_at_def buf_simps)

section \<open>The string functions on a terminated string\<close>

lemma scan_cstr:
  assumes "cstr_at b i s" and "i + length s < n" and "P NUL"
  shows "scan n b P i = Inr (i + length (takeWhile (\<lambda>c. \<not> P c) s))"
  using assms
proof (induction s arbitrary: i)
  case Nil
  then show ?case by (simp add: cstr_at_Nil scan_hit)
next
  case (Cons c s)
  then have c: "b i = c" "cstr_at b (Suc i) s" "i < n" by (auto simp: cstr_at_Cons)
  show ?case
  proof (cases "P c")
    case True
    with c show ?thesis by (simp add: scan_hit)
  next
    case False
    with c Cons.IH [of "Suc i"] Cons.prems show ?thesis by (simp add: scan_step)
  qed
qed

lemma strlen_at_cstr [cstr_simps]:
  "cstr_at b i s \<Longrightarrow> i + length s < n \<Longrightarrow> strlen_at n b i = Inr (length s)"
proof -
  assume s: "cstr_at b i s" "i + length s < n"
  then have "takeWhile (\<lambda>c. c \<noteq> NUL) s = s" by (auto simp: cstr_at_def takeWhile_eq_all_conv)
  with scan_cstr [OF s, of "\<lambda>c. c = NUL"] show ?thesis by (simp add: strlen_at_def)
qed

lemma takeWhile_cstr_nth:
  assumes "cstr_at b i s"
  shows "b (i + length (takeWhile Q s)) = (case dropWhile Q s of [] \<Rightarrow> NUL | c # _ \<Rightarrow> c)"
proof -
  have "cstr_at b (i + length (takeWhile Q s)) (dropWhile Q s)"
    using cstr_at_append [of b i "takeWhile Q s" "dropWhile Q s"] assms by simp
  then show ?thesis by (auto simp: cstr_at_Cons cstr_at_Nil simp del: dropWhile_eq_Nil_conv
        split: list.split)
qed

text \<open>Where \<open>strpbrk\<close> stops: the first byte of the string that is in the given set.\<close>

definition find_in :: "char list \<Rightarrow> string \<Rightarrow> nat option" where
  "find_in accept s =
     (let k = length (takeWhile (\<lambda>c. c \<notin> set accept) s) in if k < length s then Some k else None)"

lemma takeWhile_not_nul:
  "NUL \<notin> set s \<Longrightarrow> takeWhile (\<lambda>c. \<not> (c = NUL \<or> Q c)) s = takeWhile (\<lambda>c. \<not> Q c) s"
  by (induction s) auto

lemma dropWhile_Nil_length: "dropWhile Q s = [] \<longleftrightarrow> length (takeWhile Q s) = length s"
  by (metis append.right_neutral append_eq_conv_conj length_append_singleton takeWhile_dropWhile_id
      append_self_conv length_0_conv length_append add_cancel_left_right)

lemma cstr_stop_nul:
  assumes "cstr_at b i s"
  shows "b (i + length (takeWhile Q s)) = NUL \<longleftrightarrow> length (takeWhile Q s) = length s"
proof (cases "dropWhile Q s")
  case Nil
  then show ?thesis
    using takeWhile_cstr_nth [OF assms, of Q] dropWhile_Nil_length [of Q s]
    by (simp del: dropWhile_eq_Nil_conv)
next
  case (Cons c r)
  then have "c \<in> set s" by (metis list.set_intros(1) set_dropWhileD)
  with assms have "c \<noteq> NUL" by (auto simp: cstr_at_def)
  with Cons show ?thesis
    using takeWhile_cstr_nth [OF assms, of Q] dropWhile_Nil_length [of Q s] by simp
qed

lemma length_takeWhile_eq: "length (takeWhile Q s) \<noteq> length s \<longleftrightarrow> length (takeWhile Q s) < length s"
  using length_takeWhile_le [of Q s] by linarith

lemma strpbrk_cstr [cstr_simps]:
  assumes "cstr_at b i s" and "i + length s < n"
  shows "strpbrk n b i accept = Inr (map_option ((+) i) (find_in accept s))"
proof -
  have "NUL \<notin> set s" using assms by (simp add: cstr_at_def)
  then show ?thesis
    using scan_cstr [OF assms, of "\<lambda>c. c = NUL \<or> c \<in> set accept"]
      cstr_stop_nul [OF assms(1), of "\<lambda>c. c \<notin> set accept"]
    by (simp add: strpbrk_def takeWhile_not_nul find_in_def Let_def length_takeWhile_eq
        del: de_Morgan_disj)
qed

lemma strchr_cstr [cstr_simps]:
  assumes "cstr_at b i s" and "i + length s < n" and "ch \<noteq> NUL"
  shows "strchr n b i ch = Inr (map_option ((+) i) (find_in [ch] s))"
proof -
  have nul: "NUL \<notin> set s" using assms by (simp add: cstr_at_def)
  let ?Q = "\<lambda>c. c \<noteq> ch"
  have "b (i + length (takeWhile ?Q s)) = ch \<longleftrightarrow> length (takeWhile ?Q s) < length s"
  proof (cases "dropWhile ?Q s")
    case Nil
    then show ?thesis
      using takeWhile_cstr_nth [OF assms(1), of ?Q] dropWhile_Nil_length [of ?Q s] assms(3)
      by (simp del: dropWhile_eq_Nil_conv)
  next
    case (Cons c r)
    then have "c = ch" using dropWhile_eq_Cons_conv [of ?Q s c r] by simp
    with Cons show ?thesis
      using takeWhile_cstr_nth [OF assms(1), of ?Q] dropWhile_Nil_length [of ?Q s]
        length_takeWhile_eq [of ?Q s] by simp
  qed
  then show ?thesis
    using scan_cstr [OF assms(1,2), of "\<lambda>c. c = NUL \<or> c = ch"] nul
    by (simp add: strchr_def takeWhile_not_nul find_in_def Let_def del: de_Morgan_disj)
qed

lemma strspn_cstr [cstr_simps]:
  assumes "cstr_at b i s" and "i + length s < n"
  shows "strspn n b i accept = Inr (length (takeWhile (\<lambda>c. c \<in> set accept) s))"
proof -
  have "NUL \<notin> set s" using assms by (simp add: cstr_at_def)
  then show ?thesis
    using scan_cstr [OF assms, of "\<lambda>c. c = NUL \<or> c \<notin> set accept"]
    by (simp add: strspn_def takeWhile_not_nul del: de_Morgan_disj)
qed

lemma tolower_NUL [simp]: "tolower NUL = NUL"
  by (simp add: tolower_def)

lemma tolower_eq_NUL [simp]: "tolower c = NUL \<longleftrightarrow> c = NUL"
proof
  assume h: "tolower c = NUL"
  have "(of_char (tolower c) :: nat) = 0" by (simp add: h)
  then have "(of_char c :: nat) = 0"
    by (auto simp: tolower_def Let_def split: if_splits)
  then have "(of_char c :: nat) = of_char NUL" by simp
  then show "c = NUL" by (simp only: of_char_eq_iff)
qed simp

text \<open>Equality up to ASCII case, and the same for a prefix.\<close>

definition ci_eq :: "string \<Rightarrow> string \<Rightarrow> bool" where
  "ci_eq s t \<longleftrightarrow> map tolower s = map tolower t"

definition ci_prefix :: "string \<Rightarrow> string \<Rightarrow> bool" where
  "ci_prefix t s \<longleftrightarrow> length t \<le> length s \<and> ci_eq (take (length t) s) t"

lemma ci_eq_Cons [simp]: "ci_eq (c # s) (d # t) \<longleftrightarrow> tolower c = tolower d \<and> ci_eq s t"
  by (simp add: ci_eq_def)

lemma ci_eq_Nil [simp]: "ci_eq [] t \<longleftrightarrow> t = []" "ci_eq s [] \<longleftrightarrow> s = []"
  by (auto simp: ci_eq_def)

lemma strcasecmp_eq_cstr [cstr_simps]:
  assumes "cstr_at b i s" and "i + length s < n" and "NUL \<notin> set lit"
  shows "strcasecmp_eq n b i lit = Inr (ci_eq s lit)"
  using assms
proof (induction lit arbitrary: i s)
  case Nil
  then show ?case by (cases s) (auto simp: cstr_at_Cons cstr_at_Nil peek_def)
next
  case (Cons d lit)
  show ?case
  proof (cases s)
    case Nil
    with Cons.prems have "tolower (b i) \<noteq> tolower d"
      by (simp add: cstr_at_Nil) (metis tolower_eq_NUL)
    with Nil Cons.prems show ?thesis by (simp add: peek_def)
  next
    case (Cons c r)
    with Cons.prems Cons.IH [of "Suc i" r] show ?thesis by (auto simp: cstr_at_Cons peek_def)
  qed
qed

lemma ci_prefix_simps [simp]:
  "ci_prefix [] s" "\<not> ci_prefix (d # t) []"
  "ci_prefix (d # t) (c # s) \<longleftrightarrow> tolower c = tolower d \<and> ci_prefix t s"
  by (auto simp: ci_prefix_def)

lemma strncasecmp_eq_cstr [cstr_simps]:
  assumes "cstr_at b i s" and "i + length s < n" and "NUL \<notin> set lit"
  shows "strncasecmp_eq n b i lit = Inr (ci_prefix lit s)"
  using assms
proof (induction lit arbitrary: i s)
  case Nil
  then show ?case by simp
next
  case (Cons d lit)
  show ?case
  proof (cases s)
    case Nil
    with Cons.prems have "tolower (b i) \<noteq> tolower d"
      by (simp add: cstr_at_Nil) (metis tolower_eq_NUL)
    with Nil Cons.prems show ?thesis by (simp add: peek_def)
  next
    case (Cons c r)
    with Cons.prems Cons.IH [of "Suc i" r] show ?thesis by (auto simp: cstr_at_Cons peek_def)
  qed
qed

text \<open>The number \<open>atol\<close> reads from a string.\<close>

definition atol_value :: "string \<Rightarrow> int" where
  "atol_value s =
     (let t = dropWhile isspace s;
          neg = (t \<noteq> [] \<and> hd t = CHR ''-'');
          u = (if t \<noteq> [] \<and> (neg \<or> hd t = CHR ''+'') then tl t else t);
          v = dec_value (takeWhile isdigit u)
      in clamp_long (if neg then - v else v))"

lemma not_isspace_NUL [simp]: "\<not> isspace NUL" and not_isdigit_NUL [simp]: "\<not> isdigit NUL"
  by (simp_all add: isspace_def isdigit_def)

lemma slice_cstr:
  assumes "cstr_at b i s" and "k \<le> length s"
  shows "slice b i (i + k) = take k s"
  using assms by (intro nth_equalityI) (auto simp: slice_nth cstr_at_nth)

lemma scan_digits_cstr:
  assumes "cstr_at b k u" and "k + length u < n"
  shows "bindr (scan n b (\<lambda>c. \<not> isdigit c) k) (\<lambda>e. Inr (f (dec_value (slice b k e))))
       = Inr (f (dec_value (takeWhile isdigit u)))"
  using assms
  by (simp add: scan_cstr slice_cstr [OF assms(1) length_takeWhile_le] takeWhile_eq_take [symmetric])

lemma atol_cstr [cstr_simps]:
  assumes s: "cstr_at b i s" and n: "i + length s < n"
  shows "atol n b i = Inr (atol_value s)"
proof -
  define t where "t = dropWhile isspace s"
  define j where "j = i + length (takeWhile isspace s)"
  have t: "cstr_at b j t" and jn: "j + length t < n"
  proof -
    have "s = takeWhile isspace s @ t" by (simp add: t_def)
    then show "cstr_at b j t" "j + length t < n"
      using s n cstr_at_append [of b i "takeWhile isspace s" t]
      by (simp_all add: j_def) (metis add.assoc length_append)
  qed
  have sp: "scan n b (\<lambda>c. \<not> isspace c) i = Inr j"
    using scan_cstr [OF s n, of "\<lambda>c. \<not> isspace c"] by (simp add: j_def)
  show ?thesis
  proof (cases t)
    case Nil
    with t have "b j = NUL" by (simp add: cstr_at_Nil)
    then show ?thesis
      using sp scan_digits_cstr [OF t jn, of clamp_long] Nil
      by (simp add: atol_def atol_value_def Let_def flip: t_def)
  next
    case (Cons c u)
    with t jn have c: "b j = c" and u: "cstr_at b (Suc j) u" "Suc j + length u < n"
      by (auto simp: cstr_at_Cons)
    show ?thesis
      using sp c Cons scan_digits_cstr [OF u, of "\<lambda>v. clamp_long (- v)"]
        scan_digits_cstr [OF u, of clamp_long] scan_digits_cstr [OF t jn, of clamp_long]
      by (simp add: atol_def atol_value_def Let_def flip: t_def)
  qed
qed

declare strcasecmp_eq.simps [simp del] strncasecmp_eq.simps [simp del]

end
