(* ===== verification/Http_Parse.thy ===== *)
theory Http_Parse
  imports CString
begin

unbundle bit_operations_syntax

text \<open>
  The request half of \<open>http_conn\<close> (\<open>1. Proactor/http_conn.h\<close>, \<open>http_conn.cpp\<close>): the
  connection object, the line scanner \<open>parse_line\<close>, the three parsers of the main state
  machine, \<open>process_read\<close> that drives them, and \<open>do_request\<close> that maps the URL to a file.
  Pointers into \<open>m_read_buf\<close> are indices (\<open>None\<close> is the null pointer). The file system is an
  argument: what \<open>stat\<close> answers for a path and the address \<open>mmap\<close> returns.
\<close>

section \<open>The connection object\<close>

abbreviation "READ_BUFFER_SIZE \<equiv> (2048 :: nat)"
abbreviation "WRITE_BUFFER_SIZE \<equiv> (1024 :: nat)"
abbreviation "FILENAME_LEN \<equiv> (200 :: nat)"

datatype METHOD = GET | POST | HEAD | PUT | DELETE | TRACE | OPTIONS | CONNECT

datatype CHECK_STATE = CHECK_STATE_REQUESTLINE | CHECK_STATE_HEADER | CHECK_STATE_CONTENT

datatype HTTP_CODE =
    NO_REQUEST | GET_REQUEST | BAD_REQUEST | NO_RESOURCE | FORBIDDEN_REQUEST | FILE_REQUEST
  | INTERNAL_ERROR | CLOSED_CONNECTION

datatype LINE_STATUS = LINE_OK | LINE_BAD | LINE_OPEN

text \<open>The fields of \<open>struct stat\<close> and \<open>struct sockaddr_in\<close> the code uses.\<close>

record file_stat =
  st_mode :: "32 word"
  st_size :: int

record sockaddr_in =
  sin_port :: "16 word"
  sin_addr :: "32 word"

datatype iov_base = Iov_Null | Iov_Write_Buf | Iov_File nat

record iovec =
  iov_base :: iov_base
  iov_len :: nat

record http_conn =
  m_sockfd :: int
  m_address :: sockaddr_in
  m_read_buf :: cbuf
  m_read_idx :: nat
  m_checked_index :: nat
  m_start_line :: nat
  m_check_state :: CHECK_STATE
  m_url :: "nat option"
  m_version :: "nat option"
  m_method :: METHOD
  m_host :: "nat option"
  m_linger :: bool
  m_content_length :: int
  m_real_file :: cbuf
  m_write_buf :: cbuf
  m_write_idx :: nat
  m_file_address :: nat
  m_file_stat :: file_stat
  m_iv :: "iovec list"
  m_iv_count :: nat

text \<open>What the kernel answers about files: \<open>stat\<close> fails with \<open>None\<close>; \<open>mmap\<close> returns an address.\<close>

record filesys =
  fs_stat :: "string \<Rightarrow> file_stat option"
  fs_mmap :: "string \<Rightarrow> int \<Rightarrow> nat"

section \<open>Initialisation\<close>

text \<open>
  \<open>http_conn::init()\<close>, as it acts on the object itself. Its second \<open>bzero\<close> clears
  \<open>READ_BUFFER_SIZE\<close> bytes from the start of \<open>m_write_buf\<close>, which has only
  \<open>WRITE_BUFFER_SIZE\<close>: the object's members behind the array (\<open>m_write_idx\<close>,
  \<open>m_file_address\<close>, \<open>m_file_stat\<close>, \<open>m_iv\<close>, \<open>m_iv_count\<close>) are cleared with it, and so is
  the beginning of the object that follows in memory, which is modelled where the objects form
  an array.
\<close>

definition null_iovec :: iovec where
  "null_iovec = \<lparr>iov_base = Iov_Null, iov_len = 0\<rparr>"

definition init_conn :: "http_conn \<Rightarrow> http_conn" where
  "init_conn c = c\<lparr>
     m_check_state := CHECK_STATE_REQUESTLINE, m_linger := False, m_method := GET,
     m_url := None, m_version := None, m_content_length := 0, m_host := None,
     m_start_line := 0, m_checked_index := 0, m_read_idx := 0, m_write_idx := 0,
     m_read_buf := zero_buf, m_write_buf := zero_buf,
     m_file_address := 0, m_file_stat := \<lparr>st_mode = 0, st_size = 0\<rparr>,
     m_iv := [null_iovec, null_iovec], m_iv_count := 0,
     m_real_file := zero_buf\<rparr>"

text \<open>The effect of one successful \<open>recv\<close> in \<open>http_conn::read\<close>: the bytes are stored and counted.\<close>

definition recv_store :: "char list \<Rightarrow> http_conn \<Rightarrow> http_conn" where
  "recv_store s c = c\<lparr>m_read_buf := blit (m_read_buf c) (m_read_idx c) s,
                       m_read_idx := m_read_idx c + length s\<rparr>"

section \<open>Scanning a line\<close>

text \<open>\<open>parse_line\<close>: the loop over \<open>m_checked_index\<close>, one call per iteration.\<close>

function parse_line :: "http_conn \<Rightarrow> (LINE_STATUS \<times> http_conn) res" where
  "parse_line c =
     (let i = m_checked_index c; b = m_read_buf c in
      if i < m_read_idx c then
        bindr (peek READ_BUFFER_SIZE b i) (\<lambda>temp.
        if temp = CR then
          (if Suc i = m_read_idx c then Inr (LINE_OPEN, c)
           else bindr (peek READ_BUFFER_SIZE b (Suc i)) (\<lambda>nxt.
             if nxt = LF then
               Inr (LINE_OK, c\<lparr>m_read_buf := b(i := NUL, Suc i := NUL),
                               m_checked_index := Suc (Suc i)\<rparr>)
             else Inr (LINE_BAD, c)))
        else if temp = LF then
          (if 1 < i \<and> b (i - 1) = CR then
             Inr (LINE_OK, c\<lparr>m_read_buf := b(i - 1 := NUL, i := NUL), m_checked_index := Suc i\<rparr>)
           else Inr (LINE_BAD, c))
        else parse_line (c\<lparr>m_checked_index := Suc i\<rparr>))
      else Inr (LINE_OPEN, c))"
  by pat_completeness auto
termination
  by (relation "measure (\<lambda>c. m_read_idx c - m_checked_index c)") (auto simp: peek_def split: if_splits)

declare parse_line.simps [simp del]

section \<open>The parsers of the main state machine\<close>

definition parse_request_line :: "nat \<Rightarrow> http_conn \<Rightarrow> (HTTP_CODE \<times> http_conn) res" where
  "parse_request_line text c =
     bindr (strpbrk READ_BUFFER_SIZE (m_read_buf c) text [SP, TAB]) (\<lambda>url.
     case url of
       None \<Rightarrow> Inr (BAD_REQUEST, c\<lparr>m_url := None\<rparr>)
     | Some p \<Rightarrow>
         (let c = c\<lparr>m_read_buf := (m_read_buf c)(p := NUL), m_url := Some (Suc p)\<rparr> in
          bindr (strcasecmp_eq READ_BUFFER_SIZE (m_read_buf c) text ''GET'') (\<lambda>is_get.
          if \<not> is_get then Inr (BAD_REQUEST, c)
          else
            (let c = c\<lparr>m_method := GET\<rparr> in
             bindr (strpbrk READ_BUFFER_SIZE (m_read_buf c) (Suc p) [SP, TAB]) (\<lambda>version.
             case version of
               None \<Rightarrow> Inr (BAD_REQUEST, c\<lparr>m_version := None\<rparr>)
             | Some q \<Rightarrow>
                 (let c = c\<lparr>m_read_buf := (m_read_buf c)(q := NUL), m_version := Some (Suc q)\<rparr> in
                  bindr (strcasecmp_eq READ_BUFFER_SIZE (m_read_buf c) (Suc q) ''HTTP/1.1'') (\<lambda>v11.
                  if \<not> v11 then Inr (BAD_REQUEST, c)
                  else
                    bindr (strncasecmp_eq READ_BUFFER_SIZE (m_read_buf c) (Suc p) ''http://'') (\<lambda>abs.
                    bindr (if abs then strchr READ_BUFFER_SIZE (m_read_buf c) (Suc p + 7) (CHR ''/'')
                           else Inr (Some (Suc p))) (\<lambda>u.
                    let c = c\<lparr>m_url := u\<rparr> in
                    case u of
                      None \<Rightarrow> Inr (BAD_REQUEST, c)
                    | Some k \<Rightarrow>
                        bindr (peek READ_BUFFER_SIZE (m_read_buf c) k) (\<lambda>ch.
                        if ch \<noteq> CHR ''/'' then Inr (BAD_REQUEST, c)
                        else Inr (NO_REQUEST, c\<lparr>m_check_state := CHECK_STATE_HEADER\<rparr>)))))))))))"

definition parse_headers :: "nat \<Rightarrow> http_conn \<Rightarrow> (HTTP_CODE \<times> http_conn) res" where
  "parse_headers text c =
     (let b = m_read_buf c; n = READ_BUFFER_SIZE in
      bindr (peek n b text) (\<lambda>first.
      if first = NUL then
        (if m_content_length c \<noteq> 0
         then Inr (NO_REQUEST, c\<lparr>m_check_state := CHECK_STATE_CONTENT\<rparr>)
         else Inr (GET_REQUEST, c))
      else
        bindr (strncasecmp_eq n b text ''Connection:'') (\<lambda>conn.
        if conn then
          bindr (strspn n b (text + 11) [SP, TAB]) (\<lambda>k.
          bindr (strcasecmp_eq n b (text + 11 + k) ''keep-alive'') (\<lambda>ka.
          Inr (NO_REQUEST, if ka then c\<lparr>m_linger := True\<rparr> else c)))
        else
          bindr (strncasecmp_eq n b text ''Content-Length:'') (\<lambda>clen.
          if clen then
            bindr (strspn n b (text + 15) [SP, TAB]) (\<lambda>k.
            bindr (atol n b (text + 15 + k)) (\<lambda>v.
            Inr (NO_REQUEST, c\<lparr>m_content_length := to_int32 v\<rparr>)))
          else
            bindr (strncasecmp_eq n b text ''Host:'') (\<lambda>host.
            if host then
              bindr (strspn n b (text + 5) [SP, TAB]) (\<lambda>k.
              Inr (NO_REQUEST, c\<lparr>m_host := Some (text + 5 + k)\<rparr>))
            else
              bindr (strlen_at n b text) (\<lambda>_. Inr (NO_REQUEST, c)))))))"

text \<open>\<open>text[m_content_length]\<close>: the index is an \<open>int\<close> and may be negative.\<close>

definition parse_content :: "nat \<Rightarrow> http_conn \<Rightarrow> (HTTP_CODE \<times> http_conn) res" where
  "parse_content text c =
     bindr (add_int (m_content_length c) (int (m_checked_index c))) (\<lambda>need.
     if need \<le> int (m_read_idx c) then
       (let i = int text + m_content_length c in
        if i < 0 then Inl Out_Of_Bounds
        else bindr (poke READ_BUFFER_SIZE (m_read_buf c) (nat i) NUL) (\<lambda>b.
          Inr (GET_REQUEST, c\<lparr>m_read_buf := b\<rparr>)))
     else Inr (NO_REQUEST, c))"

section \<open>From the URL to a file\<close>

definition doc_root :: string where
  "doc_root = ''./resources''"

text \<open>\<open>S_IROTH\<close> and \<open>S_ISDIR\<close> of \<open>sys/stat.h\<close>.\<close>

definition S_IROTH :: "32 word" where
  "S_IROTH = 4"

definition S_ISDIR :: "32 word \<Rightarrow> bool" where
  "S_ISDIR m \<longleftrightarrow> m AND 0xF000 = 0x4000"

text \<open>The bytes \<open>strncpy(d, s, k)\<close> stores: those of \<open>s\<close> up to its end, filled up with NUL.\<close>

fun strncpy_src :: "nat \<Rightarrow> cbuf \<Rightarrow> nat \<Rightarrow> nat \<Rightarrow> char list res" where
  "strncpy_src n b i 0 = Inr []"
| "strncpy_src n b i (Suc k) =
     bindr (peek n b i) (\<lambda>c.
     if c = NUL then Inr (replicate (Suc k) NUL)
     else bindr (strncpy_src n b (Suc i) k) (\<lambda>cs. Inr (c # cs)))"

definition do_request :: "filesys \<Rightarrow> http_conn \<Rightarrow> (HTTP_CODE \<times> http_conn) res" where
  "do_request fs c =
     (let len = length doc_root;
          f0 = blit (m_real_file c) 0 (doc_root @ [NUL]) in
      case m_url c of
        None \<Rightarrow> Inl Null_Deref
      | Some u \<Rightarrow>
          bindr (strncpy_src READ_BUFFER_SIZE (m_read_buf c) u (FILENAME_LEN - len - 1)) (\<lambda>s.
          let f = blit f0 len s; c = c\<lparr>m_real_file := f\<rparr> in
          bindr (strlen_at FILENAME_LEN f 0) (\<lambda>l.
          let path = slice f 0 l in
          case fs_stat fs path of
            None \<Rightarrow> Inr (NO_RESOURCE, c)
          | Some st \<Rightarrow>
              (let c = c\<lparr>m_file_stat := st\<rparr> in
               if st_mode st AND S_IROTH = 0 then Inr (FORBIDDEN_REQUEST, c)
               else if S_ISDIR (st_mode st) then Inr (BAD_REQUEST, c)
               else Inr (FILE_REQUEST, c\<lparr>m_file_address := fs_mmap fs path (st_size st)\<rparr>)))))"

section \<open>The main state machine\<close>

text \<open>
  One iteration of the loop of \<open>process_read\<close>: the loop condition (which calls \<open>parse_line\<close>
  unless a body is expected), the line it yields, and the parser of the current state. The
  \<open>printf\<close> of the line reads it up to its NUL.
\<close>

datatype iteration =
    Continue LINE_STATUS http_conn
  | Return HTTP_CODE http_conn

definition process_read_iter :: "filesys \<Rightarrow> LINE_STATUS \<Rightarrow> http_conn \<Rightarrow> iteration res" where
  "process_read_iter fs line_status c =
     bindr (if m_check_state c = CHECK_STATE_CONTENT \<and> line_status = LINE_OK
            then Inr (LINE_OK, c) else parse_line c) (\<lambda>(line_status, c).
     if line_status \<noteq> LINE_OK then Inr (Return NO_REQUEST c)
     else
       (let text = m_start_line c;
            c = c\<lparr>m_start_line := m_checked_index c\<rparr> in
        bindr (strlen_at READ_BUFFER_SIZE (m_read_buf c) text) (\<lambda>_.
        case m_check_state c of
          CHECK_STATE_REQUESTLINE \<Rightarrow>
            bindr (parse_request_line text c) (\<lambda>(ret, c).
            Inr (if ret = BAD_REQUEST then Return BAD_REQUEST c else Continue line_status c))
        | CHECK_STATE_HEADER \<Rightarrow>
            bindr (parse_headers text c) (\<lambda>(ret, c).
            if ret = BAD_REQUEST then Inr (Return BAD_REQUEST c)
            else if ret = GET_REQUEST then
              bindr (do_request fs c) (\<lambda>(ret, c). Inr (Return ret c))
            else Inr (Continue line_status c))
        | CHECK_STATE_CONTENT \<Rightarrow>
            bindr (parse_content text c) (\<lambda>(ret, c).
            if ret = GET_REQUEST then
              bindr (do_request fs c) (\<lambda>(ret, c). Inr (Return ret c))
            else Inr (Continue LINE_OPEN c)))))"

lemma parse_line_frame:
  "parse_line c = Inr (st, c') \<Longrightarrow>
     c' = c\<lparr>m_read_buf := m_read_buf c', m_checked_index := m_checked_index c'\<rparr> \<and>
     m_checked_index c \<le> m_checked_index c'"
proof (induction c rule: parse_line.induct)
  case (1 c)
  note IH = 1(1) and prem = 1(2)
  let ?i = "m_checked_index c" and ?b = "m_read_buf c"
  show ?case
  proof (cases "?i < m_read_idx c \<and> ?i < READ_BUFFER_SIZE \<and> ?b ?i \<noteq> CR \<and> ?b ?i \<noteq> LF")
    case True
    with prem have "parse_line (c\<lparr>m_checked_index := Suc ?i\<rparr>) = Inr (st, c')"
      by (simp add: parse_line.simps [of c] Let_def peek_def)
    with True IH show ?thesis by (fastforce simp: peek_def)
  next
    case False
    with prem show ?thesis
      by (auto simp: parse_line.simps [of c] Let_def peek_def split: if_splits)
  qed
qed

lemma parse_line_ok_progress:
  "parse_line c = Inr (LINE_OK, c') \<Longrightarrow>
     m_checked_index c < m_checked_index c' \<and> m_checked_index c' \<le> m_read_idx c"
proof (induction c rule: parse_line.induct)
  case (1 c)
  note IH = 1(1) and prem = 1(2)
  let ?i = "m_checked_index c" and ?b = "m_read_buf c"
  show ?case
  proof (cases "?i < m_read_idx c \<and> ?i < READ_BUFFER_SIZE \<and> ?b ?i \<noteq> CR \<and> ?b ?i \<noteq> LF")
    case True
    with prem have "parse_line (c\<lparr>m_checked_index := Suc ?i\<rparr>) = Inr (LINE_OK, c')"
      by (simp add: parse_line.simps [of c] Let_def peek_def)
    with True IH show ?thesis by (fastforce simp: peek_def)
  next
    case False
    with prem show ?thesis
      by (auto simp: parse_line.simps [of c] Let_def peek_def split: if_splits)
  qed
qed

text \<open>
  The parsers and \<open>do_request\<close> leave the positions of the line scanner, the socket and the
  response half of the connection alone.
\<close>

definition parse_frame :: "http_conn \<Rightarrow> http_conn \<Rightarrow> bool" where
  "parse_frame c c' \<longleftrightarrow>
     m_sockfd c' = m_sockfd c \<and> m_address c' = m_address c \<and> m_read_idx c' = m_read_idx c \<and>
     m_checked_index c' = m_checked_index c \<and> m_start_line c' = m_start_line c \<and>
     m_write_buf c' = m_write_buf c \<and> m_write_idx c' = m_write_idx c \<and>
     m_iv c' = m_iv c \<and> m_iv_count c' = m_iv_count c"

lemma parse_frame_simps [frame_simps]:
  "parse_frame c c' \<Longrightarrow> m_sockfd c' = m_sockfd c"
  "parse_frame c c' \<Longrightarrow> m_read_idx c' = m_read_idx c"
  "parse_frame c c' \<Longrightarrow> m_checked_index c' = m_checked_index c"
  "parse_frame c c' \<Longrightarrow> m_start_line c' = m_start_line c"
  "parse_frame c c' \<Longrightarrow> m_write_buf c' = m_write_buf c"
  "parse_frame c c' \<Longrightarrow> m_write_idx c' = m_write_idx c"
  by (simp_all add: parse_frame_def)

lemma parse_request_line_wlp:
  "wlp (\<lambda>(r, c'). parse_frame c c' \<and> m_real_file c' = m_real_file c \<and> m_linger c' = m_linger c \<and>
          m_content_length c' = m_content_length c) (parse_request_line text c)"
  by (simp add: parse_request_line_def parse_frame_def Let_def split: option.split)

lemma parse_request_line_frame:
  "parse_request_line text c = Inr (r, c') \<Longrightarrow>
     parse_frame c c' \<and> m_real_file c' = m_real_file c \<and> m_linger c' = m_linger c \<and>
     m_content_length c' = m_content_length c"
  using parse_request_line_wlp [of c] by (auto simp: wlp_iff)

lemma parse_headers_wlp:
  "wlp (\<lambda>(r, c'). parse_frame c c' \<and> m_read_buf c' = m_read_buf c \<and> m_url c' = m_url c \<and>
          m_real_file c' = m_real_file c) (parse_headers text c)"
  by (simp add: parse_headers_def parse_frame_def Let_def)

lemma parse_headers_frame:
  "parse_headers text c = Inr (r, c') \<Longrightarrow>
     parse_frame c c' \<and> m_read_buf c' = m_read_buf c \<and> m_url c' = m_url c \<and>
     m_real_file c' = m_real_file c"
  using parse_headers_wlp [of c] by (auto simp: wlp_iff)

lemma parse_content_frame:
  "parse_content text c = Inr (r, c') \<Longrightarrow>
     parse_frame c c' \<and> m_url c' = m_url c \<and> m_check_state c' = m_check_state c \<and>
     m_content_length c' = m_content_length c \<and> m_real_file c' = m_real_file c"
  by (auto simp: parse_frame_def parse_content_def bindr_eq_Inr Let_def split: if_splits)

lemma parse_content_wait:
  "parse_content text c = Inr (r, c') \<Longrightarrow> r \<noteq> GET_REQUEST \<Longrightarrow> r = NO_REQUEST \<and> c' = c"
  by (auto simp: parse_content_def bindr_eq_Inr Let_def split: if_splits)

lemma do_request_frame:
  "do_request fs c = Inr (r, c') \<Longrightarrow>
     parse_frame c c' \<and> m_read_buf c' = m_read_buf c \<and> m_url c' = m_url c \<and> m_linger c' = m_linger c \<and>
     m_check_state c' = m_check_state c"
  by (auto simp: parse_frame_def do_request_def bindr_eq_Inr Let_def split: option.splits if_splits)

text \<open>
  What makes the loop end: an iteration that continues has consumed input, or is the one
  iteration that looks at the body before \<open>parse_line\<close> is called again.
\<close>

definition read_measure :: "LINE_STATUS \<Rightarrow> http_conn \<Rightarrow> nat" where
  "read_measure ls c =
     2 * (m_read_idx c - m_checked_index c)
     + (if m_check_state c = CHECK_STATE_CONTENT \<and> ls = LINE_OK then 1 else 0)"

lemma parse_line_preserves [frame_simps]:
  assumes "parse_line c = Inr (st, c')"
  shows "m_read_idx c' = m_read_idx c" and "m_check_state c' = m_check_state c"
    and "m_start_line c' = m_start_line c" and "m_content_length c' = m_content_length c"
    and "m_url c' = m_url c"
  by (subst parse_line_frame [OF assms, THEN conjunct1], simp)+

lemma process_read_iter_decreases:
  assumes "process_read_iter fs ls c = Inr (Continue ls' c')"
  shows "read_measure ls' c' < read_measure ls c"
proof (cases "m_check_state c = CHECK_STATE_CONTENT \<and> ls = LINE_OK")
  case True
  with assms obtain r where "ls' = LINE_OPEN" and
    "parse_content (m_start_line c) (c\<lparr>m_start_line := m_checked_index c\<rparr>) = Inr (r, c')"
    by (auto simp: process_read_iter_def bindr_eq_Inr Let_def split: if_splits)
  moreover from this(2) have "m_read_idx c' = m_read_idx c" "m_checked_index c' = m_checked_index c"
    by (auto dest!: parse_content_frame simp: parse_frame_def)
  ultimately show ?thesis using True by (simp add: read_measure_def)
next
  case False
  with assms obtain c1 where pl: "parse_line c = Inr (LINE_OK, c1)"
    and rest: "m_read_idx c' = m_read_idx c1" "m_checked_index c' = m_checked_index c1"
    by (auto simp: process_read_iter_def bindr_eq_Inr Let_def
        split: if_splits prod.splits CHECK_STATE.splits
        dest!: parse_request_line_frame parse_headers_frame parse_content_frame
        simp: parse_frame_def)
  with parse_line_ok_progress [OF pl] parse_line_preserves [OF pl] show ?thesis
    by (simp add: read_measure_def) linarith
qed

function process_read_loop ::
  "filesys \<Rightarrow> LINE_STATUS \<Rightarrow> http_conn \<Rightarrow> (HTTP_CODE \<times> http_conn) res" where
  "process_read_loop fs ls c =
     bindr (process_read_iter fs ls c) (\<lambda>r.
     case r of Continue ls' c' \<Rightarrow> process_read_loop fs ls' c' | Return code c' \<Rightarrow> Inr (code, c'))"
  by pat_completeness auto
termination
  by (relation "measure (\<lambda>(fs, ls, c). read_measure ls c)") (auto dest: process_read_iter_decreases)

declare process_read_loop.simps [simp del]

definition process_read :: "filesys \<Rightarrow> http_conn \<Rightarrow> (HTTP_CODE \<times> http_conn) res" where
  "process_read fs c = process_read_loop fs LINE_OK c"

end
