(* ===== verification/Http_Parse_Safety.thy ===== *)
theory Http_Parse_Safety
  imports Http_Parse
begin

text \<open>
  Memory safety of the request parser. \<open>conn_inv\<close> is what the code keeps true between the
  positions of a connection and the contents of its read buffer; every parser keeps it and
  stays inside the buffer, with one exception that the last section makes precise: a body
  length taken from the request.
\<close>

section \<open>The invariant\<close>

definition terminated_before :: "cbuf \<Rightarrow> nat \<Rightarrow> nat \<Rightarrow> bool" where
  "terminated_before b i k \<longleftrightarrow> (\<exists>j. i \<le> j \<and> j < k \<and> b j = NUL)"

definition conn_inv :: "http_conn \<Rightarrow> bool" where
  "conn_inv c \<longleftrightarrow>
     m_start_line c \<le> m_checked_index c \<and> m_checked_index c \<le> m_read_idx c \<and>
     m_read_idx c \<le> READ_BUFFER_SIZE \<and>
     (\<forall>i. m_read_idx c \<le> i \<and> i < READ_BUFFER_SIZE \<longrightarrow> m_read_buf c i = NUL) \<and>
     (m_check_state c \<noteq> CHECK_STATE_REQUESTLINE \<longrightarrow>
        (\<exists>u. m_url c = Some u \<and> terminated_before (m_read_buf c) u (m_start_line c))) \<and>
     m_real_file c (FILENAME_LEN - 1) = NUL"

lemma terminated_cstr:
  assumes "terminated_before b i k" and "k \<le> n"
  obtains s where "cstr_at b i s" and "i + length s < k"
proof -
  from assms obtain j where "i \<le> j" "j < k" "b j = NUL" by (auto simp: terminated_before_def)
  with cstr_at_exists [of i j b] show thesis by (metis le_less_trans that)
qed

lemma terminated_before_upd:
  "terminated_before b i k \<Longrightarrow> terminated_before (b(j := NUL)) i k"
  by (auto simp: terminated_before_def)

lemma terminated_before_mono:
  "terminated_before b i k \<Longrightarrow> k \<le> k' \<Longrightarrow> terminated_before b i k'"
  by (auto simp: terminated_before_def)

section \<open>Each parser stays inside the buffer\<close>

lemma parse_line_wp:
  assumes "m_read_idx c \<le> READ_BUFFER_SIZE"
  shows "wp (\<lambda>(st, c'). m_checked_index c \<le> m_checked_index c' \<and>
           (m_checked_index c \<le> m_read_idx c \<longrightarrow> m_checked_index c' \<le> m_read_idx c) \<and>
           (\<forall>i. m_read_buf c i = NUL \<longrightarrow> m_read_buf c' i = NUL) \<and>
           (\<forall>i. m_checked_index c' \<le> i \<longrightarrow> m_read_buf c' i = m_read_buf c i) \<and>
           (st = LINE_OK \<longrightarrow> m_checked_index c < m_checked_index c' \<and>
              m_read_buf c' (m_checked_index c' - 1) = NUL)) (parse_line c)"
  using assms
proof (induction c rule: parse_line.induct)
  case (1 c)
  note IH = 1(1) and sz = 1(2)
  let ?i = "m_checked_index c" and ?b = "m_read_buf c"
  show ?case
  proof (cases "?i < m_read_idx c \<and> ?b ?i \<noteq> CR \<and> ?b ?i \<noteq> LF")
    case True
    with sz have eq: "parse_line c = parse_line (c\<lparr>m_checked_index := Suc ?i\<rparr>)"
      by (simp add: parse_line.simps [of c] Let_def peek_def)
    from True sz have "?i < READ_BUFFER_SIZE" by simp
    with True sz IH [of ?i ?b "?b ?i"] show ?thesis
      unfolding eq by (auto simp: peek_def elim!: wp_mono)
  next
    case False
    with sz show ?thesis
      by (auto simp: parse_line.simps [of c] Let_def peek_def)
  qed
qed

lemma conn_inv_parse_line:
  assumes inv: "conn_inv c"
  shows "wp (\<lambda>(st, c'). conn_inv c' \<and> m_read_idx c' = m_read_idx c \<and>
           (st = LINE_OK \<longrightarrow> terminated_before (m_read_buf c') (m_start_line c') (m_checked_index c')))
         (parse_line c)"
proof -
  have "m_read_idx c \<le> READ_BUFFER_SIZE" using inv by (simp add: conn_inv_def)
  from parse_line_wp [OF this] obtain st c' where pl: "parse_line c = Inr (st, c')"
    and le: "m_checked_index c \<le> m_checked_index c'" "m_checked_index c' \<le> m_read_idx c"
    and nul: "\<And>i. m_read_buf c i = NUL \<Longrightarrow> m_read_buf c' i = NUL"
    and same: "\<And>i. m_checked_index c' \<le> i \<Longrightarrow> m_read_buf c' i = m_read_buf c i"
    and ok: "st = LINE_OK \<Longrightarrow> m_checked_index c < m_checked_index c' \<and>
              m_read_buf c' (m_checked_index c' - 1) = NUL"
    using inv by (auto simp: wp_iff conn_inv_def)
  note fr = parse_line_frame [OF pl, THEN conjunct1]
  have keep: "m_start_line c' = m_start_line c" "m_read_idx c' = m_read_idx c"
    "m_check_state c' = m_check_state c" "m_url c' = m_url c" "m_real_file c' = m_real_file c"
    by (subst fr, simp)+
  have "terminated_before (m_read_buf c') (m_start_line c') (m_checked_index c')" if "st = LINE_OK"
  proof -
    have "m_start_line c' \<le> m_checked_index c' - 1" "m_checked_index c' - 1 < m_checked_index c'"
      using ok [OF that] inv keep by (auto simp: conn_inv_def)
    with ok [OF that] show ?thesis by (auto simp: terminated_before_def)
  qed
  moreover have "conn_inv c'"
    using inv keep le nul same by (auto simp: conn_inv_def terminated_before_def)
  ultimately show ?thesis by (simp add: pl keep)
qed

text \<open>
  What the request line means, as a function of the line alone: the path to serve, or nothing
  for a line that is refused.
\<close>

definition split_blank :: "string \<Rightarrow> (string \<times> string) option" where
  "split_blank s = map_option (\<lambda>k. (take k s, drop (Suc k) s)) (find_in [SP, TAB] s)"

definition url_path :: "string \<Rightarrow> string option" where
  "url_path u =
     (if ci_prefix ''http://'' u
      then map_option (\<lambda>k. drop k (drop 7 u)) (find_in [CHR ''/''] (drop 7 u))
      else Some u)"

definition request_path :: "string \<Rightarrow> string option" where
  "request_path s =
     (case split_blank s of
        None \<Rightarrow> None
      | Some (method, rest) \<Rightarrow>
          if \<not> ci_eq method ''GET'' then None
          else (case split_blank rest of
                  None \<Rightarrow> None
                | Some (url, version) \<Rightarrow>
                    if \<not> ci_eq version ''HTTP/1.1'' then None
                    else (case url_path url of
                            None \<Rightarrow> None
                          | Some p \<Rightarrow> if p \<noteq> [] \<and> hd p = CHR ''/'' then Some p else None)))"

lemma find_in_SomeD: "find_in a s = Some k \<Longrightarrow> k < length s \<and> s ! k \<in> set a"
proof -
  assume h: "find_in a s = Some k"
  then have k: "k = length (takeWhile (\<lambda>c. c \<notin> set a) s)" and "k < length s"
    by (auto simp: find_in_def Let_def split: if_splits)
  then show ?thesis using nth_length_takeWhile [of "\<lambda>c. c \<notin> set a" s] by simp
qed

text \<open>Storing a NUL inside a string cuts it in two.\<close>

lemma cstr_at_cut_left:
  assumes "cstr_at b i s" and "k < length s"
  shows "cstr_at (b(i + k := NUL)) i (take k s)"
  using assms by (auto simp: cstr_at_def dest: in_set_takeD)

lemma cstr_at_cut_right:
  assumes "cstr_at b i s" and "k < length s"
  shows "cstr_at (b(i + k := NUL)) (Suc (i + k)) (drop (Suc k) s)"
proof -
  have "cstr_at b (i + Suc k) (drop (Suc k) s)" using assms by (intro cstr_at_drop) auto
  then show ?thesis by (simp add: cstr_at_def)
qed

lemma cstr_at_upd_outside:
  "j < i \<Longrightarrow> cstr_at (b(j := c)) i s \<longleftrightarrow> cstr_at b i s"
  by (rule cstr_at_cong) auto

lemma cstr_at_upd_beyond:
  "i + length s < j \<Longrightarrow> cstr_at (b(j := c)) i s \<longleftrightarrow> cstr_at b i s"
  by (rule cstr_at_cong) auto

lemma url_part:
  assumes u: "cstr_at b i u" and n: "i + length u < n"
  obtains abs w where "strncasecmp_eq n b i ''http://'' = Inr abs"
    and "(if abs then strchr n b (i + 7) (CHR ''/'') else Inr (Some i)) = Inr w"
    and "case url_path u of
           None \<Rightarrow> w = None
         | Some p \<Rightarrow> \<exists>k. w = Some k \<and> i \<le> k \<and> k + length p = i + length u \<and> cstr_at b k p"
proof (cases "ci_prefix ''http://'' u")
  case True
  then have 7: "7 \<le> length u" by (simp add: ci_prefix_def)
  then have d: "cstr_at b (i + 7) (drop 7 u)" using u by (rule cstr_at_drop [rotated])
  have eq: "strchr n b (i + 7) (CHR ''/'') = Inr (map_option ((+) (i + 7)) (find_in [CHR ''/''] (drop 7 u)))"
    using n 7 d by (intro strchr_cstr) auto
  have pre: "strncasecmp_eq n b i ''http://'' = Inr True"
    using strncasecmp_eq_cstr [OF u n] True by simp
  show thesis
  proof (cases "find_in [CHR ''/''] (drop 7 u)")
    case None
    with eq pre True show thesis by (intro that [of True None]) (simp_all add: url_path_def)
  next
    case (Some k)
    then have "k < length (drop 7 u)" by (auto dest: find_in_SomeD)
    with cstr_at_drop [OF d, of k] 7 Some eq pre True show thesis
      by (intro that [of True "Some (i + 7 + k)"]) (simp_all add: url_path_def)
  qed
next
  case False
  with u n show thesis by (intro that [of False "Some i"]) (simp_all add: cstr_simps url_path_def)
qed

text \<open>
  \<open>parse_request_line\<close> on a terminated line: it never leaves the buffer, refuses exactly the
  lines that have no path, and otherwise leaves \<open>m_url\<close> pointing at the path.
\<close>

definition request_line_post :: "nat \<Rightarrow> string \<Rightarrow> http_conn \<Rightarrow> HTTP_CODE \<times> http_conn \<Rightarrow> bool" where
  "request_line_post t s c = (\<lambda>(ret, c').
     (case request_path s of
        None \<Rightarrow> ret = BAD_REQUEST \<and> m_check_state c' = m_check_state c
      | Some p \<Rightarrow> ret = NO_REQUEST \<and> m_check_state c' = CHECK_STATE_HEADER \<and>
          (\<exists>k. m_url c' = Some k \<and> t \<le> k \<and> k + length p < t + length s \<and>
               cstr_at (m_read_buf c') k p)) \<and>
     (\<forall>i. m_read_buf c i = NUL \<longrightarrow> m_read_buf c' i = NUL) \<and>
     (\<forall>i. i < t \<or> t + length s \<le> i \<longrightarrow> m_read_buf c' i = m_read_buf c i))"

text \<open>The part after both blanks are found, at \<open>t + k\<close> and \<open>t + k + 1 + l\<close>.\<close>

lemma parse_request_line_split:
  assumes s: "cstr_at (m_read_buf c) t s" and n: "t + length s < READ_BUFFER_SIZE"
    and first: "find_in [SP, TAB] s = Some k" and second: "find_in [SP, TAB] (drop (Suc k) s) = Some l"
  defines "b2 \<equiv> (m_read_buf c)(t + k := NUL, Suc (t + k + l) := NUL)"
    and "u \<equiv> take l (drop (Suc k) s)" and "v \<equiv> drop (Suc l) (drop (Suc k) s)"
  shows "strpbrk READ_BUFFER_SIZE (m_read_buf c) t [SP, TAB] = Inr (Some (t + k))"
    and "strcasecmp_eq READ_BUFFER_SIZE ((m_read_buf c)(t + k := NUL)) t ''GET'' = Inr (ci_eq (take k s) ''GET'')"
    and "strpbrk READ_BUFFER_SIZE ((m_read_buf c)(t + k := NUL)) (Suc (t + k)) [SP, TAB] = Inr (Some (Suc (t + k + l)))"
    and "strcasecmp_eq READ_BUFFER_SIZE b2 (Suc (Suc (t + k + l))) ''HTTP/1.1'' = Inr (ci_eq v ''HTTP/1.1'')"
    and "cstr_at b2 (Suc (t + k)) u" and "Suc (t + k) + length u < READ_BUFFER_SIZE"
    and "length u = l" and "Suc (k + l) < length s"
proof -
  let ?b1 = "(m_read_buf c)(t + k := NUL)" and ?r = "drop (Suc k) s"
  have k: "k < length s" and l: "l < length ?r"
    using find_in_SomeD [OF first] find_in_SomeD [OF second] by simp_all
  have m: "cstr_at ?b1 t (take k s)" and r: "cstr_at ?b1 (Suc (t + k)) ?r"
    using s k by (simp_all add: cstr_at_cut_left cstr_at_cut_right)
  have rn: "Suc (t + k) + length ?r < READ_BUFFER_SIZE" and mn: "t + length (take k s) < READ_BUFFER_SIZE"
    using n k by auto
  show "strpbrk READ_BUFFER_SIZE (m_read_buf c) t [SP, TAB] = Inr (Some (t + k))"
    "strcasecmp_eq READ_BUFFER_SIZE ?b1 t ''GET'' = Inr (ci_eq (take k s) ''GET'')"
    "strpbrk READ_BUFFER_SIZE ?b1 (Suc (t + k)) [SP, TAB] = Inr (Some (Suc (t + k + l)))"
    using strpbrk_cstr [OF s n, of "[SP, TAB]"] first second strcasecmp_eq_cstr [OF m mn]
      strpbrk_cstr [OF r rn] by simp_all
  show u: "cstr_at b2 (Suc (t + k)) u" "Suc (t + k) + length u < READ_BUFFER_SIZE" "length u = l"
      "Suc (k + l) < length s"
    using cstr_at_cut_left [OF r l] l k rn by (simp_all add: b2_def u_def)
  have "cstr_at b2 (Suc (Suc (t + k + l))) v" "Suc (Suc (t + k + l)) + length v < READ_BUFFER_SIZE"
    using cstr_at_cut_right [OF r l] l rn by (simp_all add: b2_def v_def)
  then show "strcasecmp_eq READ_BUFFER_SIZE b2 (Suc (Suc (t + k + l))) ''HTTP/1.1'' = Inr (ci_eq v ''HTTP/1.1'')"
    by (simp add: cstr_simps)
qed

lemma parse_request_line_two_blanks:
  assumes s: "cstr_at (m_read_buf c) t s" and n: "t + length s < READ_BUFFER_SIZE"
    and first: "find_in [SP, TAB] s = Some k" and second: "find_in [SP, TAB] (drop (Suc k) s) = Some l"
  shows "wp (request_line_post t s c) (parse_request_line t c)"
proof -
  let ?u = "take l (drop (Suc k) s)" and ?v = "drop (Suc l) (drop (Suc k) s)"
  let ?b2 = "(m_read_buf c)(t + k := NUL, Suc (t + k + l) := NUL)"
  let ?ok = "ci_eq (take k s) ''GET'' \<and> ci_eq ?v ''HTTP/1.1''"
  note eqs = parse_request_line_split [OF assms]
  have path: "request_path s =
     (if ?ok then (case url_path ?u of None \<Rightarrow> None
        | Some p \<Rightarrow> if p \<noteq> [] \<and> hd p = CHR ''/'' then Some p else None) else None)"
    using first second by (simp add: request_path_def split_blank_def)
  have keep: "\<forall>i. i < t \<or> t + length s \<le> i \<longrightarrow> ?b2 i = m_read_buf c i" "\<forall>i. m_read_buf c i = NUL \<longrightarrow> ?b2 i = NUL"
    using eqs(8) by auto
  obtain abs w where w:
    "strncasecmp_eq READ_BUFFER_SIZE ?b2 (Suc (t + k)) ''http://'' = Inr abs"
    "(if abs then strchr READ_BUFFER_SIZE ?b2 (Suc (t + k) + 7) (CHR ''/'') else Inr (Some (Suc (t + k)))) = Inr w"
    "case url_path ?u of None \<Rightarrow> w = None
     | Some p \<Rightarrow> \<exists>k'. w = Some k' \<and> Suc (t + k) \<le> k' \<and> k' + length p = Suc (t + k) + length ?u \<and> cstr_at ?b2 k' p"
    by (rule url_part [OF eqs(5,6)])
  consider "\<not> ?ok" | "?ok" "w = None" | k' where "?ok" "w = Some k'" by fastforce
  then show ?thesis
  proof cases
    case 1
    with eqs(1-4,8) show ?thesis
      by (auto simp: parse_request_line_def request_line_post_def path Let_def)
  next
    case 2
    with eqs(1-4,8) w show ?thesis
      by (auto simp: parse_request_line_def request_line_post_def path Let_def split: option.splits)
  next
    case 3
    with w obtain p where p: "url_path ?u = Some p" "Suc (t + k) \<le> k'"
      "k' + length p = Suc (t + k) + length ?u" "cstr_at ?b2 k' p" by (auto split: option.splits)
    have pk: "peek READ_BUFFER_SIZE ?b2 k' = Inr (?b2 k')" using p eqs(6) by (simp add: peek_def)
    have hd: "?b2 k' = CHR ''/'' \<longleftrightarrow> p \<noteq> [] \<and> hd p = CHR ''/''"
      using p(4) by (cases p) (auto simp: cstr_at_Cons cstr_at_Nil)
    let ?c' = "c\<lparr>m_method := GET, m_read_buf := ?b2, m_version := Some (Suc (Suc (t + k + l))), m_url := Some k'\<rparr>"
    have "parse_request_line t c =
            Inr (if ?b2 k' = CHR ''/'' then (NO_REQUEST, ?c'\<lparr>m_check_state := CHECK_STATE_HEADER\<rparr>)
                 else (BAD_REQUEST, ?c'))"
      using 3 eqs(1-4) w(1,2) pk
      by (cases abs) (simp_all add: parse_request_line_def Let_def del: fun_upd_apply)
    with keep eqs(7,8) 3 p hd show ?thesis by (simp add: request_line_post_def path del: fun_upd_apply)
  qed
qed

lemma parse_request_line_correct:
  assumes s: "cstr_at (m_read_buf c) t s" and n: "t + length s < READ_BUFFER_SIZE"
  shows "wp (request_line_post t s c) (parse_request_line t c)"
proof (cases "find_in [SP, TAB] s")
  case None
  with s n show ?thesis
    by (simp add: parse_request_line_def cstr_simps request_line_post_def request_path_def
        split_blank_def)
next
  case (Some k)
  let ?b1 = "(m_read_buf c)(t + k := NUL)" and ?r = "drop (Suc k) s"
  have k: "k < length s" using find_in_SomeD [OF Some] by simp
  have "cstr_at ?b1 t (take k s)" and "cstr_at ?b1 (Suc (t + k)) ?r"
    using s k by (simp_all add: cstr_at_cut_left cstr_at_cut_right)
  with n k have eqs: "strcasecmp_eq READ_BUFFER_SIZE ?b1 t ''GET'' = Inr (ci_eq (take k s) ''GET'')"
    "strpbrk READ_BUFFER_SIZE ?b1 (Suc (t + k)) [SP, TAB] =
       Inr (map_option ((+) (Suc (t + k))) (find_in [SP, TAB] ?r))"
    by (simp_all add: cstr_simps)
  show ?thesis
  proof (cases "find_in [SP, TAB] ?r")
    case None
    with Some s n eqs k show ?thesis
      by (simp add: cstr_simps parse_request_line_def request_line_post_def request_path_def
          split_blank_def Let_def)
  next
    case (Some l)
    with \<open>find_in [SP, TAB] s = Some k\<close> s n show ?thesis by (intro parse_request_line_two_blanks)
  qed
qed

text \<open>What a header line means, as a function of the line alone.\<close>

datatype header =
    End_Of_Headers
  | Connection_Header bool  \<comment> \<open>keep-alive or not\<close>
  | Content_Length int
  | Host string
  | Other_Header

definition skip_blank :: "string \<Rightarrow> string" where
  "skip_blank = dropWhile (\<lambda>c. c \<in> set [SP, TAB])"

definition header_of :: "string \<Rightarrow> header" where
  "header_of s =
     (if s = [] then End_Of_Headers
      else if ci_prefix ''Connection:'' s
        then Connection_Header (ci_eq (skip_blank (drop 11 s)) ''keep-alive'')
      else if ci_prefix ''Content-Length:'' s
        then Content_Length (to_int32 (atol_value (skip_blank (drop 15 s))))
      else if ci_prefix ''Host:'' s then Host (skip_blank (drop 5 s))
      else Other_Header)"

definition header_effect :: "nat \<Rightarrow> string \<Rightarrow> http_conn \<Rightarrow> HTTP_CODE \<times> http_conn" where
  "header_effect t s c =
     (case header_of s of
        End_Of_Headers \<Rightarrow>
          (if m_content_length c \<noteq> 0 then (NO_REQUEST, c\<lparr>m_check_state := CHECK_STATE_CONTENT\<rparr>)
           else (GET_REQUEST, c))
      | Connection_Header ka \<Rightarrow> (NO_REQUEST, if ka then c\<lparr>m_linger := True\<rparr> else c)
      | Content_Length v \<Rightarrow> (NO_REQUEST, c\<lparr>m_content_length := v\<rparr>)
      | Host h \<Rightarrow> (NO_REQUEST, c\<lparr>m_host := Some (t + length s - length h)\<rparr>)
      | Other_Header \<Rightarrow> (NO_REQUEST, c))"

lemma skip_blank_length: "length (takeWhile (\<lambda>c. c \<in> set [SP, TAB]) s) + length (skip_blank s) = length s"
  by (metis length_append skip_blank_def takeWhile_dropWhile_id)

lemma header_value:
  assumes s: "cstr_at b t s" and k: "k \<le> length s" and n: "t + length s < n"
  shows "strspn n b (t + k) [SP, TAB] = Inr (length s - k - length (skip_blank (drop k s)))"
    and "cstr_at b (t + length s - length (skip_blank (drop k s))) (skip_blank (drop k s))"
proof -
  let ?d = "drop k s" and ?w = "takeWhile (\<lambda>c. c \<in> set [SP, TAB]) (drop k s)"
  have d: "cstr_at b (t + k) ?d" using s k by (rule cstr_at_drop)
  have w: "length ?w + length (skip_blank ?d) = length s - k" using skip_blank_length [of ?d] by simp
  then have lw: "length ?w = length s - k - length (skip_blank ?d)" by simp
  show "strspn n b (t + k) [SP, TAB] = Inr (length s - k - length (skip_blank ?d))"
    unfolding lw [symmetric] using strspn_cstr [OF d, of n "[SP, TAB]"] n k by simp
  have "cstr_at b (t + k + length ?w) (skip_blank ?d)"
    using cstr_at_append [of b "t + k" ?w "skip_blank ?d"] d by (simp add: skip_blank_def)
  moreover have "t + k + length ?w = t + length s - length (skip_blank ?d)" using w k by simp
  ultimately show "cstr_at b (t + length s - length (skip_blank ?d)) (skip_blank ?d)" by simp
qed

lemma header_pos: "k \<le> length s \<Longrightarrow> t + k + (length s - k - length (skip_blank (drop k s)))
    = t + length s - length (skip_blank (drop k s))"
  using skip_blank_length [of "drop k s"] by simp

text \<open>\<open>parse_headers\<close> has exactly the effect its line means.\<close>

lemma parse_headers_correct:
  assumes s: "cstr_at (m_read_buf c) t s" and n: "t + length s < READ_BUFFER_SIZE"
  shows "parse_headers t c = Inr (header_effect t s c)"
proof -
  let ?b = "m_read_buf c" and ?n = READ_BUFFER_SIZE
  have first: "peek ?n ?b t = Inr (?b t)" "?b t = NUL \<longleftrightarrow> s = []"
    using s n by (simp add: peek_def, cases s) (auto simp: cstr_at_Cons cstr_at_Nil)
  note pre = strncasecmp_eq_cstr [OF s n]
  have val: "strspn ?n ?b (t + k) [SP, TAB] = Inr (length s - k - length (skip_blank (drop k s)))"
    "strcasecmp_eq ?n ?b (t + k + (length s - k - length (skip_blank (drop k s)))) ''keep-alive''
       = Inr (ci_eq (skip_blank (drop k s)) ''keep-alive'')"
    "atol ?n ?b (t + k + (length s - k - length (skip_blank (drop k s)))) = Inr (atol_value (skip_blank (drop k s)))"
    if "k \<le> length s" for k
  proof -
    let ?p = "t + length s - length (skip_blank (drop k s))"
    have "?p + length (skip_blank (drop k s)) < ?n"
      using n skip_blank_length [of "drop k s"] that by simp
    with header_value [OF s that n] header_pos [OF that, of t] show
      "strspn ?n ?b (t + k) [SP, TAB] = Inr (length s - k - length (skip_blank (drop k s)))"
      "strcasecmp_eq ?n ?b (t + k + (length s - k - length (skip_blank (drop k s)))) ''keep-alive''
         = Inr (ci_eq (skip_blank (drop k s)) ''keep-alive'')"
      "atol ?n ?b (t + k + (length s - k - length (skip_blank (drop k s)))) = Inr (atol_value (skip_blank (drop k s)))"
      by (simp_all add: cstr_simps)
  qed
  have len: "ci_prefix l s \<Longrightarrow> length l \<le> length s" for l by (simp add: ci_prefix_def)
  note defs = parse_headers_def header_effect_def header_of_def Let_def
  consider "s = []" | "s \<noteq> []" "ci_prefix ''Connection:'' s"
    | "s \<noteq> []" "\<not> ci_prefix ''Connection:'' s" "ci_prefix ''Content-Length:'' s"
    | "s \<noteq> []" "\<not> ci_prefix ''Connection:'' s" "\<not> ci_prefix ''Content-Length:'' s" "ci_prefix ''Host:'' s"
    | "s \<noteq> []" "\<not> ci_prefix ''Connection:'' s" "\<not> ci_prefix ''Content-Length:'' s" "\<not> ci_prefix ''Host:'' s"
    by blast
  then show ?thesis
  proof cases
    case 1
    with first show ?thesis by (simp add: defs)
  next
    case 2
    with first pre val [of 11] len [of "''Connection:''"] show ?thesis by (simp add: defs)
  next
    case 3
    with first pre val [of 15] len [of "''Content-Length:''"] show ?thesis by (simp add: defs)
  next
    case 4
    with first pre val [of 5] len [of "''Host:''"] header_pos [of 5 s t] show ?thesis by (simp add: defs)
  next
    case 5
    with first pre strlen_at_cstr [OF s n] show ?thesis by (simp add: defs)
  qed
qed

section \<open>The file a request is mapped to\<close>

text \<open>The path is the document root and the URL, cut to what fits \<open>m_real_file\<close>.\<close>

definition file_path :: "string \<Rightarrow> string" where
  "file_path url = doc_root @ take (FILENAME_LEN - length doc_root - 1) url"

definition request_code :: "filesys \<Rightarrow> string \<Rightarrow> HTTP_CODE" where
  "request_code fs url =
     (case fs_stat fs (file_path url) of
        None \<Rightarrow> NO_RESOURCE
      | Some st \<Rightarrow>
          if st_mode st AND S_IROTH = 0 then FORBIDDEN_REQUEST
          else if S_ISDIR (st_mode st) then BAD_REQUEST
          else FILE_REQUEST)"

lemma length_doc_root [simp]: "length doc_root = 11" and doc_root_nonul [simp]: "NUL \<notin> set doc_root"
  by (simp_all add: doc_root_def)

lemma strncpy_src_cstr:
  assumes "cstr_at b i s" and "i + length s < n"
  shows "strncpy_src n b i k = Inr (take k s @ replicate (k - length s) NUL)"
  using assms
proof (induction k arbitrary: i s)
  case 0
  then show ?case by simp
next
  case (Suc k)
  show ?case
  proof (cases s)
    case Nil
    with Suc.prems show ?thesis by (simp add: cstr_at_Nil peek_def)
  next
    case (Cons c r)
    with Suc.prems Suc.IH [of "Suc i" r] show ?thesis by (auto simp: cstr_at_Cons peek_def)
  qed
qed

lemma real_file_cstr:
  assumes "NUL \<notin> set p" and "b (FILENAME_LEN - 1) = NUL"
  defines "k \<equiv> FILENAME_LEN - length doc_root - 1"
  defines "f \<equiv> blit (blit b 0 (doc_root @ [NUL])) (length doc_root) (take k p @ replicate (k - length p) NUL)"
  shows "cstr_at f 0 (file_path p)" and "f (FILENAME_LEN - 1) = NUL"
proof -
  have k: "k = 188" by (simp add: k_def)
  have len: "length (take k p @ replicate (k - length p) NUL) = 188" by (simp add: k)
  show last: "f (FILENAME_LEN - 1) = NUL" using assms(2) len by (simp add: f_def blit_def)
  have root: "f i = doc_root ! i" if "i < 11" for i
    using that by (simp add: f_def blit_def nth_append)
  have url: "f (11 + i) = (take k p @ replicate (k - length p) NUL) ! i" if "i < 188" for i
    using that blit_inside [of i "take k p @ replicate (k - length p) NUL" _ 11] len by (simp add: f_def)
  have "cstr_at f 11 (take k p)"
    unfolding cstr_at_def
  proof (intro conjI allI impI)
    show "f (11 + i) = take k p ! i" if "i < length (take k p)" for i
      using that url [of i] by (simp add: k nth_append)
    show "NUL \<notin> set (take k p)" using assms(1) by (auto dest: in_set_takeD)
    show "f (11 + length (take k p)) = NUL"
      using url [of "length p"] last by (cases "length p < 188") (auto simp: k nth_append min_def)
  qed
  with root show "cstr_at f 0 (file_path p)" by (simp add: file_path_def cstr_at_append k)
qed

text \<open>\<open>do_request\<close>: the file at \<open>file_path\<close> decides the answer, and the path is a C string.\<close>

definition do_request_post :: "filesys \<Rightarrow> string \<Rightarrow> HTTP_CODE \<times> http_conn \<Rightarrow> bool" where
  "do_request_post fs p = (\<lambda>(ret, c').
     ret = request_code fs p \<and> cstr_at (m_real_file c') 0 (file_path p) \<and>
     m_real_file c' (FILENAME_LEN - 1) = NUL \<and>
     (ret = FILE_REQUEST \<longrightarrow> fs_stat fs (file_path p) = Some (m_file_stat c') \<and>
        m_file_address c' = fs_mmap fs (file_path p) (st_size (m_file_stat c'))))"

lemma do_request_correct:
  assumes u: "m_url c = Some u" and p: "cstr_at (m_read_buf c) u p"
    and n: "u + length p < READ_BUFFER_SIZE" and f: "m_real_file c (FILENAME_LEN - 1) = NUL"
  shows "wp (do_request_post fs p) (do_request fs c)"
proof -
  let ?k = "FILENAME_LEN - length doc_root - 1"
  let ?f = "blit (blit (m_real_file c) 0 (doc_root @ [NUL])) (length doc_root)
              (take ?k p @ replicate (?k - length p) NUL)"
  have "NUL \<notin> set p" using p by (simp add: cstr_at_def)
  from real_file_cstr [OF this, of "m_real_file c"] f have F: "cstr_at ?f 0 (file_path p)" "?f (FILENAME_LEN - 1) = NUL"
    by simp_all
  have len: "0 + length (file_path p) < FILENAME_LEN" by (simp add: file_path_def)
  have "strlen_at FILENAME_LEN ?f 0 = Inr (length (file_path p))"
    using strlen_at_cstr [OF F(1) len] .
  moreover have "slice ?f 0 (length (file_path p)) = file_path p"
    using slice_cstr [OF F(1), of "length (file_path p)"] by simp
  ultimately show ?thesis
    using u F strncpy_src_cstr [OF p n, of ?k]
    by (auto simp: do_request_def do_request_post_def request_code_def Let_def split: option.split)
qed

section \<open>The main loop\<close>

text \<open>
  The body length is the one thing the invariant does not bound: it is whatever number the
  client sent. \<open>length_ok\<close> is the range in which \<open>parse_content\<close> computes with it safely.
\<close>

definition length_ok :: "http_conn \<Rightarrow> bool" where
  "length_ok c \<longleftrightarrow> 0 \<le> m_content_length c \<and> m_content_length c \<le> INT_MAX - int READ_BUFFER_SIZE"

text \<open>What the branch for a body needs besides: a byte behind the received ones, which is NUL.\<close>

definition body_ok :: "http_conn \<Rightarrow> bool" where
  "body_ok c \<longleftrightarrow> length_ok c \<and> m_read_idx c < READ_BUFFER_SIZE"

lemma conn_inv_do_request:
  assumes inv: "conn_inv c" and st: "m_check_state c \<noteq> CHECK_STATE_REQUESTLINE"
  shows "wp (\<lambda>(ret, c'). conn_inv c' \<and> m_read_idx c' = m_read_idx c) (do_request fs c)"
proof -
  from inv st obtain u where u: "m_url c = Some u"
    and tb: "terminated_before (m_read_buf c) u (m_start_line c)" and f: "m_real_file c (FILENAME_LEN - 1) = NUL"
    and sz: "m_start_line c \<le> READ_BUFFER_SIZE" by (auto simp: conn_inv_def)
  from terminated_cstr [OF tb sz] obtain p where p: "cstr_at (m_read_buf c) u p" "u + length p < READ_BUFFER_SIZE"
    using sz by (metis order_less_le_trans)
  from do_request_correct [OF u p f, of fs] obtain ret c' where "do_request fs c = Inr (ret, c')"
    and "m_real_file c' (FILENAME_LEN - 1) = NUL" by (auto simp: wp_iff do_request_post_def)
  with inv show ?thesis
    by (simp add: conn_inv_def parse_frame_def) (drule do_request_frame, simp add: parse_frame_def)
qed

lemma conn_inv_parse_request_line:
  assumes inv: "conn_inv c" and t: "terminated_before (m_read_buf c) t (m_start_line c)"
    and st: "m_check_state c = CHECK_STATE_REQUESTLINE"
  shows "wp (\<lambda>(ret, c'). conn_inv c' \<and> m_read_idx c' = m_read_idx c) (parse_request_line t c)"
proof -
  have sz: "m_start_line c \<le> READ_BUFFER_SIZE" using inv by (auto simp: conn_inv_def)
  obtain s where s: "cstr_at (m_read_buf c) t s" "t + length s < m_start_line c"
    using terminated_cstr [OF t sz] .
  with sz have "wp (request_line_post t s c) (parse_request_line t c)"
    by (intro parse_request_line_correct) auto
  then obtain ret c' where pr: "parse_request_line t c = Inr (ret, c')"
    and post: "request_line_post t s c (ret, c')" by (auto simp: wp_iff)
  from post have nul: "\<And>i. m_read_buf c i = NUL \<Longrightarrow> m_read_buf c' i = NUL"
    by (auto simp: request_line_post_def)
  have "\<exists>u. m_url c' = Some u \<and> terminated_before (m_read_buf c') u (m_start_line c)"
    if new: "m_check_state c' \<noteq> CHECK_STATE_REQUESTLINE"
  proof -
    from post st new obtain k p where k: "m_url c' = Some k" "k + length p < t + length s"
      "cstr_at (m_read_buf c') k p"
      by (auto simp: request_line_post_def split: option.splits)
    with cstr_at_end [OF k(3)] s have "terminated_before (m_read_buf c') k (m_start_line c)"
      by (auto simp: terminated_before_def intro!: exI [of _ "k + length p"])
    with k show ?thesis by blast
  qed
  with inv nul pr show ?thesis
    by (auto simp: conn_inv_def parse_frame_def dest!: parse_request_line_frame)
qed

lemma conn_inv_parse_headers:
  assumes inv: "conn_inv c" and t: "terminated_before (m_read_buf c) t (m_start_line c)"
    and st: "m_check_state c = CHECK_STATE_HEADER"
  shows "wp (\<lambda>(ret, c'). conn_inv c' \<and> m_read_idx c' = m_read_idx c \<and>
           m_check_state c' \<noteq> CHECK_STATE_REQUESTLINE) (parse_headers t c)"
proof -
  have sz: "m_start_line c \<le> READ_BUFFER_SIZE" using inv by (auto simp: conn_inv_def)
  obtain s where s: "cstr_at (m_read_buf c) t s" "t + length s < m_start_line c"
    using terminated_cstr [OF t sz] .
  with sz have "parse_headers t c = Inr (header_effect t s c)" by (intro parse_headers_correct) auto
  moreover have "m_check_state (snd (header_effect t s c)) \<noteq> CHECK_STATE_REQUESTLINE"
    using st by (simp add: header_effect_def split: header.split)
  ultimately show ?thesis
    using inv st by (cases "header_effect t s c")
      (auto simp: conn_inv_def parse_frame_def dest!: parse_headers_frame)
qed

lemma conn_inv_parse_content:
  assumes inv: "conn_inv c" and len: "length_ok c" and t: "t \<le> m_checked_index c"
    and room: "m_read_idx c < READ_BUFFER_SIZE" and st: "m_check_state c = CHECK_STATE_CONTENT"
  shows "wp (\<lambda>(ret, c'). conn_inv c' \<and> m_read_idx c' = m_read_idx c \<and>
           m_check_state c' = CHECK_STATE_CONTENT) (parse_content t c)"
proof -
  have "nat (int t + m_content_length c) < READ_BUFFER_SIZE"
    if "m_content_length c + int (m_checked_index c) \<le> int (m_read_idx c)"
    using that t room by linarith
  moreover have "INT_MIN \<le> m_content_length c + int (m_checked_index c)"
    and "m_content_length c + int (m_checked_index c) \<le> INT_MAX"
    using len inv by (auto simp: length_ok_def conn_inv_def)
  ultimately show ?thesis
    using inv len st
    by (auto simp: parse_content_def length_ok_def add_int_def poke_def Let_def conn_inv_def
        terminated_before_upd)
qed

lemma terminated_by_fill:
  "conn_inv c \<Longrightarrow> m_read_idx c < READ_BUFFER_SIZE \<Longrightarrow> i \<le> m_read_idx c \<Longrightarrow>
     \<exists>l. strlen_at READ_BUFFER_SIZE (m_read_buf c) i = Inr l"
proof -
  assume inv: "conn_inv c" and room: "m_read_idx c < READ_BUFFER_SIZE" and i: "i \<le> m_read_idx c"
  then have "m_read_buf c (m_read_idx c) = NUL" by (auto simp: conn_inv_def)
  with i room obtain s where "cstr_at (m_read_buf c) i s" "i + length s < READ_BUFFER_SIZE"
    by (metis cstr_at_exists le_less_trans)
  then show ?thesis by (auto simp: cstr_simps)
qed

text \<open>The body of the loop, once a line (or the body) is at hand.\<close>

definition dispatch :: "filesys \<Rightarrow> http_conn \<Rightarrow> iteration res" where
  "dispatch fs c =
     (let t = m_start_line c;
          c = c\<lparr>m_start_line := m_checked_index c\<rparr> in
      bindr (strlen_at READ_BUFFER_SIZE (m_read_buf c) t) (\<lambda>_.
      case m_check_state c of
        CHECK_STATE_REQUESTLINE \<Rightarrow>
          bindr (parse_request_line t c) (\<lambda>(ret, c).
          Inr (if ret = BAD_REQUEST then Return BAD_REQUEST c else Continue LINE_OK c))
      | CHECK_STATE_HEADER \<Rightarrow>
          bindr (parse_headers t c) (\<lambda>(ret, c).
          if ret = BAD_REQUEST then Inr (Return BAD_REQUEST c)
          else if ret = GET_REQUEST then
            bindr (do_request fs c) (\<lambda>(ret, c). Inr (Return ret c))
          else Inr (Continue LINE_OK c))
      | CHECK_STATE_CONTENT \<Rightarrow>
          bindr (parse_content t c) (\<lambda>(ret, c).
          if ret = GET_REQUEST then
            bindr (do_request fs c) (\<lambda>(ret, c). Inr (Return ret c))
          else Inr (Continue LINE_OPEN c))))"

lemma process_read_iter_dispatch:
  "process_read_iter fs ls c =
     (if m_check_state c = CHECK_STATE_CONTENT \<and> ls = LINE_OK then dispatch fs c
      else bindr (parse_line c) (\<lambda>(st, c').
        if st \<noteq> LINE_OK then Inr (Return NO_REQUEST c') else dispatch fs c'))"
  by (auto simp: process_read_iter_def dispatch_def Let_def intro!: bindr_cong split: prod.split)

definition iter_ok :: "nat \<Rightarrow> iteration \<Rightarrow> bool" where
  "iter_ok n r = (case r of Continue _ c \<Rightarrow> conn_inv c \<and> m_read_idx c = n
                  | Return _ c \<Rightarrow> conn_inv c \<and> m_read_idx c = n)"

lemma dispatch_safe:
  assumes inv: "conn_inv c"
    and line: "m_check_state c \<noteq> CHECK_STATE_CONTENT \<Longrightarrow>
      terminated_before (m_read_buf c) (m_start_line c) (m_checked_index c)"
    and len: "m_check_state c = CHECK_STATE_CONTENT \<Longrightarrow> body_ok c"
  shows "wp (iter_ok (m_read_idx c)) (dispatch fs c)"
proof -
  let ?c = "c\<lparr>m_start_line := m_checked_index c\<rparr>" and ?t = "m_start_line c"
  have inv': "conn_inv ?c" using inv by (auto simp: conn_inv_def elim: terminated_before_mono)
  obtain l where l: "strlen_at READ_BUFFER_SIZE (m_read_buf c) ?t = Inr l"
  proof (cases "m_check_state c = CHECK_STATE_CONTENT")
    case True
    then show thesis using terminated_by_fill [OF inv, of ?t] inv len that by (auto simp: conn_inv_def body_ok_def)
  next
    case False
    then obtain x where x: "cstr_at (m_read_buf c) ?t x" "?t + length x < m_checked_index c"
      using terminated_cstr [OF line] by blast
    have "m_checked_index c \<le> READ_BUFFER_SIZE" using inv by (simp add: conn_inv_def)
    with x show thesis using that by (auto simp: cstr_simps)
  qed
  have req: "wp (\<lambda>x. wp (iter_ok (m_read_idx c)) (case x of (ret, c) \<Rightarrow> Inr (Return ret c))) (do_request fs c')"
    if "conn_inv c'" "m_check_state c' \<noteq> CHECK_STATE_REQUESTLINE" "m_read_idx c' = m_read_idx c" for c'
    using conn_inv_do_request [OF that(1,2), of fs] that(3)
    by (auto simp: iter_ok_def elim!: wp_mono)
  show ?thesis
  proof (cases "m_check_state c")
    case CHECK_STATE_REQUESTLINE
    with line inv' have "wp (\<lambda>(ret, c'). conn_inv c' \<and> m_read_idx c' = m_read_idx ?c) (parse_request_line ?t ?c)"
      by (intro conn_inv_parse_request_line) simp_all
    with CHECK_STATE_REQUESTLINE l show ?thesis
      by (auto simp: dispatch_def Let_def iter_ok_def elim!: wp_mono)
  next
    case CHECK_STATE_HEADER
    with line inv' have "wp (\<lambda>(ret, c'). conn_inv c' \<and> m_read_idx c' = m_read_idx ?c \<and>
        m_check_state c' \<noteq> CHECK_STATE_REQUESTLINE) (parse_headers ?t ?c)"
      by (intro conn_inv_parse_headers) simp_all
    with CHECK_STATE_HEADER l show ?thesis
      by (simp add: dispatch_def Let_def del: wp_basic(3))
         (erule wp_bindI, auto intro!: req, auto simp: iter_ok_def)
  next
    case CHECK_STATE_CONTENT
    with len inv inv' have "wp (\<lambda>(ret, c'). conn_inv c' \<and> m_read_idx c' = m_read_idx ?c \<and>
        m_check_state c' = CHECK_STATE_CONTENT) (parse_content ?t ?c)"
      by (intro conn_inv_parse_content) (auto simp: body_ok_def length_ok_def conn_inv_def)
    with CHECK_STATE_CONTENT l show ?thesis
      by (simp add: dispatch_def Let_def del: wp_basic(3))
         (erule wp_bindI, auto intro!: req, auto simp: iter_ok_def)
  qed
qed

lemma process_read_iter_safe:
  assumes inv: "conn_inv c" and len: "m_check_state c = CHECK_STATE_CONTENT \<Longrightarrow> body_ok c"
  shows "wp (iter_ok (m_read_idx c)) (process_read_iter fs ls c)"
proof (cases "m_check_state c = CHECK_STATE_CONTENT \<and> ls = LINE_OK")
  case True
  with dispatch_safe [OF inv, of fs] len show ?thesis by (simp add: process_read_iter_dispatch)
next
  case False
  obtain st c' where pl: "parse_line c = Inr (st, c')" and c': "conn_inv c'" "m_read_idx c' = m_read_idx c"
    and ok: "st = LINE_OK \<Longrightarrow> terminated_before (m_read_buf c') (m_start_line c') (m_checked_index c')"
    using conn_inv_parse_line [OF inv] by (auto simp: wp_iff)
  have "body_ok c'" if "m_check_state c' = CHECK_STATE_CONTENT"
    using that len parse_line_preserves [OF pl] c'(2) by (simp add: body_ok_def length_ok_def)
  with c' ok have "wp (iter_ok (m_read_idx c)) (dispatch fs c')" if "st = LINE_OK"
    using dispatch_safe [of c' fs] that by simp
  with False pl c' show ?thesis by (auto simp: process_read_iter_dispatch iter_ok_def)
qed

text \<open>The loop as a state machine: one step per iteration that continues.\<close>

inductive read_step :: "filesys \<Rightarrow> LINE_STATUS \<times> http_conn \<Rightarrow> LINE_STATUS \<times> http_conn \<Rightarrow> bool"
  for fs where
  iter: "process_read_iter fs ls c = Inr (Continue ls' c') \<Longrightarrow> read_step fs (ls, c) (ls', c')"

inductive_cases read_stepE: "read_step fs (ls, c) (ls', c')"
inductive_simps read_step_iff: "read_step fs (ls, c) (ls', c')"

lemma process_read_loop_unfold:
  "process_read_loop fs ls c =
     (case process_read_iter fs ls c of
        Inl e \<Rightarrow> Inl e
      | Inr (Continue ls' c') \<Rightarrow> process_read_loop fs ls' c'
      | Inr (Return code c') \<Rightarrow> Inr (code, c'))"
  by (subst process_read_loop.simps) (simp add: bindr_def split: sum.split iteration.split)

text \<open>The invariant is kept whatever length the request announces, as long as there is no fault.\<close>

lemma parse_content_keeps:
  assumes "conn_inv c" and "parse_content t c = Inr (ret, c')"
  shows "conn_inv c' \<and> m_read_idx c' = m_read_idx c \<and> m_check_state c' = m_check_state c"
  using assms by (auto simp: parse_content_def bindr_eq_Inr poke_def Let_def conn_inv_def terminated_before_upd split: if_splits)

lemma dispatch_keeps:
  assumes inv: "conn_inv c"
    and line: "m_check_state c \<noteq> CHECK_STATE_CONTENT \<Longrightarrow> terminated_before (m_read_buf c) (m_start_line c) (m_checked_index c)"
    and r: "dispatch fs c = Inr r"
  shows "iter_ok (m_read_idx c) r"
proof (cases "m_check_state c = CHECK_STATE_CONTENT")
  case False
  with dispatch_safe [OF inv line, of fs] r show ?thesis by simp
next
  case True
  let ?c = "c\<lparr>m_start_line := m_checked_index c\<rparr>"
  have inv': "conn_inv ?c" using inv by (auto simp: conn_inv_def elim: terminated_before_mono)
  from r True obtain ret c1 where pc: "parse_content (m_start_line c) ?c = Inr (ret, c1)"
    and rest: "(if ret = GET_REQUEST then bindr (do_request fs c1) (\<lambda>(ret, c). Inr (Return ret c)) else Inr (Continue LINE_OPEN c1)) = Inr r"
    by (auto simp: dispatch_def Let_def bindr_eq_Inr)
  from parse_content_keeps [OF inv' pc] True have c1: "conn_inv c1" "m_read_idx c1 = m_read_idx c" "m_check_state c1 \<noteq> CHECK_STATE_REQUESTLINE"
    by simp_all
  with conn_inv_do_request [OF c1(1,3), of fs] rest show ?thesis
    by (auto simp: iter_ok_def bindr_eq_Inr split: if_splits)
qed

lemma process_read_iter_keeps:
  assumes inv: "conn_inv c" and r: "process_read_iter fs ls c = Inr r"
  shows "iter_ok (m_read_idx c) r"
proof (cases "m_check_state c = CHECK_STATE_CONTENT \<and> ls = LINE_OK")
  case True
  with dispatch_keeps [OF inv] r show ?thesis by (simp add: process_read_iter_dispatch)
next
  case False
  obtain st c' where pl: "parse_line c = Inr (st, c')" and c': "conn_inv c'" "m_read_idx c' = m_read_idx c"
    and ok: "st = LINE_OK \<Longrightarrow> terminated_before (m_read_buf c') (m_start_line c') (m_checked_index c')"
    using conn_inv_parse_line [OF inv] by (auto simp: wp_iff)
  with False r dispatch_keeps [of c' fs r] show ?thesis
    by (auto simp: process_read_iter_dispatch iter_ok_def split: if_splits)
qed

lemma process_read_loop_keeps:
  assumes "conn_inv c" and "process_read_loop fs ls c = Inr (code, c')"
  shows "conn_inv c' \<and> m_read_idx c' = m_read_idx c"
  using assms
proof (induction fs ls c rule: process_read_loop.induct)
  case (1 fs ls c)
  then obtain r where it: "process_read_iter fs ls c = Inr r" by (auto simp: process_read_loop.simps [of fs ls c] bindr_eq_Inr)
  have ok: "iter_ok (m_read_idx c) r" using process_read_iter_keeps [OF "1.prems"(1) it] .
  show ?case
  proof (cases r)
    case (Continue ls1 c1)
    with "1.IH" [OF it Continue] ok it "1.prems" show ?thesis by (simp add: iter_ok_def process_read_loop_unfold [of fs ls c])
  next
    case (Return code1 c1)
    with ok it "1.prems"(2) show ?thesis by (simp add: iter_ok_def process_read_loop_unfold [of fs ls c])
  qed
qed

lemma read_step_inv:
  assumes "read_step fs (ls, c) (ls', c')" and "conn_inv c"
  shows "conn_inv c'" and "m_read_idx c' = m_read_idx c"
  using process_read_iter_keeps [OF assms(2), of fs ls "Continue ls' c'"] assms(1) by (auto simp: read_step_iff iter_ok_def)

text \<open>A fault comes out of the branch for a body.\<close>

lemma process_read_loop_fault:
  assumes "conn_inv c" and "process_read_loop fs ls c = Inl e"
  shows "\<exists>ls' c'. (read_step fs)\<^sup>*\<^sup>* (ls, c) (ls', c') \<and> m_check_state c' = CHECK_STATE_CONTENT \<and> m_read_idx c' = m_read_idx c \<and>
           \<not> body_ok c'"
  using assms
proof (induction fs ls c rule: process_read_loop.induct)
  case (1 fs ls c)
  show ?case
  proof (cases "m_check_state c = CHECK_STATE_CONTENT \<and> \<not> body_ok c")
    case True
    then show ?thesis by blast
  next
    case False
    then have len: "m_check_state c = CHECK_STATE_CONTENT \<Longrightarrow> body_ok c" by blast
    from process_read_iter_safe [OF "1.prems"(1) this, of fs ls] "1.prems"(2)
    obtain ls1 c1 where it: "process_read_iter fs ls c = Inr (Continue ls1 c1)"
      and loop: "process_read_loop fs ls1 c1 = Inl e"
      by (auto simp: process_read_loop_unfold [of fs ls c] wp_iff split: iteration.splits)
    then have st: "read_step fs (ls, c) (ls1, c1)" by (simp add: read_step.iter)
    from read_step_inv [OF st "1.prems"(1)] have "conn_inv c1" "m_read_idx c1 = m_read_idx c" by auto
    with "1.IH" [OF it refl] loop obtain ls' c' where
      "(read_step fs)\<^sup>*\<^sup>* (ls1, c1) (ls', c')" "m_check_state c' = CHECK_STATE_CONTENT" "m_read_idx c' = m_read_idx c" "\<not> body_ok c'"
      by fastforce
    with st show ?thesis by (meson converse_rtranclp_into_rtranclp)
  qed
qed

section \<open>What reading a request leaves alone\<close>

definition read_frame :: "http_conn \<Rightarrow> http_conn \<Rightarrow> bool" where
  "read_frame c c' \<longleftrightarrow>
     m_sockfd c' = m_sockfd c \<and> m_address c' = m_address c \<and> m_read_idx c' = m_read_idx c \<and>
     m_write_buf c' = m_write_buf c \<and> m_write_idx c' = m_write_idx c \<and>
     m_iv c' = m_iv c \<and> m_iv_count c' = m_iv_count c"

lemma read_frame_trans: "read_frame c c' \<Longrightarrow> read_frame c' c'' \<Longrightarrow> read_frame c c''"
  by (simp add: read_frame_def)

lemma read_frame_basic [simp]:
  "read_frame c c" "read_frame (c\<lparr>m_start_line := i\<rparr>) c' = read_frame c c'"
  by (simp_all add: read_frame_def)

lemma read_frame_parse: "parse_frame c c' \<Longrightarrow> read_frame c c'"
  by (simp add: parse_frame_def read_frame_def)

lemma read_frame_parse_line:
  assumes "parse_line c = Inr (st, c')"
  shows "read_frame c c'"
proof -
  have "m_sockfd c' = m_sockfd c" "m_address c' = m_address c" "m_read_idx c' = m_read_idx c"
    "m_write_buf c' = m_write_buf c" "m_write_idx c' = m_write_idx c" "m_iv c' = m_iv c" "m_iv_count c' = m_iv_count c"
    by (subst parse_line_frame [OF assms, THEN conjunct1], simp)+
  then show ?thesis by (simp add: read_frame_def)
qed

definition iter_conn :: "iteration \<Rightarrow> http_conn" where
  "iter_conn r = (case r of Continue _ c \<Rightarrow> c | Return _ c \<Rightarrow> c)"

lemma iter_conn_simps [simp]: "iter_conn (Continue ls c) = c" "iter_conn (Return code c) = c"
  by (simp_all add: iter_conn_def)

lemma read_frame_dispatch:
  assumes "dispatch fs c = Inr r"
  shows "read_frame c (iter_conn r)"
proof -
  let ?c = "c\<lparr>m_start_line := m_checked_index c\<rparr>"
  have req: "read_frame c c2" if "read_frame ?c c1" "do_request fs c1 = Inr (ret, c2)" for c1 c2 ret
    using that by (auto dest!: do_request_frame read_frame_parse intro: read_frame_trans)
  show ?thesis
  proof (cases "m_check_state c")
    case CHECK_STATE_REQUESTLINE
    with assms show ?thesis
      by (auto simp: dispatch_def Let_def bindr_eq_Inr dest!: parse_request_line_frame read_frame_parse)
  next
    case CHECK_STATE_HEADER
    with assms obtain ret c1 where ph: "parse_headers (m_start_line c) ?c = Inr (ret, c1)"
      and rest: "(if ret = BAD_REQUEST then Inr (Return BAD_REQUEST c1) else if ret = GET_REQUEST then
            bindr (do_request fs c1) (\<lambda>(ret, c). Inr (Return ret c)) else Inr (Continue LINE_OK c1)) = Inr r"
      by (auto simp: dispatch_def Let_def bindr_eq_Inr)
    have "read_frame ?c c1" using parse_headers_frame [OF ph] by (blast intro: read_frame_parse)
    with rest req [of c1] show ?thesis by (auto simp: bindr_eq_Inr split: if_splits)
  next
    case CHECK_STATE_CONTENT
    with assms obtain ret c1 where pc: "parse_content (m_start_line c) ?c = Inr (ret, c1)"
      and rest: "(if ret = GET_REQUEST then bindr (do_request fs c1) (\<lambda>(ret, c). Inr (Return ret c))
            else Inr (Continue LINE_OPEN c1)) = Inr r"
      by (auto simp: dispatch_def Let_def bindr_eq_Inr)
    have "read_frame ?c c1" using parse_content_frame [OF pc] by (blast intro: read_frame_parse)
    with rest req [of c1] show ?thesis by (auto simp: bindr_eq_Inr split: if_splits)
  qed
qed

lemma read_frame_iter:
  assumes "process_read_iter fs ls c = Inr r"
  shows "read_frame c (iter_conn r)"
  using assms
  by (auto simp: process_read_iter_dispatch bindr_eq_Inr split: if_splits
      dest: read_frame_dispatch read_frame_parse_line intro: read_frame_trans)

lemma read_frame_loop: "process_read_loop fs ls c = Inr (code, c') \<Longrightarrow> read_frame c c'"
proof (induction fs ls c rule: process_read_loop.induct)
  case (1 fs ls c)
  from "1.prems" obtain r where it: "process_read_iter fs ls c = Inr r"
    and rest: "(case r of Continue ls' c' \<Rightarrow> process_read_loop fs ls' c' | Return code c' \<Rightarrow> Inr (code, c')) = Inr (code, c')"
    by (auto simp: process_read_loop.simps [of fs ls c] bindr_eq_Inr)
  show ?case
  proof (cases r)
    case (Continue ls1 c1)
    with "1.IH" [OF it Continue] rest read_frame_iter [OF it] show ?thesis by (auto intro: read_frame_trans)
  next
    case (Return code1 c1)
    with rest read_frame_iter [OF it] show ?thesis by simp
  qed
qed

end
