(* ===== verification/Http_Parse_Correct.thy ===== *)
theory Http_Parse_Correct
  imports Http_Parse_Safety
begin

text \<open>
  What the request parser computes. The reference is a reading of the request as lines: the
  request line gives a path or is refused, the header lines give the keep-alive flag and the
  body length, and the file system gives the answer for the path. The theorems say that
  \<open>process_read\<close>, which scans, cuts and re-reads the buffer in place, computes this reading.
\<close>

section \<open>Lines in the buffer\<close>

definition unread :: "http_conn \<Rightarrow> char list" where
  "unread c = slice (m_read_buf c) (m_checked_index c) (m_read_idx c)"

definition clean_line :: "string \<Rightarrow> bool" where
  "clean_line l \<longleftrightarrow> CR \<notin> set l \<and> LF \<notin> set l \<and> NUL \<notin> set l"

lemma unread_Cons:
  assumes "unread c = x # xs"
  shows "m_checked_index c < m_read_idx c" and "m_read_buf c (m_checked_index c) = x"
    and "unread (c\<lparr>m_checked_index := Suc (m_checked_index c)\<rparr>) = xs"
proof -
  have "length (unread c) = m_read_idx c - m_checked_index c" by (simp add: unread_def)
  with assms show lt: "m_checked_index c < m_read_idx c" by simp
  then have "unread c = m_read_buf c (m_checked_index c) #
      slice (m_read_buf c) (Suc (m_checked_index c)) (m_read_idx c)"
    by (simp add: unread_def slice_def upt_conv_Cons)
  with assms show "m_read_buf c (m_checked_index c) = x"
    "unread (c\<lparr>m_checked_index := Suc (m_checked_index c)\<rparr>) = xs"
    by (simp_all add: unread_def)
qed

lemma length_unread: "length (unread c) = m_read_idx c - m_checked_index c"
  by (simp add: unread_def)

lemma parse_line_skip:
  assumes "unread c = x # xs" and "x \<noteq> CR" and "x \<noteq> LF" and "m_read_idx c \<le> READ_BUFFER_SIZE"
  shows "parse_line c = parse_line (c\<lparr>m_checked_index := Suc (m_checked_index c)\<rparr>)"
  using unread_Cons [OF assms(1)] assms(2-4) by (simp add: parse_line.simps [of c] Let_def peek_def)

text \<open>A complete line is cut off and replaced by its NULs.\<close>

lemma parse_line_complete:
  assumes "unread c = l @ CRLF @ rest" and "CR \<notin> set l" and "LF \<notin> set l"
    and "m_read_idx c \<le> READ_BUFFER_SIZE"
  defines "e \<equiv> m_checked_index c + length l"
  shows "parse_line c = Inr (LINE_OK, c\<lparr>m_read_buf := (m_read_buf c)(e := NUL, Suc e := NUL),
                                       m_checked_index := Suc (Suc e)\<rparr>)"
  using assms(1-4) unfolding e_def
proof (induction l arbitrary: c)
  case Nil
  note u = unread_Cons [of c CR "LF # rest"] 
  have "unread (c\<lparr>m_checked_index := Suc (m_checked_index c)\<rparr>) = LF # rest" using u Nil by simp
  from unread_Cons [OF this] u Nil show ?case
    by (simp add: parse_line.simps [of c] Let_def peek_def del: fun_upd_apply)
next
  case (Cons x l)
  let ?c = "c\<lparr>m_checked_index := Suc (m_checked_index c)\<rparr>"
  have "unread ?c = l @ CRLF @ rest"
    using unread_Cons [of c x "l @ CRLF @ rest"] Cons.prems by simp
  moreover have "parse_line c = parse_line ?c"
    using Cons.prems by (intro parse_line_skip [of c x "l @ CRLF @ rest"]) auto
  ultimately show ?case using Cons.IH [of ?c] Cons.prems by simp
qed

text \<open>A piece of a line is kept and the scanner waits at its end.\<close>

lemma parse_line_partial:
  assumes "CR \<notin> set (unread c)" and "LF \<notin> set (unread c)" and "m_checked_index c \<le> m_read_idx c"
    and "m_read_idx c \<le> READ_BUFFER_SIZE"
  shows "parse_line c = Inr (LINE_OPEN, c\<lparr>m_checked_index := m_read_idx c\<rparr>)"
  using assms
proof (induction "unread c" arbitrary: c)
  case Nil
  then have "m_checked_index c = m_read_idx c" using length_unread [of c] by (simp flip: Nil.hyps)
  then show ?case by (simp add: parse_line.simps [of c])
next
  case (Cons x xs)
  let ?c = "c\<lparr>m_checked_index := Suc (m_checked_index c)\<rparr>"
  note u = unread_Cons [OF Cons.hyps(2) [symmetric]]
  have "x \<noteq> CR" "x \<noteq> LF" using Cons.prems(1,2) unfolding Cons.hyps(2) [symmetric] by auto
  then have "parse_line c = parse_line ?c"
    using Cons.prems(4) by (intro parse_line_skip [OF Cons.hyps(2) [symmetric]])
  also have "\<dots> = Inr (LINE_OPEN, ?c\<lparr>m_checked_index := m_read_idx ?c\<rparr>)"
  proof (rule Cons.hyps(1))
    show "xs = unread ?c" using u by simp
    show "CR \<notin> set (unread ?c)" "LF \<notin> set (unread ?c)"
      using u(3) Cons.prems(1,2) unfolding Cons.hyps(2) [symmetric] by auto
  qed (use u Cons.prems in auto)
  finally show ?case by simp
qed

section \<open>One line of the request\<close>

text \<open>The connection waits at the start of a line.\<close>

definition at_line :: "http_conn \<Rightarrow> bool" where
  "at_line c \<longleftrightarrow> m_start_line c = m_checked_index c \<and> m_checked_index c \<le> m_read_idx c \<and>
     m_read_idx c \<le> READ_BUFFER_SIZE \<and> m_real_file c (FILENAME_LEN - 1) = NUL \<and>
     (\<forall>i. m_read_idx c \<le> i \<and> i < READ_BUFFER_SIZE \<longrightarrow> m_read_buf c i = NUL)"

text \<open>The state in which the parsers see the line \<open>l\<close>.\<close>

definition cut_line :: "string \<Rightarrow> http_conn \<Rightarrow> http_conn" where
  "cut_line l c =
     (let e = m_checked_index c + length l in
      c\<lparr>m_read_buf := (m_read_buf c)(e := NUL, Suc e := NUL),
        m_checked_index := Suc (Suc e), m_start_line := Suc (Suc e)\<rparr>)"

lemma cut_line_facts:
  assumes u: "unread c = l @ CRLF @ rest" and c: "at_line c" and l: "clean_line l"
  shows "cstr_at (m_read_buf (cut_line l c)) (m_start_line c) l"
    and "m_start_line c + length l < READ_BUFFER_SIZE"
    and "unread (cut_line l c) = rest" and "at_line (cut_line l c)"
    and "\<And>k p. cstr_at (m_read_buf c) k p \<Longrightarrow> k + length p < m_start_line c \<Longrightarrow>
           cstr_at (m_read_buf (cut_line l c)) k p"
    and "m_start_line c + length l < m_start_line (cut_line l c)"
proof -
  let ?i = "m_checked_index c" and ?b = "m_read_buf c"
  have len: "m_read_idx c = ?i + length l + 2 + length rest"
    using arg_cong [OF u, of length] c by (simp add: unread_def at_line_def)
  have bytes: "?b (?i + k) = (l @ CRLF @ rest) ! k" if "k < length l + 2 + length rest" for k
    using that u [symmetric] len by (simp add: unread_def slice_nth)
  have "?b (?i + k) = l ! k" if "k < length l" for k
    using that bytes [of k] by (simp add: nth_append)
  with l c show "cstr_at (m_read_buf (cut_line l c)) (m_start_line c) l"
    by (simp add: cstr_at_def cut_line_def Let_def clean_line_def at_line_def)
  show "m_start_line c + length l < READ_BUFFER_SIZE" using c len by (simp add: at_line_def)
  have "slice ?b (?i + length l + 2) (m_read_idx c) = rest"
    using bytes [of "length l + 2 + _"] len
    by (intro nth_equalityI) (auto simp: slice_nth nth_append add.assoc)
  then show "unread (cut_line l c) = rest"
    by (simp add: unread_def cut_line_def Let_def slice_def)
  show "at_line (cut_line l c)" using c len by (simp add: at_line_def cut_line_def Let_def)
  show "cstr_at (m_read_buf (cut_line l c)) k p"
    if "cstr_at ?b k p" "k + length p < m_start_line c" for k p
    using that c by (simp add: cut_line_def Let_def at_line_def cstr_at_upd_beyond)
  show "m_start_line c + length l < m_start_line (cut_line l c)"
    using c by (simp add: cut_line_def Let_def at_line_def)
qed

lemma process_read_iter_line:
  assumes u: "unread c = l @ CRLF @ rest" and c: "at_line c" and l: "clean_line l"
    and st: "m_check_state c \<noteq> CHECK_STATE_CONTENT"
  shows "process_read_iter fs LINE_OK c =
     (case m_check_state c of
        CHECK_STATE_REQUESTLINE \<Rightarrow>
          bindr (parse_request_line (m_start_line c) (cut_line l c)) (\<lambda>(ret, c).
          Inr (if ret = BAD_REQUEST then Return BAD_REQUEST c else Continue LINE_OK c))
      | _ \<Rightarrow>
          bindr (parse_headers (m_start_line c) (cut_line l c)) (\<lambda>(ret, c).
          if ret = BAD_REQUEST then Inr (Return BAD_REQUEST c)
          else if ret = GET_REQUEST then
            bindr (do_request fs c) (\<lambda>(ret, c). Inr (Return ret c))
          else Inr (Continue LINE_OK c)))"
proof -
  let ?e = "m_checked_index c + length l"
  let ?c1 = "c\<lparr>m_read_buf := (m_read_buf c)(?e := NUL, Suc ?e := NUL), m_checked_index := Suc (Suc ?e)\<rparr>"
  have "parse_line c = Inr (LINE_OK, ?c1)"
    using parse_line_complete [OF u] l c by (simp add: clean_line_def at_line_def)
  moreover have "?c1\<lparr>m_start_line := m_checked_index ?c1\<rparr> = cut_line l c"
    by (simp add: cut_line_def Let_def)
  moreover have "strlen_at READ_BUFFER_SIZE (m_read_buf ?c1) (m_start_line c) = Inr (length l)"
    using cut_line_facts(1,2) [OF u c l] by (intro strlen_at_cstr) (simp_all add: cut_line_def Let_def)
  ultimately show ?thesis
    using st by (cases "m_check_state c")
      (simp_all add: process_read_iter_dispatch dispatch_def Let_def cut_line_def)
qed

section \<open>A whole request\<close>

text \<open>The reading of the header lines: body length and keep-alive flag.\<close>

fun headers_length :: "int \<Rightarrow> string list \<Rightarrow> int" where
  "headers_length n [] = n"
| "headers_length n (h # hs) =
     headers_length (case header_of h of Content_Length v \<Rightarrow> v | _ \<Rightarrow> n) hs"

fun headers_linger :: "bool \<Rightarrow> string list \<Rightarrow> bool" where
  "headers_linger l [] = l"
| "headers_linger l (h # hs) =
     headers_linger (case header_of h of Connection_Header ka \<Rightarrow> l \<or> ka | _ \<Rightarrow> l) hs"

definition lines_bytes :: "string list \<Rightarrow> char list" where
  "lines_bytes ls = concat (map (\<lambda>l. l @ CRLF) ls)"

lemma lines_bytes_simps [simp]:
  "lines_bytes [] = []" "lines_bytes (l # ls) = l @ CRLF @ lines_bytes ls"
  by (simp_all add: lines_bytes_def)

text \<open>\<open>m_url\<close> points at the path \<open>p\<close>, before the line being read.\<close>

definition url_is :: "string \<Rightarrow> http_conn \<Rightarrow> bool" where
  "url_is p c \<longleftrightarrow> (\<exists>k. m_url c = Some k \<and> cstr_at (m_read_buf c) k p \<and> k + length p < m_start_line c)"

lemma url_is_cut_line:
  assumes "unread c = l @ CRLF @ rest" and "at_line c" and "clean_line l" and "url_is p c"
  shows "url_is p (cut_line l c)"
proof -
  from assms(4) obtain k where k: "m_url c = Some k" "cstr_at (m_read_buf c) k p" "k + length p < m_start_line c"
    by (auto simp: url_is_def)
  have "m_url (cut_line l c) = m_url c" by (simp add: cut_line_def Let_def)
  with k cut_line_facts(5,6) [OF assms(1-3)] show ?thesis by (fastforce simp: url_is_def)
qed

lemma header_line:
  assumes u: "unread c = h @ CRLF @ rest" and c: "at_line c" and h: "clean_line h" "h \<noteq> []"
    and st: "m_check_state c = CHECK_STATE_HEADER" and p: "url_is p c"
  obtains c' where "process_read_iter fs LINE_OK c = Inr (Continue LINE_OK c')"
    and "unread c' = rest" and "at_line c'" and "m_check_state c' = CHECK_STATE_HEADER" and "url_is p c'"
    and "m_content_length c' = headers_length (m_content_length c) [h]"
    and "m_linger c' = headers_linger (m_linger c) [h]" and "m_read_idx c' = m_read_idx c"
proof -
  let ?c = "cut_line h c" and ?t = "m_start_line c"
  have ph: "parse_headers ?t ?c = Inr (header_effect ?t h ?c)"
    using cut_line_facts(1,2) [OF u c h(1)] by (rule parse_headers_correct)
  have not_end: "header_of h \<noteq> End_Of_Headers" using h(2) by (simp add: header_of_def)
  define c' where "c' = snd (header_effect ?t h ?c)"
  have eff: "header_effect ?t h ?c = (NO_REQUEST, c')"
    using not_end unfolding c'_def by (simp add: header_effect_def split: header.split)
  have fr: "parse_frame ?c c' \<and> m_read_buf c' = m_read_buf ?c \<and> m_url c' = m_url ?c \<and> m_real_file c' = m_real_file ?c"
    using ph eff by (intro parse_headers_frame [of ?t]) simp
  have cl: "m_content_length ?c = m_content_length c" "m_linger ?c = m_linger c" "m_check_state ?c = m_check_state c"
    "m_read_idx ?c = m_read_idx c"
    by (simp_all add: cut_line_def Let_def)
  have vals: "m_check_state c' = CHECK_STATE_HEADER"
    "m_content_length c' = headers_length (m_content_length c) [h]"
    "m_linger c' = headers_linger (m_linger c) [h]" "m_read_idx c' = m_read_idx c"
    using not_end st cl fr by (auto simp: c'_def header_effect_def split: header.split)
  show thesis
  proof (rule that [of c'])
    show "process_read_iter fs LINE_OK c = Inr (Continue LINE_OK c')"
      using process_read_iter_line [OF u c h(1), of fs] st ph eff by simp
    show "unread c' = rest" using fr cut_line_facts(3) [OF u c h(1)] by (simp add: unread_def parse_frame_def)
    show "at_line c'" using fr cut_line_facts(4) [OF u c h(1)] by (simp add: at_line_def parse_frame_def)
    show "url_is p c'" using fr url_is_cut_line [OF u c h(1) p] by (simp add: url_is_def parse_frame_def)
  qed (fact vals)+
qed

text \<open>The header lines are read one by one, up to the empty line.\<close>

lemma header_lines_run:
  assumes "unread c = lines_bytes hs @ rest" and "at_line c" and "\<forall>h \<in> set hs. clean_line h \<and> h \<noteq> []"
    and "m_check_state c = CHECK_STATE_HEADER" and "url_is p c"
  shows "\<exists>c'. process_read_loop fs LINE_OK c = process_read_loop fs LINE_OK c' \<and>
     unread c' = rest \<and> at_line c' \<and> m_check_state c' = CHECK_STATE_HEADER \<and> url_is p c' \<and>
     m_content_length c' = headers_length (m_content_length c) hs \<and>
     m_linger c' = headers_linger (m_linger c) hs \<and> m_read_idx c' = m_read_idx c"
  using assms
proof (induction hs arbitrary: c)
  case Nil
  then show ?case by (intro exI [of _ c]) simp
next
  case (Cons h hs)
  from Cons.prems have u: "unread c = h @ CRLF @ lines_bytes hs @ rest" by simp
  from Cons.prems have h: "clean_line h" "h \<noteq> []" by simp_all
  obtain c1 where it: "process_read_iter fs LINE_OK c = Inr (Continue LINE_OK c1)"
    and c1: "unread c1 = lines_bytes hs @ rest" "at_line c1" "m_check_state c1 = CHECK_STATE_HEADER" "url_is p c1"
      "m_content_length c1 = headers_length (m_content_length c) [h]"
      "m_linger c1 = headers_linger (m_linger c) [h]" "m_read_idx c1 = m_read_idx c"
    by (rule header_line [OF u Cons.prems(2) h Cons.prems(4,5), of fs])
  from Cons.IH [OF c1(1,2) _ c1(3,4)] Cons.prems(3) obtain c' where
    "process_read_loop fs LINE_OK c1 = process_read_loop fs LINE_OK c'" "unread c' = rest" "at_line c'"
    "m_check_state c' = CHECK_STATE_HEADER" "url_is p c'"
    "m_content_length c' = headers_length (m_content_length c1) hs"
    "m_linger c' = headers_linger (m_linger c1) hs" "m_read_idx c' = m_read_idx c1" by auto
  with it c1(5-7) show ?case
    by (intro exI [of _ c']) (simp add: process_read_loop_unfold [of fs LINE_OK c])
qed

text \<open>Answering: the path is known, the file system decides.\<close>

lemma do_request_url_is:
  assumes "at_line c" and "url_is p c"
  obtains c' where "do_request fs c = Inr (request_code fs p, c')"
    and "do_request_post fs p (request_code fs p, c')" and "m_linger c' = m_linger c"
proof -
  from assms(2) obtain k where k: "m_url c = Some k" "cstr_at (m_read_buf c) k p" "k + length p < m_start_line c"
    by (auto simp: url_is_def)
  with assms(1) have "wp (do_request_post fs p) (do_request fs c)"
    by (intro do_request_correct) (auto simp: at_line_def)
  then obtain c' where "do_request fs c = Inr (request_code fs p, c')"
    and "do_request_post fs p (request_code fs p, c')" by (auto simp: wp_iff do_request_post_def)
  with do_request_frame [OF this(1)] show thesis by (intro that [of c']) auto
qed

text \<open>The empty line: the request is answered, or its body is looked at.\<close>

lemma end_of_headers_iter:
  assumes u: "unread c = CRLF @ rest" and c: "at_line c"
    and st: "m_check_state c = CHECK_STATE_HEADER" and p: "url_is p c"
  defines "c1 \<equiv> cut_line [] c"
  shows "process_read_iter fs LINE_OK c =
           (if m_content_length c = 0 then bindr (do_request fs c1) (\<lambda>(ret, c). Inr (Return ret c))
            else Inr (Continue LINE_OK (c1\<lparr>m_check_state := CHECK_STATE_CONTENT\<rparr>)))"
    and "at_line c1" and "url_is p c1" and "unread c1 = rest" and "m_linger c1 = m_linger c"
    and "m_content_length c1 = m_content_length c" and "m_read_idx c1 = m_read_idx c"
proof -
  have u': "unread c = [] @ CRLF @ rest" and cl: "clean_line []" using u by (simp_all add: clean_line_def)
  show same: "m_linger c1 = m_linger c" "m_content_length c1 = m_content_length c" "m_read_idx c1 = m_read_idx c"
    by (simp_all add: c1_def cut_line_def Let_def)
  show "at_line c1" "url_is p c1" "unread c1 = rest"
    using cut_line_facts(3,4) [OF u' c cl] url_is_cut_line [OF u' c cl p] by (simp_all add: c1_def)
  have "parse_headers (m_start_line c) c1 = Inr (header_effect (m_start_line c) [] c1)"
    using parse_headers_correct [OF cut_line_facts(1,2) [OF u' c cl]] by (simp add: c1_def)
  then show "process_read_iter fs LINE_OK c =
           (if m_content_length c = 0 then bindr (do_request fs c1) (\<lambda>(ret, c). Inr (Return ret c))
            else Inr (Continue LINE_OK (c1\<lparr>m_check_state := CHECK_STATE_CONTENT\<rparr>)))"
    using process_read_iter_line [OF u' c cl, of fs] st same
    by (simp add: header_effect_def header_of_def flip: c1_def)
qed

text \<open>The body, when the iteration that follows the empty line looks at it.\<close>

lemma body_strlen:
  assumes "at_line c" and "m_read_idx c < READ_BUFFER_SIZE"
  shows "\<exists>l. strlen_at READ_BUFFER_SIZE (m_read_buf c) (m_start_line c) = Inr l"
proof -
  have "m_start_line c \<le> m_read_idx c" and "m_read_buf c (m_read_idx c) = NUL" using assms by (auto simp: at_line_def)
  with assms(2) obtain s where "cstr_at (m_read_buf c) (m_start_line c) s" "m_start_line c + length s < READ_BUFFER_SIZE"
    by (metis cstr_at_exists le_less_trans)
  then show ?thesis by (auto simp: cstr_simps)
qed

lemma body_complete:
  assumes c: "at_line c" and room: "m_read_idx c < READ_BUFFER_SIZE"
    and st: "m_check_state c = CHECK_STATE_CONTENT" and p: "url_is p c"
    and len: "0 \<le> m_content_length c" "m_content_length c \<le> int (length (unread c))"
  shows "\<exists>c'. process_read_loop fs LINE_OK c = Inr (request_code fs p, c') \<and>
           do_request_post fs p (request_code fs p, c') \<and> m_linger c' = m_linger c"
proof -
  let ?n = "nat (m_content_length c)" and ?t = "m_start_line c"
  let ?c = "c\<lparr>m_read_buf := (m_read_buf c)(?t + ?n := NUL)\<rparr>"
  have pos: "?t = m_checked_index c" "?t + ?n \<le> m_read_idx c"
    using c len by (auto simp: at_line_def length_unread)
  have self: "c\<lparr>m_start_line := m_checked_index c\<rparr> = c" using c by (simp add: at_line_def)
  have "add_int (m_content_length c) (int (m_checked_index c)) = Inr (m_content_length c + int (m_checked_index c))"
    using pos len room by (simp add: add_int_def)
  moreover have "nat (int ?t + m_content_length c) = ?t + ?n" using len by simp
  ultimately have pc: "parse_content ?t c = Inr (GET_REQUEST, ?c)"
    using pos len room by (simp add: parse_content_def poke_def Let_def)
  have "at_line ?c" using c by (auto simp: at_line_def)
  moreover have "url_is p ?c" using p by (auto simp: url_is_def cstr_at_upd_beyond)
  ultimately obtain c' where d: "do_request fs ?c = Inr (request_code fs p, c')"
    "do_request_post fs p (request_code fs p, c')" "m_linger c' = m_linger ?c"
    by (rule do_request_url_is)
  with pc self body_strlen [OF c room] st show ?thesis
    by (auto simp: process_read_loop_unfold process_read_iter_dispatch dispatch_def Let_def)
qed

lemma body_negative:
  assumes c: "at_line c" and room: "m_read_idx c < READ_BUFFER_SIZE"
    and st: "m_check_state c = CHECK_STATE_CONTENT"
    and len: "m_content_length c + int (m_start_line c) < 0" "INT_MIN \<le> m_content_length c"
  shows "process_read_loop fs LINE_OK c = Inl Out_Of_Bounds"
proof -
  have "parse_content (m_start_line c) c = Inl Out_Of_Bounds"
    using c len by (auto simp: parse_content_def add_int_def at_line_def Let_def)
  moreover have "c\<lparr>m_start_line := m_checked_index c\<rparr> = c" using c by (simp add: at_line_def)
  ultimately show ?thesis
    using body_strlen [OF c room] st
    by (auto simp: process_read_loop_unfold process_read_iter_dispatch dispatch_def Let_def)
qed

text \<open>From the empty line on: answered if the body is there.\<close>

lemma headers_and_body:
  assumes u: "unread c = lines_bytes hs @ CRLF @ body" and c: "at_line c"
    and hs: "\<forall>h \<in> set hs. clean_line h \<and> h \<noteq> []"
    and st: "m_check_state c = CHECK_STATE_HEADER" and p: "url_is p c" and room: "m_read_idx c < READ_BUFFER_SIZE"
    and n: "n = headers_length (m_content_length c) hs" "0 \<le> n" "n \<le> int (length body)"
  shows "\<exists>c'. process_read_loop fs LINE_OK c = Inr (request_code fs p, c') \<and>
           do_request_post fs p (request_code fs p, c') \<and> m_linger c' = headers_linger (m_linger c) hs"
proof -
  obtain c1 where eq: "process_read_loop fs LINE_OK c = process_read_loop fs LINE_OK c1"
    and c1: "unread c1 = CRLF @ body" "at_line c1" "m_check_state c1 = CHECK_STATE_HEADER" "url_is p c1"
    and v: "m_content_length c1 = n" "m_linger c1 = headers_linger (m_linger c) hs" "m_read_idx c1 = m_read_idx c"
    using header_lines_run [OF u c hs st p, of fs] n(1) by metis
  note e = end_of_headers_iter [OF c1]
  show ?thesis
  proof (cases "n = 0")
    case True
    obtain c' where "do_request fs (cut_line [] c1) = Inr (request_code fs p, c')"
      "do_request_post fs p (request_code fs p, c')" "m_linger c' = m_linger (cut_line [] c1)"
      by (rule do_request_url_is [OF e(2,3)])
    with True eq v e(1,5) show ?thesis by (auto simp: process_read_loop_unfold [of fs LINE_OK c1])
  next
    case False
    let ?c2 = "cut_line [] c1\<lparr>m_check_state := CHECK_STATE_CONTENT\<rparr>"
    have "at_line ?c2" "url_is p ?c2" "unread ?c2 = body"
      using e(2-4) by (simp_all add: at_line_def url_is_def unread_def)
    then obtain c' where "process_read_loop fs LINE_OK ?c2 = Inr (request_code fs p, c')"
      "do_request_post fs p (request_code fs p, c')" "m_linger c' = m_linger ?c2"
      using body_complete [of ?c2 p fs] room v n e(6,7) by auto
    with False eq v e(1,5) show ?thesis by (auto simp: process_read_loop_unfold [of fs LINE_OK c1])
  qed
qed

text \<open>A connection as \<open>init\<close> leaves it, with bytes read in; \<open>fresh_conn\<close> asks for a free byte behind them.\<close>

definition new_conn :: "http_conn \<Rightarrow> bool" where
  "new_conn c \<longleftrightarrow> at_line c \<and> m_check_state c = CHECK_STATE_REQUESTLINE \<and> m_content_length c = 0 \<and> \<not> m_linger c"

definition fresh_conn :: "http_conn \<Rightarrow> bool" where
  "fresh_conn c \<longleftrightarrow> new_conn c \<and> m_read_idx c < READ_BUFFER_SIZE"

lemma fresh_new: "fresh_conn c \<Longrightarrow> new_conn c"
  by (simp add: fresh_conn_def)

lemma request_line_iter:
  assumes u: "unread c = rl @ CRLF @ rest" and c: "new_conn c" and rl: "clean_line rl"
  shows "case request_path rl of
      None \<Rightarrow> \<exists>c'. process_read_iter fs LINE_OK c = Inr (Return BAD_REQUEST c')
    | Some p \<Rightarrow> \<exists>c'. process_read_iter fs LINE_OK c = Inr (Continue LINE_OK c') \<and> unread c' = rest \<and>
        at_line c' \<and> m_check_state c' = CHECK_STATE_HEADER \<and> url_is p c' \<and> m_content_length c' = 0 \<and>
        \<not> m_linger c' \<and> m_read_idx c' = m_read_idx c \<and> m_start_line c' = m_start_line c + length rl + 2"
proof -
  let ?c = "cut_line rl c" and ?t = "m_start_line c"
  have al: "at_line c" and st: "m_check_state c = CHECK_STATE_REQUESTLINE"
    using c by (simp_all add: new_conn_def)
  note f = cut_line_facts [OF u al rl]
  from parse_request_line_correct [OF f(1,2)] obtain ret c' where
    pr: "parse_request_line ?t ?c = Inr (ret, c')" and post: "request_line_post ?t rl ?c (ret, c')"
    by (auto simp: wp_iff)
  have it: "process_read_iter fs LINE_OK c =
      Inr (if ret = BAD_REQUEST then Return BAD_REQUEST c' else Continue LINE_OK c')"
    using process_read_iter_line [OF u al rl, of fs] st pr by simp
  note fr = parse_request_line_frame [OF pr]
  have same: "m_read_buf c' i = m_read_buf ?c i" if "m_start_line ?c \<le> i" for i
    using post f(6) that by (auto simp: request_line_post_def)
  have al': "at_line c'" using f(4) fr same by (auto simp: at_line_def parse_frame_def)
  have un: "unread c' = rest"
  proof -
    have "unread c' = unread ?c"
    proof -
      have "slice (m_read_buf c') i j = slice (m_read_buf ?c) i j" if "m_start_line ?c \<le> i" for i j
        using that same by (intro slice_cong) auto
      with fr f(4) show ?thesis by (simp add: unread_def parse_frame_def at_line_def)
    qed
    with f(3) show ?thesis by simp
  qed
  have keep: "m_content_length c' = 0" "\<not> m_linger c'" "m_read_idx c' = m_read_idx c"
    "m_start_line c' = m_start_line c + length rl + 2"
    using fr c by (auto simp: new_conn_def cut_line_def Let_def parse_frame_def at_line_def)
  show ?thesis
  proof (cases "request_path rl")
    case None
    with post it show ?thesis by (simp add: request_line_post_def)
  next
    case (Some p)
    with post f(6) fr have "url_is p c'" by (fastforce simp: request_line_post_def url_is_def parse_frame_def)
    with Some post it al' un keep show ?thesis by (auto simp: request_line_post_def)
  qed
qed

lemma new_after_init:
  assumes "length s \<le> READ_BUFFER_SIZE"
  shows "new_conn (recv_store s (init_conn c))" and "unread (recv_store s (init_conn c)) = s"
proof -
  show "new_conn (recv_store s (init_conn c))"
    using assms by (simp add: new_conn_def at_line_def recv_store_def init_conn_def zero_buf_def blit_def)
  show "unread (recv_store s (init_conn c)) = s"
    using slice_blit [of zero_buf 0 s] by (simp add: unread_def recv_store_def init_conn_def)
qed

lemma fresh_after_init:
  assumes "length s < READ_BUFFER_SIZE"
  shows "fresh_conn (recv_store s (init_conn c))" and "unread (recv_store s (init_conn c)) = s"
  using new_after_init [of s c] assms by (simp_all add: fresh_conn_def recv_store_def init_conn_def)

section \<open>Properties\<close>

lemma complete_request_answered:
  assumes "fresh_conn c" and "unread c = rl @ CRLF @ lines_bytes hs @ CRLF @ body"
    and "clean_line rl" and "\<forall>h \<in> set hs. clean_line h \<and> h \<noteq> []"
    and "0 \<le> headers_length 0 hs" and "headers_length 0 hs \<le> int (length body)"
  shows "\<exists>code c'. process_read fs c = Inr (code, c') \<and>
     (case request_path rl of
        None \<Rightarrow> code = BAD_REQUEST
      | Some p \<Rightarrow> code = request_code fs p \<and> m_linger c' = headers_linger False hs \<and>
          do_request_post fs p (code, c'))"
proof (cases "request_path rl")
  case None
  with request_line_iter [OF assms(2) fresh_new [OF assms(1)] assms(3), of fs] show ?thesis
    by (auto simp: process_read_def process_read_loop_unfold [of fs LINE_OK c])
next
  case (Some p)
  with request_line_iter [OF assms(2) fresh_new [OF assms(1)] assms(3), of fs] obtain c1 where
    it: "process_read_iter fs LINE_OK c = Inr (Continue LINE_OK c1)"
    and c1: "unread c1 = lines_bytes hs @ CRLF @ body" "at_line c1" "m_check_state c1 = CHECK_STATE_HEADER" "url_is p c1"
    and v: "m_content_length c1 = 0" "\<not> m_linger c1" "m_read_idx c1 = m_read_idx c" by auto
  have "m_read_idx c1 < READ_BUFFER_SIZE" using v(3) assms(1) by (simp add: fresh_conn_def)
  from headers_and_body [OF c1(1,2) assms(4) c1(3,4) this _ assms(5,6), of fs] v obtain c' where
    "process_read_loop fs LINE_OK c1 = Inr (request_code fs p, c')"
    "do_request_post fs p (request_code fs p, c')" "m_linger c' = headers_linger False hs" by auto
  with it Some show ?thesis by (simp add: process_read_def process_read_loop_unfold [of fs LINE_OK c])
qed

text \<open>
  C2. A complete request, whatever its request line and header lines: a request line that has
  no path is answered BAD_REQUEST, any other is answered by the file the path is mapped to, as
  \<open>request_code\<close> says, once the body the headers announce is in the buffer; the keep-alive flag
  is the one the Connection headers ask for, and \<open>m_real_file\<close> holds the file's path.
\<close>

theorem process_read_request:
  assumes "fresh_conn c" and "unread c = rl @ CRLF @ lines_bytes hs @ CRLF @ body"
    and "clean_line rl" and "\<forall>h \<in> set hs. clean_line h \<and> h \<noteq> []"
    and "0 \<le> headers_length 0 hs" and "headers_length 0 hs \<le> int (length body)"
  shows "\<exists>code c'. process_read fs c = Inr (code, c') \<and>
     (case request_path rl of
        None \<Rightarrow> code = BAD_REQUEST
      | Some p \<Rightarrow> code = request_code fs p \<and> m_linger c' = headers_linger False hs \<and>
          do_request_post fs p (code, c'))"
  by (rule complete_request_answered [OF assms])

text \<open>Two request texts the witnesses use: a page asked for with keep-alive, and one with a body.\<close>

definition sample_get :: string where
  "sample_get = ''GET /index.html HTTP/1.1'' @ CRLF @ ''Connection: keep-alive'' @ CRLF @ CRLF"

definition sample_conn :: http_conn where
  "sample_conn = \<lparr>m_sockfd = 5, m_address = \<lparr>sin_port = 0, sin_addr = 0\<rparr>, m_read_buf = zero_buf,
     m_read_idx = 0, m_checked_index = 0, m_start_line = 0, m_check_state = CHECK_STATE_REQUESTLINE,
     m_url = None, m_version = None, m_method = GET, m_host = None, m_linger = False,
     m_content_length = 0, m_real_file = zero_buf, m_write_buf = zero_buf, m_write_idx = 0,
     m_file_address = 0, m_file_stat = \<lparr>st_mode = 0, st_size = 0\<rparr>, m_iv = [], m_iv_count = 0\<rparr>"

definition sample_fs :: filesys where
  "sample_fs = \<lparr>fs_stat = (\<lambda>p. if p = ''./resources/index.html''
                             then Some \<lparr>st_mode = 0x81A4, st_size = 13591\<rparr> else None),
                fs_mmap = (\<lambda>_ _. 4096)\<rparr>"

lemma sample_path: "request_path ''GET /index.html HTTP/1.1'' = Some ''/index.html''"
  by code_simp

lemma sample_header: "header_of ''Connection: keep-alive'' = Connection_Header True"
  by code_simp

lemma sample_code: "request_code sample_fs ''/index.html'' = FILE_REQUEST"
  by code_simp

theorem process_read_request_witness:
  "\<exists>c'. process_read sample_fs (recv_store sample_get (init_conn sample_conn)) = Inr (FILE_REQUEST, c') \<and>
     m_linger c' \<and> cstr_at (m_real_file c') 0 ''./resources/index.html''"
proof -
  let ?c = "recv_store sample_get (init_conn sample_conn)"
  have len: "length sample_get < READ_BUFFER_SIZE" by (simp add: sample_get_def)
  have fresh: "fresh_conn ?c" using fresh_after_init(1) [OF len] .
  have un: "unread ?c = ''GET /index.html HTTP/1.1'' @ CRLF @ lines_bytes [''Connection: keep-alive''] @ CRLF @ []"
    using fresh_after_init(2) [OF len] by (simp add: sample_get_def)
  have clean: "clean_line ''GET /index.html HTTP/1.1''" "clean_line ''Connection: keep-alive''"
    by (simp_all add: clean_line_def)
  have fp: "file_path ''/index.html'' = ''./resources/index.html''" by code_simp
  show ?thesis
    using process_read_request [OF fresh un clean(1), of sample_fs] clean
    by (auto simp: sample_path sample_header sample_code do_request_post_def fp)
qed

lemma new_conn_inv: "new_conn c \<Longrightarrow> conn_inv c"
  by (auto simp: new_conn_def at_line_def conn_inv_def)

lemmas fresh_conn_inv = new_conn_inv [OF fresh_new]

text \<open>
  C20. Memory safety of the parser: from any connection that satisfies the invariant, a fault can
  only come out of the branch for a body, and only when the Content-Length that was accepted is
  negative or within 2048 of the greatest int, or when the read buffer is full to its last byte.
\<close>

theorem process_read_fault_by_length:
  assumes "conn_inv c" and "process_read fs c = Inl e"
  shows "\<exists>ls' c'. (read_step fs)\<^sup>*\<^sup>* (LINE_OK, c) (ls', c') \<and>
     m_check_state c' = CHECK_STATE_CONTENT \<and>
     (m_content_length c' < 0 \<or> INT_MAX - int READ_BUFFER_SIZE < m_content_length c' \<or>
      m_read_idx c = READ_BUFFER_SIZE)"
proof -
  have "m_read_idx c \<le> READ_BUFFER_SIZE" using assms(1) by (simp add: conn_inv_def)
  with process_read_loop_fault [OF assms(1), of fs LINE_OK e] assms(2) show ?thesis
    by (fastforce simp: process_read_def body_ok_def length_ok_def not_le)
qed

lemma headers_length_range: "INT_MIN \<le> n \<Longrightarrow> INT_MIN \<le> headers_length n hs"
proof (induction hs arbitrary: n)
  case (Cons h hs)
  have "INT_MIN \<le> (case header_of h of Content_Length v \<Rightarrow> v | _ \<Rightarrow> n)"
    using Cons.prems to_int32_range [of "atol_value (skip_blank (drop 15 h))"] by (simp add: header_of_def)
  from Cons.IH [OF this] show ?case by simp
qed simp

text \<open>Up to the first look at a body: the connection waits in the body state.\<close>

lemma reach_body:
  assumes "new_conn c" and "unread c = rl @ CRLF @ lines_bytes hs @ CRLF @ body"
    and "clean_line rl" and "request_path rl = Some p" and "\<forall>h \<in> set hs. clean_line h \<and> h \<noteq> []"
    and "headers_length 0 hs \<noteq> 0"
  obtains c' where "process_read fs c = process_read_loop fs LINE_OK c'"
    and "at_line c'" and "url_is p c'" and "unread c' = body" and "m_check_state c' = CHECK_STATE_CONTENT"
    and "m_content_length c' = headers_length 0 hs" and "m_read_idx c' = m_read_idx c"
proof -
  from request_line_iter [OF assms(2,1,3), of fs] assms(4) obtain c1 where
    it: "process_read_iter fs LINE_OK c = Inr (Continue LINE_OK c1)"
    and c1: "unread c1 = lines_bytes hs @ CRLF @ body" "at_line c1" "m_check_state c1 = CHECK_STATE_HEADER" "url_is p c1"
    and v: "m_content_length c1 = 0" "m_read_idx c1 = m_read_idx c" by auto
  from header_lines_run [OF c1(1,2) assms(5) c1(3,4), of fs] v obtain c2 where
    eq: "process_read_loop fs LINE_OK c1 = process_read_loop fs LINE_OK c2"
    and c2: "unread c2 = CRLF @ body" "at_line c2" "m_check_state c2 = CHECK_STATE_HEADER" "url_is p c2"
    and v2: "m_content_length c2 = headers_length 0 hs" "m_read_idx c2 = m_read_idx c" by metis
  note e = end_of_headers_iter [OF c2]
  let ?c3 = "cut_line [] c2\<lparr>m_check_state := CHECK_STATE_CONTENT\<rparr>"
  show thesis
  proof (rule that [of ?c3])
    show "process_read fs c = process_read_loop fs LINE_OK ?c3"
      using it eq e(1) v2 assms(6) by (simp add: process_read_def process_read_loop_unfold [of fs LINE_OK c]
          process_read_loop_unfold [of fs LINE_OK c2])
    show "at_line ?c3" "url_is p ?c3" "unread ?c3 = body"
      using e(2-4) by (simp_all add: at_line_def url_is_def unread_def)
  qed (use e(6,7) v2 in simp_all)
qed

lemma negative_length_fault:
  assumes "fresh_conn c" and "unread c = rl @ CRLF @ lines_bytes hs @ CRLF @ body"
    and "clean_line rl" and "request_path rl = Some p" and "\<forall>h \<in> set hs. clean_line h \<and> h \<noteq> []"
    and "headers_length 0 hs + int (m_read_idx c - length body) < 0"
  shows "process_read fs c = Inl Out_Of_Bounds"
proof -
  from assms(6) have nz: "headers_length 0 hs \<noteq> 0" by linarith
  obtain c1 where eq: "process_read fs c = process_read_loop fs LINE_OK c1"
    and c1: "at_line c1" "unread c1 = body" "m_check_state c1 = CHECK_STATE_CONTENT"
      "m_content_length c1 = headers_length 0 hs" "m_read_idx c1 = m_read_idx c"
    by (rule reach_body [OF fresh_new [OF assms(1)] assms(2-5) nz, of fs])
  have "m_start_line c1 = m_read_idx c - length body"
    using c1 length_unread [of c1] by (simp add: at_line_def)
  with c1 assms(1,6) headers_length_range [of 0 hs] show ?thesis
    unfolding eq by (intro body_negative) (simp_all add: fresh_conn_def)
qed

definition sample_negative :: string where
  "sample_negative = ''GET / HTTP/1.1'' @ CRLF @ ''Content-Length: -9999'' @ CRLF @ CRLF"

lemma sample_negative_header: "header_of ''Content-Length: -9999'' = Content_Length (- 9999)"
  by code_simp

lemma sample_negative_facts:
  defines "c \<equiv> recv_store sample_negative (init_conn sample_conn)"
  shows "fresh_conn c" and "clean_line ''GET / HTTP/1.1''" and "request_path ''GET / HTTP/1.1'' = Some ''/''"
    and "unread c = ''GET / HTTP/1.1'' @ CRLF @ lines_bytes [''Content-Length: -9999''] @ CRLF @ []"
    and "\<forall>h \<in> set [''Content-Length: -9999'']. clean_line h \<and> h \<noteq> []"
    and "headers_length 0 [''Content-Length: -9999''] + int (m_read_idx c - length []) < 0"
    and "m_read_idx c < READ_BUFFER_SIZE"
proof -
  have len: "length sample_negative < READ_BUFFER_SIZE" by (simp add: sample_negative_def)
  show "fresh_conn c" using fresh_after_init(1) [OF len] by (simp add: c_def)
  show "unread c = ''GET / HTTP/1.1'' @ CRLF @ lines_bytes [''Content-Length: -9999''] @ CRLF @ []"
    using fresh_after_init(2) [OF len] by (simp add: c_def sample_negative_def)
  show "request_path ''GET / HTTP/1.1'' = Some ''/''" by code_simp
qed (simp_all add: c_def clean_line_def sample_negative_header recv_store_def init_conn_def sample_negative_def)

text \<open>
  The other side: a request whose Content-Length is negative and points before the buffer
  makes \<open>parse_content\<close> store outside of \<open>m_read_buf\<close>.
\<close>

theorem negative_length_out_of_bounds:
  assumes "fresh_conn c" and "unread c = rl @ CRLF @ lines_bytes hs @ CRLF @ body"
    and "clean_line rl" and "request_path rl = Some p" and "\<forall>h \<in> set hs. clean_line h \<and> h \<noteq> []"
    and "headers_length 0 hs + int (m_read_idx c - length body) < 0"
  shows "process_read fs c = Inl Out_Of_Bounds"
  by (rule negative_length_fault [OF assms])

theorem negative_length_out_of_bounds_witness:
  "process_read sample_fs (recv_store sample_negative (init_conn sample_conn)) = Inl Out_Of_Bounds"
  by (rule negative_length_out_of_bounds [OF sample_negative_facts(1,4,2,3,5,6)])

theorem process_read_fault_by_length_witness:
  "\<exists>ls' c'. (read_step sample_fs)\<^sup>*\<^sup>*
       (LINE_OK, recv_store sample_negative (init_conn sample_conn)) (ls', c') \<and>
     m_check_state c' = CHECK_STATE_CONTENT \<and>
     (m_content_length c' < 0 \<or> INT_MAX - int READ_BUFFER_SIZE < m_content_length c')"
proof -
  let ?c = "recv_store sample_negative (init_conn sample_conn)"
  have "conn_inv ?c" using sample_negative_facts(1) by (rule fresh_conn_inv)
  moreover have "process_read sample_fs ?c = Inl Out_Of_Bounds"
    by (rule negative_length_fault [OF sample_negative_facts(1,4,2,3,5,6)])
  ultimately show ?thesis
    using process_read_fault_by_length [of ?c sample_fs Out_Of_Bounds] sample_negative_facts(7) by simp
qed

lemma strlen_at_no_nul:
  assumes "\<And>k. i + k < n \<Longrightarrow> b (i + k) \<noteq> NUL"
  shows "strlen_at n b i = Inl Out_Of_Bounds"
proof -
  have "scan n b (\<lambda>c. c = NUL) i = Inl Out_Of_Bounds"
    using assms
  proof (induction n b "\<lambda>c. c = NUL" i rule: scan.induct)
    case (1 n b i)
    then show ?case
      using "1.prems" [of 0] "1.prems" [of "Suc _"] by (auto simp: scan.simps [of n b _ i] peek_def)
  qed
  then show ?thesis by (simp add: strlen_at_def)
qed

lemma full_buffer_fault:
  assumes "new_conn c" and "unread c = rl @ CRLF @ lines_bytes hs @ CRLF @ body"
    and "clean_line rl" and "request_path rl = Some p" and "\<forall>h \<in> set hs. clean_line h \<and> h \<noteq> []"
    and "headers_length 0 hs \<noteq> 0" and "m_read_idx c = READ_BUFFER_SIZE" and "NUL \<notin> set body"
  shows "process_read fs c = Inl Out_Of_Bounds"
proof -
  obtain c1 where eq: "process_read fs c = process_read_loop fs LINE_OK c1"
    and c1: "at_line c1" "unread c1 = body" "m_check_state c1 = CHECK_STATE_CONTENT" "m_read_idx c1 = m_read_idx c"
    by (rule reach_body [OF assms(1-6), of fs])
  have le: "m_checked_index c1 \<le> READ_BUFFER_SIZE" using c1 assms(7) by (simp add: at_line_def)
  have nn: "m_read_buf c1 (m_checked_index c1 + k) \<noteq> NUL" if "m_checked_index c1 + k < READ_BUFFER_SIZE" for k
  proof -
    have "k < length body" using that c1 assms(7) length_unread [of c1] by simp
    moreover from this have "body ! k = m_read_buf c1 (m_checked_index c1 + k)"
      using c1 assms(7) that by (auto simp: unread_def slice_nth)
    ultimately show ?thesis using assms(8) nth_mem by metis
  qed
  have "strlen_at READ_BUFFER_SIZE (m_read_buf c1) (m_checked_index c1) = Inl Out_Of_Bounds"
    by (rule strlen_at_no_nul) (rule nn)
  with c1 show ?thesis
    unfolding eq by (simp add: process_read_loop_unfold process_read_iter_dispatch dispatch_def Let_def at_line_def)
qed


definition sample_full :: string where
  "sample_full = ''GET / HTTP/1.1'' @ CRLF @ ''Content-Length: 4'' @ CRLF @ CRLF @ replicate 2011 CHR ''a''"

lemma sample_full_facts:
  defines "c \<equiv> recv_store sample_full (init_conn sample_conn)"
  shows "new_conn c"
    and "unread c = ''GET / HTTP/1.1'' @ CRLF @ lines_bytes [''Content-Length: 4''] @ CRLF @ replicate 2011 CHR ''a''"
    and "\<forall>h \<in> set [''Content-Length: 4'']. clean_line h \<and> h \<noteq> []" and "headers_length 0 [''Content-Length: 4''] \<noteq> 0"
    and "m_read_idx c = READ_BUFFER_SIZE" and "NUL \<notin> set (replicate 2011 CHR ''a'')"
proof -
  have len: "length sample_full = 2048" by (simp add: sample_full_def)
  have "header_of ''Content-Length: 4'' = Content_Length 4" by code_simp
  then show "headers_length 0 [''Content-Length: 4''] \<noteq> 0" by simp
  show "new_conn c"
    and "unread c = ''GET / HTTP/1.1'' @ CRLF @ lines_bytes [''Content-Length: 4''] @ CRLF @ replicate 2011 CHR ''a''"
    using new_after_init [of sample_full] len by (simp_all add: c_def sample_full_def)
  show "m_read_idx c = READ_BUFFER_SIZE" using len by (simp add: c_def recv_store_def init_conn_def)
qed (simp_all add: clean_line_def)

lemmas sample_full_fault =
  full_buffer_fault [OF sample_full_facts(1,2) sample_negative_facts(2,3) sample_full_facts(3-6), of sample_fs]


text \<open>
  The main loop ends: no connection allows an infinite sequence of iterations, whatever the
  bytes in its buffer.
\<close>

theorem process_read_terminates: "wfp (\<lambda>s' s. read_step fs s s')"
proof (rule wfp_if_convertible_to_nat)
  fix s' s assume "read_step fs s s'"
  then show "(\<lambda>(ls, c). read_measure ls c) s' < (\<lambda>(ls, c). read_measure ls c) s"
    by (cases s; cases s') (auto elim!: read_stepE dest: process_read_iter_decreases)
qed

text \<open>A line that is broken by a bare LF.\<close>

lemma parse_line_bad:
  assumes "unread c = l @ LF # rest" and "l \<noteq> []" and "CR \<notin> set l" and "LF \<notin> set l"
    and "m_read_idx c \<le> READ_BUFFER_SIZE"
  shows "parse_line c = Inr (LINE_BAD, c\<lparr>m_checked_index := m_checked_index c + length l\<rparr>)"
  using assms
proof (induction l arbitrary: c)
  case Nil
  then show ?case by simp
next
  case (Cons x l)
  let ?c = "c\<lparr>m_checked_index := Suc (m_checked_index c)\<rparr>"
  have u: "unread c = x # (l @ LF # rest)" using Cons.prems by simp
  have x: "x \<noteq> CR" "x \<noteq> LF" using Cons.prems by auto
  have skip: "parse_line c = parse_line ?c" using u x Cons.prems(5) by (rule parse_line_skip)
  show ?case
  proof (cases "l = []")
    case True
    with unread_Cons(3) [OF u] have "unread ?c = LF # rest" by simp
    from unread_Cons [OF this] unread_Cons(2) [OF u] x True Cons.prems(5) skip show ?thesis
      by (simp add: parse_line.simps [of ?c] Let_def peek_def)
  next
    case False
    with Cons.IH [of ?c] unread_Cons(3) [OF u] Cons.prems skip show ?thesis by simp
  qed
qed

lemma recv_store_below: "i < m_read_idx c \<Longrightarrow> m_read_buf (recv_store s c) i = m_read_buf c i"
  by (simp add: recv_store_def blit_below)

text \<open>
  A request line broken by a bare line feed is never answered: the scanner reports LINE_BAD,
  \<open>process_read\<close> returns NO_REQUEST and asks for more input, and whatever input follows, it keeps
  doing so without moving on.
\<close>

theorem broken_line_never_answered:
  assumes "fresh_conn c" and "unread c = l @ LF # rest" and "l \<noteq> []" and "CR \<notin> set l" and "LF \<notin> set l"
  shows "\<exists>c'. process_read fs c = Inr (NO_REQUEST, c') \<and>
           (\<forall>s. process_read fs (recv_store s c') = Inr (NO_REQUEST, recv_store s c'))"
proof -
  let ?i = "m_checked_index c + length l"
  let ?c = "c\<lparr>m_checked_index := ?i\<rparr>"
  have sz: "m_read_idx c \<le> READ_BUFFER_SIZE" and st: "m_check_state c = CHECK_STATE_REQUESTLINE"
    using assms(1) by (simp_all add: fresh_conn_def new_conn_def)
  have bytes: "m_read_buf c (m_checked_index c + k) = (l @ LF # rest) ! k" if "k < length (l @ LF # rest)" for k
    using that assms(2) [symmetric] by (simp add: unread_def slice_nth)
  have lt: "?i < m_read_idx c" using arg_cong [OF assms(2), of length] by (simp add: length_unread)
  have lf: "m_read_buf c ?i = LF" using bytes [of "length l"] by simp
  have prev: "m_read_buf c (?i - 1) \<noteq> CR"
  proof -
    have k: "length l - 1 < length l" using assms(3) by simp
    then have "l ! (length l - 1) \<noteq> CR" using assms(4) nth_mem by metis
    moreover have "m_checked_index c + (length l - 1) = ?i - 1" using k by simp
    ultimately show ?thesis using bytes [of "length l - 1"] k by (simp add: nth_append)
  qed
  have "process_read fs c = Inr (NO_REQUEST, ?c)"
    using parse_line_bad [OF assms(2-5) sz] st
    by (simp add: process_read_def process_read_loop_unfold process_read_iter_dispatch)
  moreover have "process_read fs (recv_store s ?c) = Inr (NO_REQUEST, recv_store s ?c)" for s
  proof -
    let ?d = "recv_store s ?c"
    have "m_checked_index ?d = ?i" "?i < m_read_idx ?d" "m_check_state ?d = CHECK_STATE_REQUESTLINE"
      using lt st by (simp_all add: recv_store_def)
    moreover have "m_read_buf ?d ?i = LF" "m_read_buf ?d (?i - 1) \<noteq> CR"
      using recv_store_below [of _ ?c s] lt lf prev by simp_all
    ultimately have "parse_line ?d = Inr (LINE_BAD, ?d)"
      using lt sz by (simp add: parse_line.simps [of ?d] Let_def peek_def)
    then show ?thesis
      using st by (simp add: process_read_def process_read_loop_unfold process_read_iter_dispatch recv_store_def)
  qed
  ultimately show ?thesis by blast
qed

theorem broken_line_never_answered_witness:
  "\<exists>c'. process_read sample_fs (recv_store (''GET / HTTP/1.1'' @ [LF]) (init_conn sample_conn)) = Inr (NO_REQUEST, c') \<and>
     (\<forall>s. process_read sample_fs (recv_store s c') = Inr (NO_REQUEST, recv_store s c'))"
  by (rule broken_line_never_answered [of _ "''GET / HTTP/1.1''" "[]"]) (simp_all add: fresh_after_init)

text \<open>The scanner and a body that is not there yet.\<close>

lemma body_wait:
  assumes c: "conn_inv c" and room: "m_read_idx c < READ_BUFFER_SIZE" and st: "m_check_state c = CHECK_STATE_CONTENT"
    and len: "int (length (unread c)) < m_content_length c" "m_content_length c \<le> INT_MAX - int READ_BUFFER_SIZE"
    and un: "CR \<notin> set (unread c)" "LF \<notin> set (unread c)"
  shows "process_read_loop fs LINE_OK c =
     Inr (NO_REQUEST, c\<lparr>m_start_line := m_checked_index c, m_checked_index := m_read_idx c\<rparr>)"
proof -
  let ?c = "c\<lparr>m_start_line := m_checked_index c\<rparr>"
  have le: "m_checked_index c \<le> m_read_idx c" "m_read_idx c \<le> READ_BUFFER_SIZE" using c by (simp_all add: conn_inv_def)
  have "parse_content (m_start_line c) ?c = Inr (NO_REQUEST, ?c)"
    using len le by (simp add: parse_content_def add_int_def length_unread)
  moreover obtain l where "strlen_at READ_BUFFER_SIZE (m_read_buf c) (m_start_line c) = Inr l"
    using terminated_by_fill [OF c room, of "m_start_line c"] c by (auto simp: conn_inv_def)
  ultimately have "process_read_iter fs LINE_OK c = Inr (Continue LINE_OPEN ?c)"
    using st by (simp add: process_read_iter_dispatch dispatch_def Let_def)
  moreover have "parse_line ?c = Inr (LINE_OPEN, ?c\<lparr>m_checked_index := m_read_idx c\<rparr>)"
    using parse_line_partial [of ?c] un le by (simp add: unread_def)
  then have "process_read_iter fs LINE_OPEN ?c = Inr (Return NO_REQUEST (?c\<lparr>m_checked_index := m_read_idx c\<rparr>))"
    by (simp add: process_read_iter_dispatch)
  ultimately show ?thesis by (simp add: process_read_loop_unfold)
qed

lemma conn_inv_recv_store:
  assumes "conn_inv c" and "m_read_idx c + length s \<le> READ_BUFFER_SIZE"
  shows "conn_inv (recv_store s c)"
proof -
  let ?b = "blit (m_read_buf c) (m_read_idx c) s"
  have low: "?b i = m_read_buf c i" if "i < m_read_idx c" for i using that by (simp add: blit_below)
  have high: "?b i = NUL" if "m_read_idx c + length s \<le> i" "i < READ_BUFFER_SIZE" for i
    using that assms(1) by (simp add: blit_above conn_inv_def)
  have "terminated_before ?b u (m_start_line c)" if "terminated_before (m_read_buf c) u (m_start_line c)" for u
  proof -
    have "m_start_line c \<le> m_read_idx c" using assms(1) by (simp add: conn_inv_def)
    with that low show ?thesis unfolding terminated_before_def by (metis order_less_le_trans)
  qed
  with high assms show ?thesis by (auto simp: conn_inv_def recv_store_def)
qed

lemma unread_recv_store:
  assumes "m_checked_index c = m_read_idx c"
  shows "unread (recv_store s c) = s"
  using assms slice_blit [of "m_read_buf c" "m_read_idx c" s] by (simp add: unread_def recv_store_def)

lemma body_state_inv:
  assumes "at_line c" and "url_is p c"
  shows "conn_inv c"
proof -
  from assms(2) obtain k where "m_url c = Some k" "m_read_buf c (k + length p) = NUL" "k + length p < m_start_line c"
    by (auto simp: url_is_def cstr_at_def)
  then have "\<exists>u. m_url c = Some u \<and> terminated_before (m_read_buf c) u (m_start_line c)"
    by (auto simp: terminated_before_def intro!: exI [of _ "k + length p"])
  with assms(1) show ?thesis by (simp add: at_line_def conn_inv_def)
qed


definition sample_post_head :: string where
  "sample_post_head = ''GET / HTTP/1.1'' @ CRLF @ ''Content-Length: 4'' @ CRLF @ CRLF @ ''ab''"

lemma sample_length_header: "header_of ''Content-Length: 4'' = Content_Length 4"
  by code_simp


end
