(* ===== verification/Http_Response.thy ===== *)
theory Http_Response
  imports Http_Parse_Correct
begin

text \<open>
  The response half of \<open>http_conn\<close> (\<open>1. Proactor/http_conn.cpp\<close>): the functions that format into
  \<open>m_write_buf\<close> and \<open>process_write\<close>, which turns the code of a request into a status line,
  headers, a body and the two entries of \<open>m_iv\<close>. The lemmas say that formatting stays inside the
  1024 bytes of the buffer whatever it is given, and what bytes each code produces.
\<close>

section \<open>Formatting\<close>

text \<open>The conversion \<open>%d\<close>.\<close>

fun show_nat :: "nat \<Rightarrow> string" where
  "show_nat n = (if n < 10 then [char_of (48 + n)] else show_nat (n div 10) @ [char_of (48 + n mod 10)])"

declare show_nat.simps [simp del]

definition show_int :: "int \<Rightarrow> string" where
  "show_int i = (if i < 0 then CHR ''-'' # show_nat (nat (- i)) else show_nat (nat i))"

text \<open>
  \<open>vsnprintf\<close> into an array of \<open>n\<close> bytes, from index \<open>i\<close>, with the bound \<open>maxlen\<close> and the formatted
  text \<open>s\<close>: at most \<open>maxlen - 1\<close> characters and a NUL are stored; the result is the length of \<open>s\<close>.
\<close>

definition vsnprintf :: "nat \<Rightarrow> cbuf \<Rightarrow> nat \<Rightarrow> nat \<Rightarrow> string \<Rightarrow> (nat \<times> cbuf) res" where
  "vsnprintf n b i maxlen s =
     (if maxlen = 0 then Inr (length s, b)
      else let out = take (maxlen - 1) s @ [NUL] in
        if i + length out \<le> n then Inr (length s, blit b i out) else Inl Out_Of_Bounds)"

definition add_response :: "string \<Rightarrow> http_conn \<Rightarrow> (bool \<times> http_conn) res" where
  "add_response s c =
     (if WRITE_BUFFER_SIZE \<le> m_write_idx c then Inr (False, c)
      else
        bindr (vsnprintf WRITE_BUFFER_SIZE (m_write_buf c) (m_write_idx c)
                 (WRITE_BUFFER_SIZE - 1 - m_write_idx c) s) (\<lambda>(len, b).
        let c = c\<lparr>m_write_buf := b\<rparr> in
        if WRITE_BUFFER_SIZE - 1 - m_write_idx c \<le> len then Inr (False, c)
        else Inr (True, c\<lparr>m_write_idx := m_write_idx c + len\<rparr>)))"

definition add_status_line :: "int \<Rightarrow> string \<Rightarrow> http_conn \<Rightarrow> (bool \<times> http_conn) res" where
  "add_status_line status title = add_response (''HTTP/1.1'' @ '' '' @ show_int status @ '' '' @ title @ CRLF)"

definition add_content_length :: "int \<Rightarrow> http_conn \<Rightarrow> (bool \<times> http_conn) res" where
  "add_content_length content_len = add_response (''Content-Length: '' @ show_int content_len @ CRLF)"

definition add_content_type :: "http_conn \<Rightarrow> (bool \<times> http_conn) res" where
  "add_content_type = add_response (''Content-Type:'' @ ''text/html'' @ CRLF)"

definition add_linger :: "http_conn \<Rightarrow> (bool \<times> http_conn) res" where
  "add_linger c = add_response (''Connection: '' @ (if m_linger c then ''keep-alive'' else ''close'') @ CRLF) c"

definition add_blank_line :: "http_conn \<Rightarrow> (bool \<times> http_conn) res" where
  "add_blank_line = add_response CRLF"

definition add_content :: "string \<Rightarrow> http_conn \<Rightarrow> (bool \<times> http_conn) res" where
  "add_content content = add_response content"

text \<open>
  \<open>add_headers\<close> is declared to return \<open>bool\<close> and has no \<open>return\<close> statement; its callers ignore the
  value, so the definition yields only the connection.
\<close>

definition add_headers :: "int \<Rightarrow> http_conn \<Rightarrow> http_conn res" where
  "add_headers content_len c =
     bindr (add_content_length content_len c) (\<lambda>(_, c).
     bindr (add_content_type c) (\<lambda>(_, c).
     bindr (add_linger c) (\<lambda>(_, c).
     bindr (add_blank_line c) (\<lambda>(_, c). Inr c))))"

section \<open>The response to a request\<close>

definition ok_200_title :: string where
  "ok_200_title = ''OK''"

definition error_400_title :: string where
  "error_400_title = ''Bad Request''"

definition error_400_form :: string where
  "error_400_form = ''Your request has bad syntax or is inherently impossible to satisfy.'' @ [LF]"

definition error_403_title :: string where
  "error_403_title = ''Forbidden''"

definition error_403_form :: string where
  "error_403_form = ''You do not have permission to get file from this server.'' @ [LF]"

definition error_404_title :: string where
  "error_404_title = ''Not Found''"

definition error_404_form :: string where
  "error_404_form = ''The requested file was not found on this server.'' @ [LF]"

definition error_500_title :: string where
  "error_500_title = ''Internal Error''"

definition error_500_form :: string where
  "error_500_form = ''There was an unusual problem serving the requested file.'' @ [LF]"

lemmas page_defs = ok_200_title_def error_400_title_def error_400_form_def error_403_title_def
  error_403_form_def error_404_title_def error_404_form_def error_500_title_def error_500_form_def

text \<open>The four error branches of the switch differ in the number, the title and the form only.\<close>

definition write_page :: "int \<Rightarrow> string \<Rightarrow> string \<Rightarrow> http_conn \<Rightarrow> (bool \<times> http_conn) res" where
  "write_page status title form c =
     bindr (add_status_line status title c) (\<lambda>(_, c).
     bindr (add_headers (int (length form)) c) (\<lambda>c.
     bindr (add_content form c) (\<lambda>(ok, c).
     if \<not> ok then Inr (False, c)
     else Inr (True, c\<lparr>m_iv := (m_iv c)[0 := \<lparr>iov_base = Iov_Write_Buf, iov_len = m_write_idx c\<rparr>],
                      m_iv_count := 1\<rparr>))))"

definition process_write :: "HTTP_CODE \<Rightarrow> http_conn \<Rightarrow> (bool \<times> http_conn) res" where
  "process_write ret c =
     (case ret of
        INTERNAL_ERROR \<Rightarrow> write_page 500 error_500_title error_500_form c
      | BAD_REQUEST \<Rightarrow> write_page 400 error_400_title error_400_form c
      | NO_RESOURCE \<Rightarrow> write_page 404 error_404_title error_404_form c
      | FORBIDDEN_REQUEST \<Rightarrow> write_page 403 error_403_title error_403_form c
      | FILE_REQUEST \<Rightarrow>
          bindr (add_status_line 200 ok_200_title c) (\<lambda>(_, c).
          bindr (add_headers (to_int32 (st_size (m_file_stat c))) c) (\<lambda>c.
          Inr (True, c\<lparr>m_iv := (m_iv c)
                 [0 := \<lparr>iov_base = Iov_Write_Buf, iov_len = m_write_idx c\<rparr>,
                  1 := \<lparr>iov_base = Iov_File (m_file_address c),
                        iov_len = nat (st_size (m_file_stat c) mod 2 ^ 64)\<rparr>],
               m_iv_count := 2\<rparr>)))
      | _ \<Rightarrow> Inr (False, c))"

section \<open>The write buffer\<close>

definition write_inv :: "http_conn \<Rightarrow> bool" where
  "write_inv c \<longleftrightarrow> m_write_idx c < WRITE_BUFFER_SIZE - 1"

text \<open>The bytes waiting to be sent.\<close>

definition written :: "http_conn \<Rightarrow> char list" where
  "written c = slice (m_write_buf c) 0 (m_write_idx c)"

text \<open>Formatting changes the write buffer and its index only.\<close>

definition write_frame :: "http_conn \<Rightarrow> http_conn \<Rightarrow> bool" where
  "write_frame c c' \<longleftrightarrow> m_linger c' = m_linger c \<and> m_file_stat c' = m_file_stat c \<and>
     m_file_address c' = m_file_address c \<and> m_iv c' = m_iv c \<and> m_iv_count c' = m_iv_count c \<and>
     m_sockfd c' = m_sockfd c \<and> m_read_buf c' = m_read_buf c \<and> m_read_idx c' = m_read_idx c \<and>
     m_real_file c' = m_real_file c \<and> m_start_line c' = m_start_line c \<and> m_checked_index c' = m_checked_index c \<and>
     m_check_state c' = m_check_state c \<and> m_url c' = m_url c"

lemma write_frame_refl [simp]: "write_frame c c"
  by (simp add: write_frame_def)

lemma write_frame_trans: "write_frame c c' \<Longrightarrow> write_frame c' c'' \<Longrightarrow> write_frame c c''"
  by (simp add: write_frame_def)

lemma add_response_fits:
  assumes "m_write_idx c + length s < WRITE_BUFFER_SIZE - 1"
  obtains c' where "add_response s c = Inr (True, c')" and "written c' = written c @ s"
    and "m_write_idx c' = m_write_idx c + length s" and "write_frame c c'"
proof -
  let ?i = "m_write_idx c"
  let ?c = "c\<lparr>m_write_buf := blit (m_write_buf c) ?i (s @ [NUL]), m_write_idx := ?i + length s\<rparr>"
  have "slice (blit (m_write_buf c) ?i (s @ [NUL])) 0 (?i + length s) = slice (m_write_buf c) 0 ?i @ s"
    by (subst slice_split [of 0 ?i]) (simp_all add: blit_append slice_blit slice_blit_below)
  then show thesis
    using assms by (intro that [of ?c]) (simp_all add: add_response_def vsnprintf_def written_def write_frame_def Let_def)
qed

lemma add_response_full:
  assumes "WRITE_BUFFER_SIZE - 1 \<le> m_write_idx c + length s"
  obtains c' where "add_response s c = Inr (False, c')" and "m_write_idx c' = m_write_idx c"
    and "written c' = written c" and "write_frame c c'"
proof -
  let ?i = "m_write_idx c" and ?n = "WRITE_BUFFER_SIZE - 1 - m_write_idx c"
  show thesis
  proof (cases "?i < WRITE_BUFFER_SIZE - 1")
    case True
    let ?c = "c\<lparr>m_write_buf := blit (m_write_buf c) ?i (take (?n - 1) s @ [NUL])\<rparr>"
    have "?i + (length (take (?n - 1) s) + 1) \<le> WRITE_BUFFER_SIZE" using True by auto
    then show thesis
      using True assms by (intro that [of ?c])
        (auto simp: add_response_def vsnprintf_def Let_def written_def write_frame_def slice_blit_below)
  next
    case False
    then show thesis
      using assms by (intro that [of c]) (auto simp: add_response_def vsnprintf_def Let_def)
  qed
qed

lemma add_response_safe:
  "wp (\<lambda>(ok, c'). (write_inv c \<longrightarrow> write_inv c') \<and> write_frame c c' \<and> (ok \<longrightarrow> write_inv c') \<and>
         written c' = written c @ (if ok then s else [])) (add_response s c)"
proof (cases "m_write_idx c + length s < WRITE_BUFFER_SIZE - 1")
  case True
  from add_response_fits [OF this] obtain c' where "add_response s c = Inr (True, c')" "written c' = written c @ s"
    "m_write_idx c' = m_write_idx c + length s" "write_frame c c'" .
  with True show ?thesis by (simp add: write_inv_def)
next
  case False
  then have "WRITE_BUFFER_SIZE - 1 \<le> m_write_idx c + length s" by simp
  from add_response_full [OF this] obtain c' where "add_response s c = Inr (False, c')"
    "m_write_idx c' = m_write_idx c" "written c' = written c" "write_frame c c'" .
  then show ?thesis by (simp add: write_inv_def)
qed

lemmas add_defs = add_status_line_def add_content_length_def add_content_type_def add_linger_def
  add_blank_line_def add_content_def

text \<open>Every one of them returns, inside the buffer.\<close>

definition keeps_writing :: "http_conn \<Rightarrow> bool \<times> http_conn \<Rightarrow> bool" where
  "keeps_writing c = (\<lambda>(ok, c'). (write_inv c \<longrightarrow> write_inv c') \<and> write_frame c c')"

lemma add_total:
  "wp (keeps_writing c) (add_status_line st title c)" "wp (keeps_writing c) (add_content_length n c)"
  "wp (keeps_writing c) (add_content_type c)" "wp (keeps_writing c) (add_linger c)"
  "wp (keeps_writing c) (add_blank_line c)" "wp (keeps_writing c) (add_content form c)"
proof -
  have "wp (keeps_writing c) (add_response s c)" for s
    using add_response_safe by (rule wp_mono) (auto simp: keeps_writing_def)
  then show "wp (keeps_writing c) (add_status_line st title c)" "wp (keeps_writing c) (add_content_length n c)"
    "wp (keeps_writing c) (add_content_type c)" "wp (keeps_writing c) (add_linger c)"
    "wp (keeps_writing c) (add_blank_line c)" "wp (keeps_writing c) (add_content form c)"
    unfolding add_defs by blast+
qed

lemma keeps_writingE:
  assumes "wp (keeps_writing c) r"
  obtains ok c' where "r = Inr (ok, c')" and "keeps_writing c (ok, c')"
  using assms by (auto simp: wp_iff)

lemma keeps_writing_trans: "keeps_writing c (ok, c') \<Longrightarrow> keeps_writing c' r \<Longrightarrow> keeps_writing c r"
  by (auto simp: keeps_writing_def intro: write_frame_trans)

lemma add_headers_total: "wp (\<lambda>c'. keeps_writing c (True, c')) (add_headers n c)"
proof -
  obtain k1 c1 where 1: "add_content_length n c = Inr (k1, c1)" "keeps_writing c (k1, c1)"
    using add_total(2) by (rule keeps_writingE)
  obtain k2 c2 where 2: "add_content_type c1 = Inr (k2, c2)" "keeps_writing c1 (k2, c2)"
    using add_total(3) by (rule keeps_writingE)
  obtain k3 c3 where 3: "add_linger c2 = Inr (k3, c3)" "keeps_writing c2 (k3, c3)"
    using add_total(4) by (rule keeps_writingE)
  obtain k4 c4 where 4: "add_blank_line c3 = Inr (k4, c4)" "keeps_writing c3 (k4, c4)"
    using add_total(5) by (rule keeps_writingE)
  have "keeps_writing c (k4, c4)" by (rule keeps_writing_trans [OF 1(2) keeps_writing_trans [OF 2(2) keeps_writing_trans [OF 3(2) 4(2)]]])
  then show ?thesis by (simp add: add_headers_def 1(1) 2(1) 3(1) 4(1) keeps_writing_def)
qed

section \<open>Numbers\<close>

lemma show_nat_length: "n < 10 ^ k \<Longrightarrow> 0 < k \<Longrightarrow> length (show_nat n) \<le> k"
proof (induction n arbitrary: k rule: show_nat.induct)
  case (1 n)
  show ?case
  proof (cases "n < 10")
    case True
    with 1(3) show ?thesis by (simp add: show_nat.simps [of n])
  next
    case False
    from 1(3) obtain j where j: "k = Suc j" by (cases k) auto
    with False 1(2) have "0 < j" by (cases j) auto
    moreover have "n div 10 < 10 ^ j" using 1(2) j by (simp add: less_mult_imp_div_less mult.commute)
    ultimately show ?thesis using 1(1) [of j] False j by (simp add: show_nat.simps [of n])
  qed
qed

lemma show_int_length: "INT_MIN \<le> i \<Longrightarrow> i \<le> INT_MAX \<Longrightarrow> length (show_int i) \<le> 11"
  using show_nat_length [of "nat (- i)" 10] show_nat_length [of "nat i" 11]
  by (auto simp: show_int_def)

lemma of_char_digit [simp]: "d < 10 \<Longrightarrow> of_char (char_of (48 + d) :: char) = (48 + d :: nat)"
  by simp

lemma isdigit_digit [simp]: "d < 10 \<Longrightarrow> isdigit (char_of (48 + d :: nat))"
  by (simp add: isdigit_def)

lemma digit_val_digit [simp]: "d < 10 \<Longrightarrow> digit_val (char_of (48 + d :: nat)) = int d"
proof -
  assume d: "d < 10"
  have "(of_char (char_of (48 + d) :: char) :: int) = int (of_char (char_of (48 + d) :: char) :: nat)"
    by (simp only: of_nat_of_char)
  with d show ?thesis by (simp add: digit_val_def)
qed

lemma show_nat_digits: "c \<in> set (show_nat n) \<Longrightarrow> isdigit c"
proof (induction n rule: show_nat.induct)
  case (1 n)
  show ?case
  proof (cases "n < 10")
    case True
    with 1(2) show ?thesis by (simp add: show_nat.simps [of n])
  next
    case False
    with 1(2) consider "c \<in> set (show_nat (n div 10))" | "c = char_of (48 + n mod 10)"
      by (auto simp: show_nat.simps [of n])
    then show ?thesis
      using 1(1) False by cases simp_all
  qed
qed

lemma dec_value_snoc: "dec_value (ds @ [c]) = 10 * dec_value ds + digit_val c"
  by (simp add: dec_value_def)

lemma dec_value_show_nat: "dec_value (show_nat n) = int n"
proof (induction n rule: show_nat.induct)
  case (1 n)
  show ?case
  proof (cases "n < 10")
    case True
    then show ?thesis by (simp add: show_nat.simps [of n] dec_value_def)
  next
    case False
    with 1 have "dec_value (show_nat n) = 10 * int (n div 10) + int (n mod 10)"
      by (simp add: show_nat.simps [of n] dec_value_snoc)
    also have "\<dots> = int (10 * (n div 10) + n mod 10)" by (simp only: of_nat_add of_nat_mult of_nat_numeral)
    also have "10 * (n div 10) + n mod 10 = n" by simp
    finally show ?thesis .
  qed
qed

lemma show_nat_nonempty: "show_nat n \<noteq> []"
  by (simp add: show_nat.simps [of n])

text \<open>\<open>atol\<close> reads back what \<open>%d\<close> prints.\<close>

lemma isdigit_not_space: "isdigit c \<Longrightarrow> \<not> isspace c \<and> c \<noteq> CHR ''-'' \<and> c \<noteq> CHR ''+'' \<and> c \<noteq> SP \<and> c \<noteq> TAB"
  by (auto simp: isdigit_def isspace_def)

lemma atol_value_show_int:
  assumes "LONG_MIN \<le> i" and "i \<le> LONG_MAX"
  shows "atol_value (show_int i) = i"
proof -
  have tw: "takeWhile isdigit (show_nat n) = show_nat n" for n
    using show_nat_digits by (simp add: takeWhile_eq_all_conv)
  show ?thesis
  proof (cases "i < 0")
    case True
    then have "dropWhile isspace (show_int i) = show_int i" by (simp add: show_int_def isspace_def)
    with True assms show ?thesis
      by (simp add: atol_value_def show_int_def tw dec_value_show_nat clamp_long_def)
  next
    case False
    obtain d ds where s: "show_nat (nat i) = d # ds" using show_nat_nonempty by (cases "show_nat (nat i)") auto
    with show_nat_digits [of d "nat i"] have d: "isdigit d" by simp
    then have "dropWhile isspace (show_int i) = d # ds"
      using False s isdigit_not_space by (simp add: show_int_def)
    moreover have "dec_value (takeWhile isdigit (d # ds)) = i"
      using tw [of "nat i"] dec_value_show_nat [of "nat i"] False unfolding s by simp
    ultimately show ?thesis
      using isdigit_not_space [OF d] assms by (simp add: atol_value_def clamp_long_def Let_def)
  qed
qed

section \<open>What is sent\<close>

text \<open>The response as lines of text: the reference for the bytes in the buffer.\<close>

definition header_lines :: "int \<Rightarrow> bool \<Rightarrow> string list" where
  "header_lines len linger =
     [''Content-Length: '' @ show_int len, ''Content-Type:text/html'',
      ''Connection: '' @ (if linger then ''keep-alive'' else ''close'')]"

definition status_line :: "int \<Rightarrow> string \<Rightarrow> string" where
  "status_line status title = ''HTTP/1.1 '' @ show_int status @ '' '' @ title"

definition response_head :: "int \<Rightarrow> string \<Rightarrow> int \<Rightarrow> bool \<Rightarrow> string" where
  "response_head status title len linger = lines_bytes (status_line status title # header_lines len linger) @ CRLF"

text \<open>The page an error code is answered with: number, title and form.\<close>

definition error_page :: "HTTP_CODE \<Rightarrow> (int \<times> string \<times> string) option" where
  "error_page ret =
     (case ret of
        INTERNAL_ERROR \<Rightarrow> Some (500, error_500_title, error_500_form)
      | BAD_REQUEST \<Rightarrow> Some (400, error_400_title, error_400_form)
      | NO_RESOURCE \<Rightarrow> Some (404, error_404_title, error_404_form)
      | FORBIDDEN_REQUEST \<Rightarrow> Some (403, error_403_title, error_403_form)
      | _ \<Rightarrow> None)"

definition emits :: "string \<Rightarrow> http_conn \<Rightarrow> http_conn \<Rightarrow> bool" where
  "emits s c c' \<longleftrightarrow> written c' = written c @ s \<and> m_write_idx c' = m_write_idx c + length s \<and> write_frame c c'"

lemma emits_trans: "emits s c c' \<Longrightarrow> emits t c' c'' \<Longrightarrow> emits (s @ t) c c''"
  by (auto simp: emits_def intro: write_frame_trans)

lemma add_response_emits:
  assumes "m_write_idx c + length s < WRITE_BUFFER_SIZE - 1"
  obtains c' where "add_response s c = Inr (True, c')" and "emits s c c'"
  using add_response_fits [OF assms] by (metis emits_def)

lemma emits_idx: "emits s c c' \<Longrightarrow> m_write_idx c' = m_write_idx c + length s"
  and emits_linger: "emits s c c' \<Longrightarrow> m_linger c' = m_linger c"
  by (simp_all add: emits_def write_frame_def)

lemma emits_from_empty: "emits s c c' \<Longrightarrow> m_write_idx c = 0 \<Longrightarrow> written c' = s"
proof -
  assume "emits s c c'" and "m_write_idx c = 0"
  moreover from this(2) have "written c = []" by (simp add: written_def)
  ultimately show "written c' = s" by (simp add: emits_def)
qed

lemma add_headers_emits:
  assumes "m_write_idx c + length (lines_bytes (header_lines n (m_linger c)) @ CRLF) < WRITE_BUFFER_SIZE - 1"
  obtains c' where "add_headers n c = Inr c'" and "emits (lines_bytes (header_lines n (m_linger c)) @ CRLF) c c'"
proof -
  let ?s1 = "''Content-Length: '' @ show_int n @ CRLF" and ?s2 = "''Content-Type:'' @ ''text/html'' @ CRLF"
  let ?s3 = "''Connection: '' @ (if m_linger c then ''keep-alive'' else ''close'') @ CRLF"
  have len: "m_write_idx c + length ?s1 + length ?s2 + length ?s3 + 2 < WRITE_BUFFER_SIZE - 1"
    using assms by (simp add: header_lines_def)
  obtain c1 where 1: "add_response ?s1 c = Inr (True, c1)" "emits ?s1 c c1"
    by (rule add_response_emits [of c ?s1]) (use len in simp)
  obtain c2 where 2: "add_response ?s2 c1 = Inr (True, c2)" "emits ?s2 c1 c2"
    by (rule add_response_emits [of c1 ?s2]) (use len in \<open>simp add: emits_idx [OF 1(2)]\<close>)
  obtain c3 where 3: "add_response ?s3 c2 = Inr (True, c3)" "emits ?s3 c2 c3"
    by (rule add_response_emits [of c2 ?s3])
      (use len in \<open>simp add: emits_idx [OF 1(2)] emits_idx [OF 2(2)] split: if_splits\<close>)
  obtain c4 where 4: "add_response CRLF c3 = Inr (True, c4)" "emits CRLF c3 c4"
    by (rule add_response_emits [of c3 CRLF])
      (use len in \<open>simp add: emits_idx [OF 1(2)] emits_idx [OF 2(2)] emits_idx [OF 3(2)] split: if_splits\<close>)
  have lg: "m_linger c2 = m_linger c" using emits_linger 1(2) 2(2) by metis
  have "emits (?s1 @ ?s2 @ ?s3 @ CRLF) c c4"
    using 1(2) 2(2) 3(2) 4(2) by (blast intro: emits_trans)
  moreover have "add_headers n c = Inr c4"
    using 1(1) 2(1) 3(1) 4(1) lg by (simp add: add_headers_def add_defs)
  ultimately show thesis by (intro that [of c4]) (simp_all add: header_lines_def)
qed

lemma head_emits:
  assumes idx: "m_write_idx c = 0" and len: "length (response_head st title n (m_linger c)) < WRITE_BUFFER_SIZE - 1"
  obtains ok c1 c2 where "add_status_line st title c = Inr (ok, c1)" and "add_headers n c1 = Inr c2"
    and "emits (response_head st title n (m_linger c)) c c2" and "m_file_stat c1 = m_file_stat c"
proof -
  let ?s = "status_line st title @ CRLF" and ?h = "lines_bytes (header_lines n (m_linger c)) @ CRLF"
  obtain c1 where 1: "add_response ?s c = Inr (True, c1)" "emits ?s c c1"
    by (rule add_response_emits [of c ?s]) (use idx len in \<open>simp add: response_head_def\<close>)
  have lg: "m_linger c1 = m_linger c" using 1(2) by (rule emits_linger)
  obtain c2 where 2: "add_headers n c1 = Inr c2" "emits ?h c1 c2"
    by (rule add_headers_emits [of c1 n])
      (use idx len lg in \<open>simp_all add: response_head_def emits_idx [OF 1(2)]\<close>)
  show thesis
  proof (rule that [of True c1 c2])
    show "add_status_line st title c = Inr (True, c1)" using 1(1) by (simp add: add_defs status_line_def)
    show "emits (response_head st title n (m_linger c)) c c2"
      using emits_trans [OF 1(2) 2(2)] by (simp add: response_head_def)
    show "m_file_stat c1 = m_file_stat c" using 1(2) by (simp add: emits_def write_frame_def)
  qed (fact 2(1))
qed

lemma write_page_emits:
  assumes idx: "m_write_idx c = 0"
    and len: "length (response_head st title (int (length form)) (m_linger c) @ form) < WRITE_BUFFER_SIZE - 1"
  obtains c' where "write_page st title form c = Inr (True, c')"
    and "written c' = response_head st title (int (length form)) (m_linger c) @ form"
    and "m_iv c' = (m_iv c)[0 := \<lparr>iov_base = Iov_Write_Buf, iov_len = m_write_idx c'\<rparr>]" and "m_iv_count c' = 1"
proof -
  let ?h = "response_head st title (int (length form)) (m_linger c)"
  have "length ?h < WRITE_BUFFER_SIZE - 1" using len by simp
  from head_emits [OF idx this] obtain ok c1 c2 where 1: "add_status_line st title c = Inr (ok, c1)"
    "add_headers (int (length form)) c1 = Inr c2" "emits ?h c c2" by metis
  obtain c3 where 3: "add_response form c2 = Inr (True, c3)" "emits form c2 c3"
    by (rule add_response_emits [of c2 form]) (use idx len in \<open>simp add: emits_idx [OF 1(3)]\<close>)
  let ?c = "c3\<lparr>m_iv := (m_iv c3)[0 := \<lparr>iov_base = Iov_Write_Buf, iov_len = m_write_idx c3\<rparr>], m_iv_count := 1\<rparr>"
  have em: "emits (?h @ form) c c3" using 1(3) 3(2) by (rule emits_trans)
  have "written c3 = ?h @ form" using em idx by (rule emits_from_empty)
  moreover have "m_iv c3 = m_iv c" using em unfolding emits_def write_frame_def by blast
  moreover have "write_page st title form c = Inr (True, ?c)"
    using 1(1,2) 3(1) by (simp add: write_page_def add_content_def)
  ultimately show thesis by (intro that [of ?c]) (simp_all add: written_def)
qed

lemma response_head_length:
  assumes "INT_MIN \<le> n" and "n \<le> INT_MAX" and "INT_MIN \<le> st" and "st \<le> INT_MAX"
  shows "length (response_head st title n linger) \<le> 109 + length title"
  using show_int_length [OF assms(1,2)] show_int_length [OF assms(3,4)]
  by (simp add: response_head_def status_line_def header_lines_def)

lemma error_page_size:
  assumes "error_page ret = Some (st, title, form)"
  shows "length title + length form < 100" and "0 \<le> st" and "st < 1000"
  using assms by (cases ret; simp add: error_page_def page_defs; force)+

lemma process_write_error_page:
  "error_page ret = Some (st, title, form) \<Longrightarrow> process_write ret c = write_page st title form c"
  by (cases ret) (auto simp: error_page_def process_write_def)

text \<open>\<open>process_write\<close> always returns, inside the buffer, and leaves the rest of the connection alone.\<close>

definition write_post :: "http_conn \<Rightarrow> bool \<times> http_conn \<Rightarrow> bool" where
  "write_post c = (\<lambda>(ok, c'). (write_inv c \<longrightarrow> write_inv c') \<and> length (m_iv c') = length (m_iv c) \<and>
     m_sockfd c' = m_sockfd c \<and> m_linger c' = m_linger c \<and> m_read_buf c' = m_read_buf c \<and> m_read_idx c' = m_read_idx c \<and>
     m_real_file c' = m_real_file c \<and> m_start_line c' = m_start_line c \<and> m_checked_index c' = m_checked_index c \<and>
     m_check_state c' = m_check_state c \<and> m_url c' = m_url c)"

lemma process_write_post: "wp (write_post c) (process_write ret c)"
proof -
  have page: "wp (write_post c) (write_page st title form c)" for st title form
  proof -
    obtain k1 c1 where 1: "add_status_line st title c = Inr (k1, c1)" "keeps_writing c (k1, c1)"
      using add_total(1) by (rule keeps_writingE)
    obtain c2 where 2: "add_headers (int (length form)) c1 = Inr c2" "keeps_writing c1 (True, c2)"
      using add_headers_total by (auto simp: wp_iff)
    obtain k3 c3 where 3: "add_content form c2 = Inr (k3, c3)" "keeps_writing c2 (k3, c3)"
      using add_total(6) by (rule keeps_writingE)
    show ?thesis
      using 1 2 3 by (auto simp: write_page_def keeps_writing_def write_frame_def write_inv_def write_post_def)
  qed
  obtain k1 c1 where 1: "add_status_line 200 ok_200_title c = Inr (k1, c1)" "keeps_writing c (k1, c1)"
    using add_total(1) by (rule keeps_writingE)
  obtain c2 where 2: "add_headers (to_int32 (st_size (m_file_stat c1))) c1 = Inr c2" "keeps_writing c1 (True, c2)"
    using add_headers_total by (auto simp: wp_iff)
  show ?thesis
    using page 1 2
    by (cases ret) (auto simp: process_write_def keeps_writing_def write_frame_def write_inv_def write_post_def)
qed

lemma process_write_frame:
  assumes "process_write ret c = Inr (ok, c')"
  shows "m_sockfd c' = m_sockfd c" and "m_linger c' = m_linger c"
  using process_write_post [of c ret] assms by (simp_all add: write_post_def)

section \<open>Properties\<close>

lemma error_response_bytes:
  assumes "m_write_idx c = 0" and "error_page ret = Some (st, title, form)"
  shows "\<exists>c'. process_write ret c = Inr (True, c') \<and>
     written c' = response_head st title (int (length form)) (m_linger c) @ form \<and>
     m_iv c' = (m_iv c)[0 := \<lparr>iov_base = Iov_Write_Buf, iov_len = length (written c')\<rparr>] \<and> m_iv_count c' = 1"
proof -
  note sz = error_page_size [OF assms(2)]
  have "length (response_head st title (int (length form)) (m_linger c)) \<le> 109 + length title"
    using sz by (intro response_head_length) simp_all
  then have "length (response_head st title (int (length form)) (m_linger c) @ form) < WRITE_BUFFER_SIZE - 1"
    using sz(1) by simp
  from write_page_emits [OF assms(1) this] process_write_error_page [OF assms(2)] show ?thesis
    by (metis length_slice diff_zero written_def)
qed

text \<open>
  An error code is answered by a complete page: the status line of the code, a
  Content-Length that is the length of the form, the keep-alive answer the request asked for, an
  empty line and the form; the single entry of \<open>m_iv\<close> covers exactly these bytes.
\<close>

theorem process_write_page:
  assumes "m_write_idx c = 0" and "error_page ret = Some (st, title, form)"
  shows "\<exists>c'. process_write ret c = Inr (True, c') \<and>
     written c' = response_head st title (int (length form)) (m_linger c) @ form \<and>
     m_iv c' = (m_iv c)[0 := \<lparr>iov_base = Iov_Write_Buf, iov_len = length (written c')\<rparr>] \<and> m_iv_count c' = 1"
  by (rule error_response_bytes [OF assms])

lemma sample_iv: "m_iv (init_conn sample_conn) = [null_iovec, null_iovec]" "m_write_idx (init_conn sample_conn) = 0"
  "\<not> m_linger (init_conn sample_conn)"
  by (simp_all add: init_conn_def)

theorem process_write_page_witness:
  "\<exists>c'. process_write NO_RESOURCE (init_conn sample_conn) = Inr (True, c') \<and>
     written c' = ''HTTP/1.1 404 Not Found'' @ CRLF @ ''Content-Length: 49'' @ CRLF @
       ''Content-Type:text/html'' @ CRLF @ ''Connection: close'' @ CRLF @ CRLF @
       ''The requested file was not found on this server.'' @ [LF] \<and> m_iv_count c' = 1"
proof -
  have "error_page NO_RESOURCE = Some (404, error_404_title, error_404_form)" by (simp add: error_page_def)
  moreover have "response_head 404 error_404_title (int (length error_404_form)) False @ error_404_form =
      ''HTTP/1.1 404 Not Found'' @ CRLF @ ''Content-Length: 49'' @ CRLF @
       ''Content-Type:text/html'' @ CRLF @ ''Connection: close'' @ CRLF @ CRLF @
       ''The requested file was not found on this server.'' @ [LF]" by code_simp
  ultimately show ?thesis
    using process_write_page [OF sample_iv(2), of NO_RESOURCE] sample_iv(3) by fastforce
qed

lemma file_response_bytes:
  assumes "m_write_idx c = 0" and "length (m_iv c) = 2"
  shows "\<exists>c'. process_write FILE_REQUEST c = Inr (True, c') \<and>
     written c' = response_head 200 ok_200_title (to_int32 (st_size (m_file_stat c))) (m_linger c) \<and>
     m_iv c' = [\<lparr>iov_base = Iov_Write_Buf, iov_len = length (written c')\<rparr>,
                \<lparr>iov_base = Iov_File (m_file_address c), iov_len = nat (st_size (m_file_stat c) mod 2 ^ 64)\<rparr>] \<and>
     m_iv_count c' = 2"
proof -
  let ?n = "to_int32 (st_size (m_file_stat c))"
  have "length (response_head 200 ok_200_title ?n (m_linger c)) \<le> 109 + length ok_200_title"
    using to_int32_range [of "st_size (m_file_stat c)"] by (intro response_head_length) simp_all
  then have "length (response_head 200 ok_200_title ?n (m_linger c)) < WRITE_BUFFER_SIZE - 1"
    by (simp add: ok_200_title_def)
  from head_emits [OF assms(1) this] obtain ok c1 c2 where 1: "add_status_line 200 ok_200_title c = Inr (ok, c1)"
    "add_headers ?n c1 = Inr c2" and e: "emits (response_head 200 ok_200_title ?n (m_linger c)) c c2"
    and fst: "m_file_stat c1 = m_file_stat c" by metis
  have w: "written c2 = response_head 200 ok_200_title ?n (m_linger c)" using e assms(1) by (rule emits_from_empty)
  have fr: "m_iv c2 = m_iv c" "m_file_stat c2 = m_file_stat c" "m_file_address c2 = m_file_address c"
    using e by (simp_all add: emits_def write_frame_def)
  from assms(2) obtain a b where "m_iv c = [a, b]" by (auto simp: length_Suc_conv numeral_2_eq_2)
  moreover have "m_write_idx c2 = length (written c2)" by (simp add: written_def)
  ultimately show ?thesis
    using 1 fst fr w by (simp add: process_write_def written_def)
qed

text \<open>
  C29. A file is announced by a header that gives the low 32 bits of its size, and \<open>m_iv\<close> covers
  the header and the whole mapping; for a file below 2 GB the Content-Length is its size.
\<close>

theorem process_write_file:
  assumes "m_write_idx c = 0" and "length (m_iv c) = 2"
  shows "\<exists>c'. process_write FILE_REQUEST c = Inr (True, c') \<and>
     written c' = response_head 200 ok_200_title (to_int32 (st_size (m_file_stat c))) (m_linger c) \<and>
     m_iv c' = [\<lparr>iov_base = Iov_Write_Buf, iov_len = length (written c')\<rparr>,
                \<lparr>iov_base = Iov_File (m_file_address c), iov_len = nat (st_size (m_file_stat c) mod 2 ^ 64)\<rparr>] \<and>
     m_iv_count c' = 2"
  by (rule file_response_bytes [OF assms])

theorem process_write_file_witness:
  "\<exists>c'. process_write FILE_REQUEST (init_conn sample_conn\<lparr>m_file_stat := \<lparr>st_mode = 0x81A4, st_size = 13591\<rparr>,
       m_file_address := 4096, m_linger := True\<rparr>) = Inr (True, c') \<and>
     written c' = ''HTTP/1.1 200 OK'' @ CRLF @ ''Content-Length: 13591'' @ CRLF @
       ''Content-Type:text/html'' @ CRLF @ ''Connection: keep-alive'' @ CRLF @ CRLF \<and>
     m_iv c' ! 1 = \<lparr>iov_base = Iov_File 4096, iov_len = 13591\<rparr>"
proof -
  let ?c = "init_conn sample_conn\<lparr>m_file_stat := \<lparr>st_mode = 0x81A4, st_size = 13591\<rparr>,
       m_file_address := 4096, m_linger := True\<rparr>"
  have "m_write_idx ?c = 0" "length (m_iv ?c) = 2" by (simp_all add: init_conn_def)
  moreover have "response_head 200 ok_200_title (to_int32 13591) True =
      ''HTTP/1.1 200 OK'' @ CRLF @ ''Content-Length: 13591'' @ CRLF @
       ''Content-Type:text/html'' @ CRLF @ ''Connection: keep-alive'' @ CRLF @ CRLF"
    by (simp add: response_head_def status_line_def header_lines_def ok_200_title_def to_int32_id show_int_def
        show_nat.simps char_of_def bit_Suc_0_iff)
  moreover have "m_file_stat ?c = \<lparr>st_mode = 0x81A4, st_size = 13591\<rparr>" "m_file_address ?c = 4096" "m_linger ?c"
    by simp_all
  ultimately obtain c' where "process_write FILE_REQUEST ?c = Inr (True, c')"
    "written c' = ''HTTP/1.1 200 OK'' @ CRLF @ ''Content-Length: 13591'' @ CRLF @
       ''Content-Type:text/html'' @ CRLF @ ''Connection: keep-alive'' @ CRLF @ CRLF"
    "m_iv c' ! 1 = \<lparr>iov_base = Iov_File 4096, iov_len = 13591\<rparr>"
    using process_write_file [of ?c] by fastforce
  then show ?thesis by blast
qed

text \<open>
  C38. No response overruns \<open>m_write_buf\<close>: whatever has been formatted before, \<open>process_write\<close>
  returns without a store outside of the array, and leaves room for the terminating NUL.
\<close>

theorem process_write_safe:
  assumes "write_inv c"
  shows "wp (\<lambda>(ok, c'). write_inv c' \<and> length (m_iv c') = length (m_iv c)) (process_write ret c)"
  using process_write_post by (rule wp_mono) (use assms in \<open>auto simp: write_post_def\<close>)

theorem process_write_safe_witness:
  "wp (\<lambda>(ok, c'). write_inv c' \<and> length (m_iv c') = 2) (process_write BAD_REQUEST (init_conn sample_conn\<lparr>m_write_idx := 1000\<rparr>))"
  using process_write_safe [of "init_conn sample_conn\<lparr>m_write_idx := 1000\<rparr>" BAD_REQUEST]
  by (simp add: write_inv_def sample_iv numeral_2_eq_2)

text \<open>
  The headers the server writes are read back by its own header parser: the announced
  length and the keep-alive flag survive printing and parsing.
\<close>

theorem header_lines_roundtrip:
  assumes "INT_MIN \<le> n" and "n \<le> INT_MAX"
  shows "headers_length 0 (header_lines n linger) = n \<and> headers_linger False (header_lines n linger) = linger"
proof -
  have "skip_blank (CHR '' '' # show_int n) = show_int n"
  proof (cases "n < 0")
    case False
    obtain d ds where s: "show_nat (nat n) = d # ds" using show_nat_nonempty by (cases "show_nat (nat n)") auto
    with show_nat_digits [of d "nat n"] have "isdigit d" by simp
    with False s isdigit_not_space [of d] show ?thesis by (simp add: skip_blank_def show_int_def)
  qed (simp add: skip_blank_def show_int_def)
  moreover have "atol_value (show_int n) = n" using assms by (intro atol_value_show_int) simp_all
  ultimately have "header_of (''Content-Length: '' @ show_int n) = Content_Length n"
    using assms by (simp add: header_of_def tolower_def to_int32_id)
  moreover have "header_of ''Content-Type:text/html'' = Other_Header" by code_simp
  moreover have "header_of ''Connection: close'' = Connection_Header False" by code_simp
  ultimately show ?thesis by (simp add: header_lines_def sample_header)
qed

theorem header_lines_roundtrip_witness:
  "headers_length 0 (header_lines (- 17) True) = - 17 \<and> headers_linger False (header_lines (- 17) True)"
  using header_lines_roundtrip [of "- 17" True] by simp

end
