(* ===== verification/Http_Conn.thy ===== *)
theory Http_Conn
  imports Http_Response
begin

unbundle bit_operations_syntax

text \<open>
  The connection's operations on the outside world (\<open>1. Proactor/http_conn.cpp\<close>): the epoll
  helpers, \<open>init\<close>, \<open>closeconn\<close>, \<open>read\<close>, \<open>write\<close>, \<open>unmap\<close> and \<open>process\<close>. They act on the
  server's state: what the kernel knows of the descriptors (the epoll interest list, the file
  status flags, which descriptors are open, the bytes handed to each of them, the mappings given
  back), the static \<open>m_user_count\<close>, and the array \<open>users\<close> of connection objects, which main
  indexes by descriptor. What \<open>recv\<close> and \<open>writev\<close> answer is an argument, indexed by the number of
  the call, and so is the memory a file is mapped to.
\<close>

section \<open>The kernel's side\<close>

definition EPOLLIN :: "32 word" where "EPOLLIN = 0x001"
definition EPOLLOUT :: "32 word" where "EPOLLOUT = 0x004"
definition EPOLLERR :: "32 word" where "EPOLLERR = 0x008"
definition EPOLLHUP :: "32 word" where "EPOLLHUP = 0x010"
definition EPOLLRDHUP :: "32 word" where "EPOLLRDHUP = 0x2000"
definition EPOLLONESHOT :: "32 word" where "EPOLLONESHOT = 0x40000000"
definition EPOLLET :: "32 word" where "EPOLLET = 0x80000000"
definition O_NONBLOCK :: "32 word" where "O_NONBLOCK = 0x800"

lemmas epoll_flags = EPOLLIN_def EPOLLOUT_def EPOLLERR_def EPOLLHUP_def EPOLLRDHUP_def EPOLLONESHOT_def EPOLLET_def

record kernel =
  interest :: "int \<rightharpoonup> 32 word"
  fd_flags :: "int \<Rightarrow> 32 word"
  open_fds :: "int set"
  wire :: "int \<Rightarrow> char list"
  unmapped :: "(nat \<times> int) list"

text \<open>
  \<open>epoll_ctl\<close>: adding needs an open descriptor that is not registered, modifying and deleting one
  that is; any other call fails and the code ignores the failure. \<open>close\<close> also takes the
  descriptor out of the interest list.
\<close>

definition epoll_ctl_add :: "int \<Rightarrow> 32 word \<Rightarrow> kernel \<Rightarrow> kernel" where
  "epoll_ctl_add fd ev k =
     (if fd \<in> open_fds k \<and> interest k fd = None then k\<lparr>interest := (interest k)(fd \<mapsto> ev)\<rparr> else k)"

definition epoll_ctl_mod :: "int \<Rightarrow> 32 word \<Rightarrow> kernel \<Rightarrow> kernel" where
  "epoll_ctl_mod fd ev k =
     (if interest k fd \<noteq> None then k\<lparr>interest := (interest k)(fd \<mapsto> ev)\<rparr> else k)"

definition epoll_ctl_del :: "int \<Rightarrow> kernel \<Rightarrow> kernel" where
  "epoll_ctl_del fd k = k\<lparr>interest := (interest k)(fd := None)\<rparr>"

definition close_fd :: "int \<Rightarrow> kernel \<Rightarrow> kernel" where
  "close_fd fd k = k\<lparr>open_fds := open_fds k - {fd}, interest := (interest k)(fd := None)\<rparr>"

section \<open>The epoll helpers\<close>

definition setnonblocking :: "int \<Rightarrow> kernel \<Rightarrow> 32 word \<times> kernel" where
  "setnonblocking fd k =
     (if fd \<in> open_fds k
      then (fd_flags k fd, k\<lparr>fd_flags := (fd_flags k)(fd := fd_flags k fd OR O_NONBLOCK)\<rparr>)
      else (- 1, k))"

definition addfd :: "int \<Rightarrow> bool \<Rightarrow> kernel \<Rightarrow> kernel" where
  "addfd fd one_shot k =
     (let ev = EPOLLIN OR EPOLLET OR EPOLLRDHUP;
          ev = (if one_shot then ev OR EPOLLONESHOT else ev)
      in snd (setnonblocking fd (epoll_ctl_add fd ev k)))"

definition removefd :: "int \<Rightarrow> kernel \<Rightarrow> kernel" where
  "removefd fd k = close_fd fd (epoll_ctl_del fd k)"

definition modifyfd :: "int \<Rightarrow> 32 word \<Rightarrow> kernel \<Rightarrow> kernel" where
  "modifyfd fd ev k = epoll_ctl_mod fd (ev OR EPOLLONESHOT OR EPOLLRDHUP OR EPOLLET) k"

section \<open>The server's state\<close>

record server =
  kern :: kernel
  m_user_count :: int
  users :: "http_conn list"

definition get_user :: "int \<Rightarrow> server \<Rightarrow> http_conn res" where
  "get_user i s = (if 0 \<le> i \<and> i < int (length (users s)) then Inr (users s ! nat i) else Inl Out_Of_Bounds)"

definition put_user :: "int \<Rightarrow> http_conn \<Rightarrow> server \<Rightarrow> server" where
  "put_user i c s = s\<lparr>users := (users s)[nat i := c]\<rparr>"

text \<open>
  \<open>bzero(m_write_buf, READ_BUFFER_SIZE)\<close> runs over the end of the object. In the layout of the
  class on Linux for x86-64 the array starts at byte 2328 of 3552, so that 824 bytes of the
  object that follows in the array are cleared: its \<open>m_sockfd\<close>, its \<open>m_address\<close> and the first
  804 bytes of its \<open>m_read_buf\<close>. There is nothing behind the last object. The store is outside of the
  array it is meant for and undefined in C++; the model has it as the change it makes, so that its
  consequences can be stated, and as a fault only where the array \<open>users\<close> ends.
\<close>

definition SPILL :: nat where
  "SPILL = 804"

definition spill :: "http_conn \<Rightarrow> http_conn" where
  "spill c = c\<lparr>m_sockfd := 0, m_address := \<lparr>sin_port = 0, sin_addr = 0\<rparr>,
               m_read_buf := blit (m_read_buf c) 0 (replicate SPILL NUL)\<rparr>"

definition init :: "int \<Rightarrow> server \<Rightarrow> server res" where
  "init i s =
     bindr (get_user i s) (\<lambda>c.
     bindr (get_user (i + 1) s) (\<lambda>d.
     Inr (put_user (i + 1) (spill d) (put_user i (init_conn c) s))))"

definition init_sock :: "int \<Rightarrow> int \<Rightarrow> sockaddr_in \<Rightarrow> server \<Rightarrow> server res" where
  "init_sock i sockfd addr s =
     bindr (get_user i s) (\<lambda>c.
     let s = put_user i (c\<lparr>m_sockfd := sockfd, m_address := addr\<rparr>) s;
         s = s\<lparr>kern := addfd sockfd True (kern s)\<rparr>;
         s = s\<lparr>m_user_count := m_user_count s + 1\<rparr>
     in init i s)"

definition closeconn :: "int \<Rightarrow> server \<Rightarrow> server res" where
  "closeconn i s =
     bindr (get_user i s) (\<lambda>c.
     if m_sockfd c \<noteq> - 1 then
       Inr (put_user i (c\<lparr>m_sockfd := - 1\<rparr>)
              (s\<lparr>kern := removefd (m_sockfd c) (kern s), m_user_count := m_user_count s - 1\<rparr>))
     else Inr s)"

definition unmap :: "int \<Rightarrow> server \<Rightarrow> server res" where
  "unmap i s =
     bindr (get_user i s) (\<lambda>c.
     if m_file_address c \<noteq> 0 then
       Inr (put_user i (c\<lparr>m_file_address := 0\<rparr>)
              (s\<lparr>kern := (kern s)\<lparr>unmapped := (m_file_address c, st_size (m_file_stat c)) # unmapped (kern s)\<rparr>\<rparr>))
     else Inr s)"

section \<open>Reading\<close>

text \<open>
  What \<open>recv\<close> answers: bytes (none of them when the peer has closed), no data for now, or an
  error. An answer that is longer than what was asked for is outside of its contract.
\<close>

datatype recv_result = Received "char list" | Recv_Again | Recv_Error

function read_loop :: "(nat \<Rightarrow> nat \<Rightarrow> recv_result) \<Rightarrow> nat \<Rightarrow> http_conn \<Rightarrow> (bool \<times> http_conn) res" where
  "read_loop recv k c =
     (case recv k (READ_BUFFER_SIZE - m_read_idx c) of
        Recv_Again \<Rightarrow> Inr (True, c)
      | Recv_Error \<Rightarrow> Inr (False, c)
      | Received bs \<Rightarrow>
          if bs = [] then Inr (False, c)
          else if READ_BUFFER_SIZE - m_read_idx c < length bs then Inl Out_Of_Bounds
          else read_loop recv (Suc k) (recv_store bs c))"
  by pat_completeness auto
termination
  by (relation "measure (\<lambda>(recv, k, c). READ_BUFFER_SIZE - m_read_idx c)")
    (auto simp: recv_store_def not_less neq_Nil_conv)

declare read_loop.simps [simp del]

definition read_conn :: "(nat \<Rightarrow> nat \<Rightarrow> recv_result) \<Rightarrow> http_conn \<Rightarrow> (bool \<times> http_conn) res" where
  "read_conn recv c =
     (if READ_BUFFER_SIZE \<le> m_read_idx c then Inr (False, c) else read_loop recv 0 c)"

section \<open>Writing\<close>

text \<open>
  The bytes an entry of \<open>m_iv\<close> covers; \<open>mem\<close> is the memory the files are mapped to. \<open>writev\<close>
  hands a prefix of all the entries' bytes to the descriptor and returns its length.
\<close>

datatype writev_result = Sent nat | Write_Again | Write_Error

definition iov_bytes :: "cbuf \<Rightarrow> http_conn \<Rightarrow> iovec \<Rightarrow> char list" where
  "iov_bytes mem c v =
     (case iov_base v of
        Iov_Null \<Rightarrow> []
      | Iov_Write_Buf \<Rightarrow> slice (m_write_buf c) 0 (iov_len v)
      | Iov_File a \<Rightarrow> slice mem a (a + iov_len v))"

definition response_bytes :: "cbuf \<Rightarrow> http_conn \<Rightarrow> char list" where
  "response_bytes mem c = concat (map (iov_bytes mem c) (take (m_iv_count c) (m_iv c)))"

definition send_wire :: "int \<Rightarrow> char list \<Rightarrow> kernel \<Rightarrow> kernel" where
  "send_wire fd bs k = k\<lparr>wire := (wire k)(fd := wire k fd @ bs)\<rparr>"

text \<open>What follows a write that is taken to be complete.\<close>

definition write_done :: "int \<Rightarrow> server \<Rightarrow> (bool \<times> server) res" where
  "write_done i s =
     bindr (unmap i s) (\<lambda>s.
     bindr (get_user i s) (\<lambda>c.
     if m_linger c then
       bindr (init i s) (\<lambda>s.
       bindr (get_user i s) (\<lambda>c.
       Inr (True, s\<lparr>kern := modifyfd (m_sockfd c) EPOLLIN (kern s)\<rparr>)))
     else Inr (False, s\<lparr>kern := modifyfd (m_sockfd c) EPOLLIN (kern s)\<rparr>)))"

text \<open>
  The loop of \<open>write\<close>. It calls \<open>writev\<close> with the same entries every time. \<open>None\<close> is a loop that
  does not end.
\<close>

partial_function (option) write_loop ::
  "cbuf \<Rightarrow> (nat \<Rightarrow> nat \<Rightarrow> writev_result) \<Rightarrow> int \<Rightarrow> nat \<Rightarrow> int \<Rightarrow> int \<Rightarrow> server \<Rightarrow> (bool \<times> server) res option" where
  "write_loop mem writev i k bytes_to_send bytes_have_send s =
     (case get_user i s of
        Inl e \<Rightarrow> Some (Inl e)
      | Inr c \<Rightarrow>
          (case writev k (length (response_bytes mem c)) of
             Write_Again \<Rightarrow> Some (Inr (True, s\<lparr>kern := modifyfd (m_sockfd c) EPOLLOUT (kern s)\<rparr>))
           | Write_Error \<Rightarrow> Some (bindr (unmap i s) (\<lambda>s. Inr (False, s)))
           | Sent n \<Rightarrow>
               let s = s\<lparr>kern := send_wire (m_sockfd c) (take n (response_bytes mem c)) (kern s)\<rparr>;
                   bytes_to_send = bytes_to_send - int n;
                   bytes_have_send = bytes_have_send + int n
               in if bytes_to_send \<le> bytes_have_send then Some (write_done i s)
                  else write_loop mem writev i (Suc k) bytes_to_send bytes_have_send s))"

definition write_conn :: "cbuf \<Rightarrow> (nat \<Rightarrow> nat \<Rightarrow> writev_result) \<Rightarrow> int \<Rightarrow> server \<Rightarrow> (bool \<times> server) res option" where
  "write_conn mem writev i s =
     (case get_user i s of
        Inl e \<Rightarrow> Some (Inl e)
      | Inr c \<Rightarrow>
          if m_write_idx c = 0 then
            Some (bindr (init i (s\<lparr>kern := modifyfd (m_sockfd c) EPOLLIN (kern s)\<rparr>)) (\<lambda>s. Inr (True, s)))
          else write_loop mem writev i 0 (int (m_write_idx c)) 0 s)"

section \<open>Processing\<close>

definition process :: "filesys \<Rightarrow> int \<Rightarrow> server \<Rightarrow> server res" where
  "process fs i s =
     bindr (get_user i s) (\<lambda>c.
     bindr (process_read fs c) (\<lambda>(read_ret, c).
     let s = put_user i c s in
     if read_ret = NO_REQUEST then Inr (s\<lparr>kern := modifyfd (m_sockfd c) EPOLLIN (kern s)\<rparr>)
     else
       bindr (process_write read_ret c) (\<lambda>(write_ret, c).
       let s = put_user i c s in
       bindr (if \<not> write_ret then closeconn i s else Inr s) (\<lambda>s.
       bindr (get_user i s) (\<lambda>c.
       Inr (s\<lparr>kern := modifyfd (m_sockfd c) EPOLLOUT (kern s)\<rparr>))))))"

section \<open>Lemmas on the parts\<close>

lemma get_user_simps [res_simps]:
  "0 \<le> i \<Longrightarrow> i < int (length (users s)) \<Longrightarrow> get_user i s = Inr (users s ! nat i)"
  "get_user i s = Inr c \<Longrightarrow> get_user i (put_user i c' s) = Inr c'"
  "i \<noteq> j \<Longrightarrow> 0 \<le> i \<Longrightarrow> 0 \<le> j \<Longrightarrow> get_user i (put_user j c' s) = get_user i s"
  "get_user i (s\<lparr>kern := k\<rparr>) = get_user i s"
  "get_user i (s\<lparr>m_user_count := n\<rparr>) = get_user i s"
  by (auto simp: get_user_def put_user_def split: if_splits)

lemma put_user_simps [simp]:
  "kern (put_user i c s) = kern s" "m_user_count (put_user i c s) = m_user_count s"
  "length (users (put_user i c s)) = length (users s)"
  by (simp_all add: put_user_def)

lemma get_userD: "get_user i s = Inr c \<Longrightarrow> 0 \<le> i \<and> i < int (length (users s)) \<and> c = users s ! nat i"
  by (auto simp: get_user_def split: if_splits)

section \<open>Reading until the socket is empty\<close>

lemma recv_store_append: "recv_store b (recv_store a c) = recv_store (a @ b) c"
  by (simp add: recv_store_def blit_append add.assoc)

lemma recv_store_Nil [simp]: "recv_store [] c = c"
  by (simp add: recv_store_def)

lemma recv_store_idx [simp]: "m_read_idx (recv_store b c) = m_read_idx c + length b"
  by (simp add: recv_store_def)

text \<open>
  What is relied on of \<open>recv\<close>: it never stores more than it was asked for. Nothing is said about
  a call that asks for no bytes, which \<open>read()\<close> makes when the buffer has become full: it may return
  0, or fail with EAGAIN when nothing is waiting, and then \<open>read()\<close> returns true with a full buffer.
\<close>

definition recv_contract :: "(nat \<Rightarrow> nat \<Rightarrow> recv_result) \<Rightarrow> bool" where
  "recv_contract recv \<longleftrightarrow>
     (\<forall>k n. case recv k n of Received bs \<Rightarrow> length bs \<le> n | _ \<Rightarrow> True)"

definition read_post :: "http_conn \<Rightarrow> bool \<times> http_conn \<Rightarrow> bool" where
  "read_post c = (\<lambda>(ok, c'). (\<exists>bs. c' = recv_store bs c) \<and> conn_inv c')"

lemma read_loop_post:
  assumes "recv_contract recv" and "conn_inv c"
  shows "wp (read_post c) (read_loop recv k c)"
  using assms
proof (induction recv k c rule: read_loop.induct)
  case (1 recv k c)
  let ?n = "READ_BUFFER_SIZE - m_read_idx c"
  have con: "case recv k ?n of Received bs \<Rightarrow> length bs \<le> ?n | _ \<Rightarrow> True"
    using 1(2) unfolding recv_contract_def by blast
  show ?case
  proof (cases "recv k ?n")
    case (Received bs)
    with con have le: "length bs \<le> ?n" by simp
    show ?thesis
    proof (cases "bs = []")
      case True
      with Received 1(3) show ?thesis
        by (simp add: read_loop.simps [of recv k c] read_post_def exI [of _ "[]"])
    next
      case False
      have "m_read_idx c \<le> READ_BUFFER_SIZE" using 1(3) by (simp add: conn_inv_def)
      then have "conn_inv (recv_store bs c)" using 1(3) le by (intro conn_inv_recv_store) simp_all
      with 1(1) [OF Received False] 1(2) le have "wp (read_post (recv_store bs c)) (read_loop recv (Suc k) (recv_store bs c))"
        by simp
      then have "wp (read_post c) (read_loop recv (Suc k) (recv_store bs c))"
        by (rule wp_mono) (auto simp: read_post_def recv_store_append)
      with Received False le show ?thesis by (simp add: read_loop.simps [of recv k c])
    qed
  qed (use con 1(3) in
        \<open>simp_all add: read_loop.simps [of recv k c] read_post_def exI [of _ "[]"]\<close>)
qed

text \<open>A socket that delivers its bytes in the pieces \<open>chunks\<close> and has no more for now.\<close>

definition recv_script :: "string list \<Rightarrow> nat \<Rightarrow> nat \<Rightarrow> recv_result" where
  "recv_script chunks k n =
     (if n = 0 then Received []
      else if k < length chunks \<and> length (chunks ! k) \<le> n then Received (chunks ! k)
      else Recv_Again)"

lemma recv_script_contract: "recv_contract (recv_script chunks)"
  by (auto simp: recv_contract_def recv_script_def)

lemma read_loop_script:
  assumes "k \<le> length chunks" and "[] \<notin> set chunks"
    and "m_read_idx c + length (concat (drop k chunks)) < READ_BUFFER_SIZE"
  shows "read_loop (recv_script chunks) k c = Inr (True, recv_store (concat (drop k chunks)) c)"
  using assms
proof (induction "length chunks - k" arbitrary: k c)
  case 0
  then have "recv_script chunks k (READ_BUFFER_SIZE - m_read_idx c) = Recv_Again" by (simp add: recv_script_def)
  with 0 show ?case by (simp add: read_loop.simps [of _ k c])
next
  case (Suc m)
  then have k: "k < length chunks" by simp
  then have d: "drop k chunks = chunks ! k # drop (Suc k) chunks" by (simp add: Cons_nth_drop_Suc)
  have ne: "chunks ! k \<noteq> []" using k Suc.prems(2) by (metis nth_mem)
  have le: "length (chunks ! k) \<le> READ_BUFFER_SIZE - m_read_idx c" using Suc.prems(3) d by simp
  then have "recv_script chunks k (READ_BUFFER_SIZE - m_read_idx c) = Received (chunks ! k)"
    using k Suc.prems(3) by (simp add: recv_script_def)
  moreover have "read_loop (recv_script chunks) (Suc k) (recv_store (chunks ! k) c) =
      Inr (True, recv_store (concat (drop (Suc k) chunks)) (recv_store (chunks ! k) c))"
    using Suc.hyps(2) Suc.prems k d by (intro Suc.hyps(1)) auto
  ultimately show ?case
    using le ne d by (simp add: read_loop.simps [of _ k c] recv_store_append)
qed

lemma read_conn_script:
  assumes "[] \<notin> set chunks" and "m_read_idx c + length (concat chunks) < READ_BUFFER_SIZE"
  shows "read_conn (recv_script chunks) c = Inr (True, recv_store (concat chunks) c)"
  using read_loop_script [of 0 chunks c] assms by (simp add: read_conn_def)

section \<open>One request from the socket to the wire\<close>

definition armed :: "32 word \<Rightarrow> 32 word" where
  "armed ev = ev OR EPOLLONESHOT OR EPOLLRDHUP OR EPOLLET"

lemma modifyfd_simps [simp]:
  "wire (modifyfd fd ev k) = wire k" "open_fds (modifyfd fd ev k) = open_fds k" "unmapped (modifyfd fd ev k) = unmapped k"
  "interest (modifyfd fd ev k) = (if interest k fd = None then interest k else (interest k)(fd \<mapsto> armed ev))"
  by (simp_all add: modifyfd_def epoll_ctl_mod_def armed_def)

lemma unmap_user:
  assumes "get_user i s = Inr c"
  obtains s' where "unmap i s = Inr s'" and "get_user i s' = Inr (c\<lparr>m_file_address := 0\<rparr>)"
    and "length (users s') = length (users s)" and "interest (kern s') = interest (kern s)"
    and "wire (kern s') = wire (kern s)"
    and "unmapped (kern s') = (if m_file_address c = 0 then [] else [(m_file_address c, st_size (m_file_stat c))]) @ unmapped (kern s)"
proof (cases "m_file_address c = 0")
  case True
  then have "c\<lparr>m_file_address := 0\<rparr> = c" by simp
  with True assms show thesis by (intro that [of s]) (simp_all add: unmap_def)
next
  case False
  let ?s = "put_user i (c\<lparr>m_file_address := 0\<rparr>)
      (s\<lparr>kern := (kern s)\<lparr>unmapped := (m_file_address c, st_size (m_file_stat c)) # unmapped (kern s)\<rparr>\<rparr>)"
  have "get_user i ?s = Inr (c\<lparr>m_file_address := 0\<rparr>)"
    using assms by (intro get_user_simps(2) [of _ _ c]) (simp add: get_user_simps)
  with False assms show thesis by (intro that [of ?s]) (simp_all add: unmap_def)
qed

lemma init_user:
  assumes "get_user i s = Inr c" and "i + 1 < int (length (users s))"
  obtains s' where "init i s = Inr s'" and "get_user i s' = Inr (init_conn c)" and "kern s' = kern s"
    and "get_user (i + 1) s' = Inr (spill (users s ! nat (i + 1)))"
    and "\<And>j. j \<noteq> i \<Longrightarrow> j \<noteq> i + 1 \<Longrightarrow> get_user j s' = get_user j s"
    and "length (users s') = length (users s)" and "m_user_count s' = m_user_count s"
proof -
  let ?s = "put_user (i + 1) (spill (users s ! nat (i + 1))) (put_user i (init_conn c) s)"
  have i: "0 \<le> i" using get_userD [OF assms(1)] by simp
  have "init i s = Inr ?s" using assms i by (simp add: init_def get_user_simps)
  moreover have "get_user i ?s = Inr (init_conn c)" "get_user (i + 1) ?s = Inr (spill (users s ! nat (i + 1)))"
    using assms i by (auto simp: get_user_def put_user_def)
  moreover have "get_user j ?s = get_user j s" if "j \<noteq> i" "j \<noteq> i + 1" for j
    using i that by (auto simp: get_user_def put_user_def)
  ultimately show thesis by (intro that [of ?s]) simp_all
qed

lemma write_done_user:
  assumes c: "get_user i s = Inr c" and i: "i + 1 < int (length (users s))"
  obtains s' where "write_done i s = Inr (m_linger c, s')" and "wire (kern s') = wire (kern s)"
    and "interest (kern s') = interest (modifyfd (m_sockfd c) EPOLLIN (kern s))"
    and "get_user i s' = Inr (let d = c\<lparr>m_file_address := 0\<rparr> in if m_linger c then init_conn d else d)"
proof -
  let ?d = "c\<lparr>m_file_address := 0\<rparr>"
  from unmap_user [OF c] obtain s1 where u: "unmap i s = Inr s1" "get_user i s1 = Inr ?d"
    "length (users s1) = length (users s)" "interest (kern s1) = interest (kern s)" "wire (kern s1) = wire (kern s)" .
  show thesis
  proof (cases "m_linger c")
    case True
    from init_user [of i s1 ?d] u i obtain s2 where n: "init i s1 = Inr s2" "get_user i s2 = Inr (init_conn ?d)"
      "kern s2 = kern s1" by metis
    have fd: "m_sockfd (init_conn ?d) = m_sockfd c" by (simp add: init_conn_def)
    show thesis
      by (rule that [of "s2\<lparr>kern := modifyfd (m_sockfd c) EPOLLIN (kern s2)\<rparr>"])
        (use True u n fd in \<open>simp_all add: write_done_def get_user_simps\<close>)
  next
    case False
    show thesis
      by (rule that [of "s1\<lparr>kern := modifyfd (m_sockfd c) EPOLLIN (kern s1)\<rparr>"])
        (use False u in \<open>simp_all add: write_done_def get_user_simps\<close>)
  qed
qed

text \<open>A write whose first \<open>writev\<close> takes at least half as many bytes as there are in the write buffer.\<close>

lemma write_conn_sent:
  assumes c: "get_user i s = Inr c" and i: "i + 1 < int (length (users s))" and w: "m_write_idx c \<noteq> 0"
    and n: "writev 0 (length (response_bytes mem c)) = Sent n" and le: "m_write_idx c \<le> 2 * n"
  obtains s' where "write_conn mem writev i s = Some (Inr (m_linger c, s'))"
    and "wire (kern s') = (wire (kern s))(m_sockfd c := wire (kern s) (m_sockfd c) @ take n (response_bytes mem c))"
    and "interest (kern s') = interest (modifyfd (m_sockfd c) EPOLLIN (kern s))"
    and "get_user i s' = Inr (let d = c\<lparr>m_file_address := 0\<rparr> in if m_linger c then init_conn d else d)"
proof -
  let ?s = "s\<lparr>kern := send_wire (m_sockfd c) (take n (response_bytes mem c)) (kern s)\<rparr>"
  have "get_user i ?s = Inr c" using c by (simp add: get_user_simps)
  from write_done_user [OF this] i obtain s' where d: "write_done i ?s = Inr (m_linger c, s')"
    "wire (kern s') = wire (kern ?s)" "interest (kern s') = interest (modifyfd (m_sockfd c) EPOLLIN (kern ?s))"
    "get_user i s' = Inr (let d = c\<lparr>m_file_address := 0\<rparr> in if m_linger c then init_conn d else d)" by auto
  have "write_conn mem writev i s = Some (write_done i ?s)"
    using c w n le by (simp add: write_conn_def write_loop.simps [of mem writev i 0] Let_def)
  with d show thesis by (intro that [of s']) (simp_all add: send_wire_def)
qed

text \<open>
  The loop of \<open>write\<close> for any results of \<open>writev\<close>: \<open>ns\<close> are the counts of the calls that succeeded. All of
  them start at the first byte of the response. The loop goes on while twice the sum of the counts is
  below the number \<open>h\<close> of bytes in the write buffer; then it ends the response, wherever the last call
  has stopped.
\<close>

definition write_counts :: "(nat \<Rightarrow> nat \<Rightarrow> writev_result) \<Rightarrow> nat \<Rightarrow> nat \<Rightarrow> nat list \<Rightarrow> bool" where
  "write_counts writev len h ns \<longleftrightarrow>
     (\<forall>j < length ns. writev j len = Sent (ns ! j) \<and> 2 * sum_list (take j ns) < h) \<and>
     (2 * sum_list ns < h \<longrightarrow> (\<forall>n. writev (length ns) len \<noteq> Sent n))"

lemma write_counts_Nil: "write_counts writev len h [] \<longleftrightarrow> (0 < h \<longrightarrow> (\<forall>n. writev 0 len \<noteq> Sent n))"
  by (simp add: write_counts_def)

lemma write_counts_Cons:
  "write_counts writev len h (n # ns) \<longleftrightarrow>
     writev 0 len = Sent n \<and> 0 < h \<and> write_counts (\<lambda>k. writev (Suc k)) len (h - 2 * n) ns"
proof -
  have all: "(\<forall>j < length (n # ns). P j) \<longleftrightarrow> P 0 \<and> (\<forall>j < length ns. P (Suc j))" for P
    by (auto simp: less_Suc_eq_0_disj)
  have eq: "2 * sum_list (n # xs) < h \<longleftrightarrow> 2 * sum_list xs < h - 2 * n" for xs by auto
  show ?thesis unfolding write_counts_def all take_Suc_Cons eq by auto
qed

lemmas write_counts_simps = write_counts_Nil write_counts_Cons

definition write_end :: "bool \<Rightarrow> writev_result \<Rightarrow> http_conn \<Rightarrow> kernel \<Rightarrow> bool \<times> http_conn \<times> (int \<rightharpoonup> 32 word)" where
  "write_end finished res c k =
     (let d = c\<lparr>m_file_address := 0\<rparr> in
      if finished then (m_linger c, if m_linger c then init_conn d else d, interest (modifyfd (m_sockfd c) EPOLLIN k))
      else if res = Write_Again then (True, c, interest (modifyfd (m_sockfd c) EPOLLOUT k))
      else (False, d, interest k))"

lemma write_loop_counts:
  assumes pos: "\<And>k n. writev k (length (response_bytes mem c)) = Sent n \<Longrightarrow> 0 < n" and c: "get_user i s = Inr c"
    and i: "i + 1 < int (length (users s))" and h: "to_send = have_send + int h" "0 < h"
  shows "\<exists>ns ok s' c'. write_loop mem writev i k to_send have_send s = Some (Inr (ok, s')) \<and> get_user i s' = Inr c' \<and>
     write_counts (\<lambda>j. writev (k + j)) (length (response_bytes mem c)) h ns \<and>
     wire (kern s') = (wire (kern s))(m_sockfd c := wire (kern s) (m_sockfd c) @ concat (map (\<lambda>n. take n (response_bytes mem c)) ns)) \<and>
     (ok, c', interest (kern s')) =
       write_end (h \<le> 2 * sum_list ns) (writev (k + length ns) (length (response_bytes mem c))) c (kern s)"
  using c i h
proof (induction h arbitrary: k to_send have_send s rule: less_induct)
  case (less h)
  let ?R = "response_bytes mem c"
  note unf = write_loop.simps [of mem writev i k]
  show ?case
  proof (cases "writev k (length ?R)")
    case (Sent n)
    let ?s = "s\<lparr>kern := send_wire (m_sockfd c) (take n ?R) (kern s)\<rparr>"
    have g: "get_user i ?s = Inr c" "i + 1 < int (length (users ?s))" using less.prems by (simp_all add: get_user_simps)
    show ?thesis
    proof (cases "h \<le> 2 * n")
      case True
      obtain s' where d: "write_done i ?s = Inr (m_linger c, s')" "wire (kern s') = wire (kern ?s)"
        "interest (kern s') = interest (modifyfd (m_sockfd c) EPOLLIN (kern ?s))"
        "get_user i s' = Inr (let d = c\<lparr>m_file_address := 0\<rparr> in if m_linger c then init_conn d else d)"
        using write_done_user [OF g] by blast
      have "to_send - int n \<le> have_send + int n" using True less.prems(3) by simp
      then have "write_loop mem writev i k to_send have_send s = Some (Inr (m_linger c, s'))"
        using less.prems(1) Sent d(1) by (simp add: unf Let_def)
      with d True Sent less.prems(4) show ?thesis
        by (intro exI [of _ "[n]"] exI [of _ "m_linger c"] exI [of _ s'])
          (simp add: write_counts_simps send_wire_def write_end_def Let_def)
    next
      case False
      have "to_send - int n = have_send + int n + int (h - 2 * n)" "0 < h - 2 * n" "h - 2 * n < h"
        using False less.prems(3) pos [OF Sent] by simp_all
      with less.IH [of "h - 2 * n" ?s "to_send - int n" "have_send + int n" "Suc k"] g
      obtain ns ok s' c' where IH: "write_loop mem writev i (Suc k) (to_send - int n) (have_send + int n) ?s = Some (Inr (ok, s'))"
        "get_user i s' = Inr c'" "write_counts (\<lambda>j. writev (Suc k + j)) (length ?R) (h - 2 * n) ns"
        "wire (kern s') = (wire (kern ?s))(m_sockfd c := wire (kern ?s) (m_sockfd c) @ concat (map (\<lambda>n. take n ?R) ns))"
        "(ok, c', interest (kern s')) = write_end (h - 2 * n \<le> 2 * sum_list ns) (writev (Suc k + length ns) (length ?R)) c (kern ?s)"
        by blast
      have "\<not> to_send - int n \<le> have_send + int n" using False less.prems(3) by simp
      then have "write_loop mem writev i k to_send have_send s = Some (Inr (ok, s'))"
        using less.prems(1) Sent IH(1) by (simp add: unf Let_def)
      moreover have "write_counts (\<lambda>j. writev (k + j)) (length ?R) h (n # ns)"
        using IH(3) Sent less.prems(4) by (simp add: write_counts_simps)
      moreover have "write_end (h - 2 * n \<le> 2 * sum_list ns) (writev (Suc k + length ns) (length ?R)) c (kern ?s) =
          write_end (h \<le> 2 * sum_list (n # ns)) (writev (k + length (n # ns)) (length ?R)) c (kern s)"
        using False by (simp add: write_end_def send_wire_def Let_def le_diff_conv algebra_simps)
      ultimately show ?thesis using IH(2,4,5)
        by (intro exI [of _ "n # ns"] exI [of _ ok] exI [of _ s'] exI [of _ c']) (simp add: send_wire_def)
    qed
  next
    case Write_Again
    let ?s = "s\<lparr>kern := modifyfd (m_sockfd c) EPOLLOUT (kern s)\<rparr>"
    have "get_user i ?s = Inr c" using less.prems(1) by (simp add: get_user_simps)
    with Write_Again less.prems show ?thesis
      by (intro exI [of _ "[]"] exI [of _ True] exI [of _ ?s] exI [of _ c])
        (simp add: unf write_end_def write_counts_simps Let_def)
  next
    case Write_Error
    obtain s' where "unmap i s = Inr s'" "get_user i s' = Inr (c\<lparr>m_file_address := 0\<rparr>)"
      "interest (kern s') = interest (kern s)" "wire (kern s') = wire (kern s)"
      using unmap_user [OF less.prems(1)] by metis
    with Write_Error less.prems show ?thesis
      by (intro exI [of _ "[]"] exI [of _ False] exI [of _ s'])
        (simp add: unf write_end_def write_counts_simps Let_def)
  qed
qed

lemma write_counts_whole:
  assumes "write_counts writev len h ns" and "writev 0 len = Sent len" and "h \<le> len" and "0 < h"
  shows "ns = [len]"
proof (cases ns)
  case Nil
  with assms show ?thesis by (simp add: write_counts_simps)
next
  case (Cons n ns')
  from assms(1) Cons have "writev 0 len = Sent n" and ns': "write_counts (\<lambda>k. writev (Suc k)) len (h - 2 * n) ns'"
    by (auto simp: write_counts_Cons)
  then have "n = len" using assms(2) by simp
  then have "h - 2 * n = 0" using assms(3) by simp
  with ns' Cons \<open>n = len\<close> show ?thesis by (cases ns') (simp_all add: write_counts_simps)
qed

lemma process_answers:
  assumes c: "get_user i s = Inr c" and r: "process_read fs c = Inr (code, c1)" "code \<noteq> NO_REQUEST"
    and w: "process_write code c1 = Inr (True, c2)"
  obtains s' where "process fs i s = Inr s'" and "get_user i s' = Inr c2"
    and "kern s' = modifyfd (m_sockfd c2) EPOLLOUT (kern s)" and "length (users s') = length (users s)"
proof -
  let ?s = "put_user i c2 (put_user i c1 s)"
  have g: "get_user i ?s = Inr c2" using get_user_simps(2) [OF c, of c1] by (rule get_user_simps(2))
  show thesis
    by (rule that [of "?s\<lparr>kern := modifyfd (m_sockfd c2) EPOLLOUT (kern s)\<rparr>"])
      (use c r w g in \<open>simp_all add: process_def Let_def get_user_simps\<close>)
qed

text \<open>The bytes a path is answered with: an error page, or the header and the file.\<close>

definition answer_bytes :: "filesys \<Rightarrow> cbuf \<Rightarrow> string \<Rightarrow> bool \<Rightarrow> char list" where
  "answer_bytes fs mem p linger =
     (case error_page (request_code fs p) of
        Some (st, title, form) \<Rightarrow> response_head st title (int (length form)) linger @ form
      | None \<Rightarrow>
          (case fs_stat fs (file_path p) of
             None \<Rightarrow> []
           | Some st \<Rightarrow>
               let a = fs_mmap fs (file_path p) (st_size st)
               in response_head 200 ok_200_title (st_size st) linger @ slice mem a (a + nat (st_size st))))"

text \<open>How many of them are in the write buffer: all but the file.\<close>

definition answer_head :: "filesys \<Rightarrow> string \<Rightarrow> bool \<Rightarrow> nat" where
  "answer_head fs p linger =
     (case error_page (request_code fs p) of
        Some (st, title, form) \<Rightarrow> length (response_head st title (int (length form)) linger @ form)
      | None \<Rightarrow>
          (case fs_stat fs (file_path p) of
             None \<Rightarrow> 0
           | Some st \<Rightarrow> length (response_head 200 ok_200_title (st_size st) linger)))"

lemma slice_written: "slice (m_write_buf c) 0 (length (written c)) = written c"
  by (simp add: written_def)

lemma answer_written:
  assumes "m_write_idx c = 0" and "length (m_iv c) = 2" and "do_request_post fs p (request_code fs p, c)"
    and "\<And>st. fs_stat fs (file_path p) = Some st \<Longrightarrow> 0 \<le> st_size st \<and> st_size st \<le> INT_MAX"
  obtains c' where "process_write (request_code fs p) c = Inr (True, c')"
    and "response_bytes mem c' = answer_bytes fs mem p (m_linger c)" and "0 < m_write_idx c'"
    and "m_write_idx c' = answer_head fs p (m_linger c)"
    and "m_write_idx c' \<le> length (response_bytes mem c')"
proof (cases "error_page (request_code fs p)")
  case (Some page)
  then obtain st title form where pg: "error_page (request_code fs p) = Some (st, title, form)" by (cases page) auto
  from error_response_bytes [OF assms(1) pg] obtain c' where w: "process_write (request_code fs p) c = Inr (True, c')"
    "written c' = response_head st title (int (length form)) (m_linger c) @ form"
    "m_iv c' = (m_iv c)[0 := \<lparr>iov_base = Iov_Write_Buf, iov_len = length (written c')\<rparr>]" "m_iv_count c' = 1" by blast
  from assms(2) obtain a b where "m_iv c = [a, b]" by (auto simp: length_Suc_conv numeral_2_eq_2)
  with w(3,4) have "response_bytes mem c' = written c'" by (simp add: response_bytes_def iov_bytes_def slice_written)
  moreover have "m_write_idx c' = length (written c')" by (simp add: written_def)
  moreover have "written c' \<noteq> []" using w(2) by (simp add: response_head_def)
  ultimately show thesis using w(1,2) pg by (intro that [of c']) (simp_all add: answer_bytes_def answer_head_def)
next
  case None
  then have fr: "request_code fs p = FILE_REQUEST"
    by (auto simp: request_code_def error_page_def split: option.splits if_splits)
  with assms(3) have st: "fs_stat fs (file_path p) = Some (m_file_stat c)"
    "m_file_address c = fs_mmap fs (file_path p) (st_size (m_file_stat c))"
    by (simp_all add: do_request_post_def)
  let ?n = "st_size (m_file_stat c)"
  have n: "0 \<le> ?n" "?n \<le> INT_MAX" using assms(4) [OF st(1)] by simp_all
  from file_response_bytes [OF assms(1,2)] n obtain c' where w: "process_write FILE_REQUEST c = Inr (True, c')"
    "written c' = response_head 200 ok_200_title ?n (m_linger c)"
    "m_iv c' = [\<lparr>iov_base = Iov_Write_Buf, iov_len = length (written c')\<rparr>,
                \<lparr>iov_base = Iov_File (m_file_address c), iov_len = nat ?n\<rparr>]" "m_iv_count c' = 2"
    by (auto simp: to_int32_id)
  have "response_bytes mem c' = written c' @ slice mem (m_file_address c) (m_file_address c + nat ?n)"
    using w(3,4) by (simp add: response_bytes_def iov_bytes_def slice_written)
  moreover have "m_write_idx c' = length (written c')" by (simp add: written_def)
  moreover have "written c' \<noteq> []" using w(2) by (simp add: response_head_def)
  ultimately show thesis
    using w(1,2) fr None st by (intro that [of c']) (simp_all add: answer_bytes_def answer_head_def Let_def)
qed

text \<open>Reading and processing one complete request: the answer is ready to be written.\<close>

lemma request_processed:
  assumes "get_user i s = Inr (init_conn d)" and "i + 1 < int (length (users s))"
    and "[] \<notin> set chunks" and "concat chunks = rl @ CRLF @ lines_bytes hs @ CRLF @ body"
    and "length (concat chunks) < READ_BUFFER_SIZE"
    and "clean_line rl" and "\<forall>h \<in> set hs. clean_line h \<and> h \<noteq> []"
    and "0 \<le> headers_length 0 hs" and "headers_length 0 hs \<le> int (length body)"
    and "request_path rl = Some p"
    and "\<And>st. fs_stat fs (file_path p) = Some st \<Longrightarrow> 0 \<le> st_size st \<and> st_size st \<le> INT_MAX"
    and "interest (kern s) (m_sockfd d) \<noteq> None"
  shows "\<exists>c s1 c2. read_conn (recv_script chunks) (init_conn d) = Inr (True, c) \<and>
     process fs i (put_user i c s) = Inr s1 \<and> get_user i s1 = Inr c2 \<and> kern s1 = modifyfd (m_sockfd d) EPOLLOUT (kern s) \<and>
     length (users s1) = length (users s) \<and> m_sockfd c2 = m_sockfd d \<and> m_linger c2 = headers_linger False hs \<and>
     response_bytes mem c2 = answer_bytes fs mem p (headers_linger False hs) \<and>
     m_write_idx c2 = answer_head fs p (headers_linger False hs) \<and>
     0 < m_write_idx c2 \<and> m_write_idx c2 \<le> length (response_bytes mem c2)"
proof -
  let ?c = "recv_store (concat chunks) (init_conn d)"
  have rd: "read_conn (recv_script chunks) (init_conn d) = Inr (True, ?c)"
    using assms(3,5) by (intro read_conn_script) (simp_all add: init_conn_def)
  have un: "unread ?c = rl @ CRLF @ lines_bytes hs @ CRLF @ body"
    using fresh_after_init(2) [OF assms(5)] assms(4) by simp
  from complete_request_answered [OF fresh_after_init(1) [OF assms(5)] un assms(6-9), of fs] assms(10)
  obtain c1 where pr: "process_read fs ?c = Inr (request_code fs p, c1)"
    and lg: "m_linger c1 = headers_linger False hs" and post: "do_request_post fs p (request_code fs p, c1)" by auto
  have fr: "read_frame ?c c1" using pr by (auto simp: process_read_def dest: read_frame_loop)
  then have c1: "m_write_idx c1 = 0" "length (m_iv c1) = 2" "m_sockfd c1 = m_sockfd d"
    by (simp_all add: read_frame_def recv_store_def init_conn_def)
  obtain c2 where w: "process_write (request_code fs p) c1 = Inr (True, c2)"
    "response_bytes mem c2 = answer_bytes fs mem p (m_linger c1)" "0 < m_write_idx c2"
    "m_write_idx c2 \<le> length (response_bytes mem c2)" "m_write_idx c2 = answer_head fs p (m_linger c1)"
    using answer_written [OF c1(1,2) post assms(11)] by blast
  have c2: "m_sockfd c2 = m_sockfd d" "m_linger c2 = headers_linger False hs"
    using process_write_frame [OF w(1)] c1(3) lg by simp_all
  have nr: "request_code fs p \<noteq> NO_REQUEST" by (auto simp: request_code_def split: option.split)
  have g: "get_user i (put_user i ?c s) = Inr ?c" using assms(1) by (rule get_user_simps(2))
  obtain s1 where p: "process fs i (put_user i ?c s) = Inr s1" "get_user i s1 = Inr c2"
    "kern s1 = modifyfd (m_sockfd c2) EPOLLOUT (kern s)" "length (users s1) = length (users s)"
    using process_answers [OF g pr nr w(1)] by auto
  show ?thesis
    by (rule exI [of _ ?c], rule exI [of _ s1], rule exI [of _ c2]) (use rd p c2 w lg in simp)
qed

text \<open>Reading, processing and writing one complete request.\<close>

lemma request_served:
  assumes "get_user i s = Inr (init_conn d)" and "i + 1 < int (length (users s))"
    and "[] \<notin> set chunks" and "concat chunks = rl @ CRLF @ lines_bytes hs @ CRLF @ body"
    and "length (concat chunks) < READ_BUFFER_SIZE"
    and "clean_line rl" and "\<forall>h \<in> set hs. clean_line h \<and> h \<noteq> []"
    and "0 \<le> headers_length 0 hs" and "headers_length 0 hs \<le> int (length body)"
    and "request_path rl = Some p"
    and "\<And>st. fs_stat fs (file_path p) = Some st \<Longrightarrow> 0 \<le> st_size st \<and> st_size st \<le> INT_MAX"
    and "interest (kern s) (m_sockfd d) \<noteq> None"
  shows "\<exists>c s1 s2 c'. read_conn (recv_script chunks) (init_conn d) = Inr (True, c) \<and>
     process fs i (put_user i c s) = Inr s1 \<and> interest (kern s1) (m_sockfd d) = Some (armed EPOLLOUT) \<and>
     write_conn mem (\<lambda>k n. Sent n) i s1 = Some (Inr (headers_linger False hs, s2)) \<and>
     wire (kern s2) = (wire (kern s))(m_sockfd d := wire (kern s) (m_sockfd d) @
        answer_bytes fs mem p (headers_linger False hs)) \<and>
     interest (kern s2) (m_sockfd d) = Some (armed EPOLLIN) \<and>
     get_user i s2 = Inr c' \<and> m_sockfd c' = m_sockfd d \<and> (headers_linger False hs \<longrightarrow> m_read_idx c' = 0)"
proof -
  let ?l = "headers_linger False hs"
  obtain c s1 c2 where rd: "read_conn (recv_script chunks) (init_conn d) = Inr (True, c)"
    and p: "process fs i (put_user i c s) = Inr s1" "get_user i s1 = Inr c2" "kern s1 = modifyfd (m_sockfd d) EPOLLOUT (kern s)"
      "length (users s1) = length (users s)"
    and c2: "m_sockfd c2 = m_sockfd d" "m_linger c2 = ?l"
    and w: "response_bytes mem c2 = answer_bytes fs mem p ?l" "0 < m_write_idx c2" "m_write_idx c2 \<le> length (response_bytes mem c2)"
    using request_processed [where mem = mem, OF assms] by blast
  obtain s2 where wr: "write_conn mem (\<lambda>k n. Sent n) i s1 = Some (Inr (m_linger c2, s2))"
    "wire (kern s2) = (wire (kern s1))(m_sockfd c2 := wire (kern s1) (m_sockfd c2) @ response_bytes mem c2)"
    "interest (kern s2) = interest (modifyfd (m_sockfd c2) EPOLLIN (kern s1))"
    "get_user i s2 = Inr (let d = c2\<lparr>m_file_address := 0\<rparr> in if m_linger c2 then init_conn d else d)"
    using write_conn_sent [OF p(2), of "\<lambda>k n. Sent n" mem "length (response_bytes mem c2)"] p(4) assms(2) w(2,3) by auto
  let ?d = "let d = c2\<lparr>m_file_address := 0\<rparr> in if m_linger c2 then init_conn d else d"
  have d: "m_sockfd ?d = m_sockfd d" "m_linger c2 \<Longrightarrow> m_read_idx ?d = 0"
    using c2(1) by (simp_all add: Let_def init_conn_def)
  show ?thesis
    by (rule exI [of _ c], rule exI [of _ s1], rule exI [of _ s2], rule exI [of _ ?d])
      (use rd p wr c2 w(1) assms(12) d in simp)
qed

section \<open>Properties\<close>

text \<open>
  One request, end to end: a connection at descriptor \<open>i\<close> fresh from \<open>init\<close>, a complete
  request that \<open>recv\<close> delivers in any pieces, \<open>read\<close>, \<open>process\<close> in a worker and \<open>write\<close>. If
  \<open>writev\<close> takes everything at once, exactly the bytes of the answer are appended to the
  connection's descriptor, the descriptor waits for input again, and \<open>write\<close> asks for the
  connection to be kept exactly when the request asked for keep-alive.
\<close>

theorem serve_request:
  assumes "get_user i s = Inr (init_conn d)" and "i + 1 < int (length (users s))"
    and "[] \<notin> set chunks" and "concat chunks = rl @ CRLF @ lines_bytes hs @ CRLF @ body"
    and "length (concat chunks) < READ_BUFFER_SIZE"
    and "clean_line rl" and "\<forall>h \<in> set hs. clean_line h \<and> h \<noteq> []"
    and "0 \<le> headers_length 0 hs" and "headers_length 0 hs \<le> int (length body)"
    and "request_path rl = Some p"
    and "\<And>st. fs_stat fs (file_path p) = Some st \<Longrightarrow> 0 \<le> st_size st \<and> st_size st \<le> INT_MAX"
    and "interest (kern s) (m_sockfd d) \<noteq> None"
  shows "\<exists>c s1 s2. read_conn (recv_script chunks) (init_conn d) = Inr (True, c) \<and>
     process fs i (put_user i c s) = Inr s1 \<and> interest (kern s1) (m_sockfd d) = Some (armed EPOLLOUT) \<and>
     write_conn mem (\<lambda>k n. Sent n) i s1 = Some (Inr (headers_linger False hs, s2)) \<and>
     wire (kern s2) = (wire (kern s))(m_sockfd d := wire (kern s) (m_sockfd d) @
        answer_bytes fs mem p (headers_linger False hs)) \<and>
     interest (kern s2) (m_sockfd d) = Some (armed EPOLLIN)"
  using request_served [where mem = mem, OF assms] by blast

definition sample_server :: server where
  "sample_server = \<lparr>kern = \<lparr>interest = [5 \<mapsto> armed EPOLLIN, 6 \<mapsto> armed EPOLLIN], fd_flags = (\<lambda>_. 2),
       open_fds = {0, 1, 2, 3, 4, 5, 6}, wire = (\<lambda>_. []), unmapped = []\<rparr>,
     m_user_count = 2,
     users = replicate 5 sample_conn @ [init_conn sample_conn, (init_conn sample_conn)\<lparr>m_sockfd := 6\<rparr>, sample_conn]\<rparr>"

lemma sample_server_user: "get_user 5 sample_server = Inr (init_conn sample_conn)"
  "length (users sample_server) = 8" "m_sockfd sample_conn = 5"
  "get_user 6 sample_server = Inr ((init_conn sample_conn)\<lparr>m_sockfd := 6\<rparr>)"
  by (simp_all add: get_user_def sample_server_def sample_conn_def nth_append)

theorem serve_request_witness:
  "\<exists>c s1 s2. read_conn (recv_script [''GET /ind'', ''ex.html HTTP/1.1'' @ CRLF, ''Connection: keep-alive'' @ CRLF @ CRLF])
       (init_conn sample_conn) = Inr (True, c) \<and>
     process sample_fs 5 (put_user 5 c sample_server) = Inr s1 \<and>
     write_conn zero_buf (\<lambda>k n. Sent n) 5 s1 = Some (Inr (True, s2)) \<and>
     wire (kern s2) 5 = answer_bytes sample_fs zero_buf ''/index.html'' True"
proof -
  let ?chunks = "[''GET /ind'', ''ex.html HTTP/1.1'' @ CRLF, ''Connection: keep-alive'' @ CRLF @ CRLF]"
  let ?rl = "''GET /index.html HTTP/1.1''" and ?hs = "[''Connection: keep-alive'']"
  have cat: "concat ?chunks = ?rl @ CRLF @ lines_bytes ?hs @ CRLF @ []" by simp
  have lin: "headers_linger False ?hs = True" "headers_length 0 ?hs = 0" by (simp_all add: sample_header)
  have "\<exists>c s1 s2. read_conn (recv_script ?chunks) (init_conn sample_conn) = Inr (True, c) \<and>
     process sample_fs 5 (put_user 5 c sample_server) = Inr s1 \<and>
     interest (kern s1) (m_sockfd sample_conn) = Some (armed EPOLLOUT) \<and>
     write_conn zero_buf (\<lambda>k n. Sent n) 5 s1 = Some (Inr (headers_linger False ?hs, s2)) \<and>
     wire (kern s2) = (wire (kern sample_server))(m_sockfd sample_conn :=
        wire (kern sample_server) (m_sockfd sample_conn) @ answer_bytes sample_fs zero_buf ''/index.html'' (headers_linger False ?hs)) \<and>
     interest (kern s2) (m_sockfd sample_conn) = Some (armed EPOLLIN)"
    by (rule serve_request [OF sample_server_user(1) _ _ cat _ _ _ _ _ sample_path])
      (auto simp: clean_line_def lin sample_header sample_server_user(2,3) sample_server_def sample_fs_def split: if_splits)
  then show ?thesis unfolding lin sample_server_user(3) by (auto simp: sample_server_def)
qed

text \<open>
  \<open>read\<close> drains the socket without ever storing outside of \<open>m_read_buf\<close>: it ends, and what it adds
  is what was received. That there is a byte to spare behind it, which the parser needs at a body,
  is not among the things it guarantees.
\<close>

theorem read_conn_safe:
  assumes "recv_contract recv" and "conn_inv c"
  shows "wp (\<lambda>(ok, c'). (\<exists>bs. c' = recv_store bs c) \<and> conn_inv c') (read_conn recv c)"
  using read_loop_post [OF assms, of 0] assms(2)
  by (auto simp: read_conn_def read_post_def intro: exI [of _ "[]"])

theorem read_conn_safe_witness:
  "wp (\<lambda>(ok, c'). (\<exists>bs. c' = recv_store bs (init_conn sample_conn)) \<and> conn_inv c')
     (read_conn (recv_script [sample_get]) (init_conn sample_conn))"
proof -
  have "fresh_conn (recv_store [] (init_conn sample_conn))" by (rule fresh_after_init) simp
  then have "conn_inv (init_conn sample_conn)" by (simp add: fresh_conn_inv)
  with recv_script_contract show ?thesis by (rule read_conn_safe)
qed

text \<open>
  The request that fills the buffer to its last byte: \<open>read\<close> reports success, and the worker that is
  given the connection runs out of the buffer, although the request announces a legal Content-Length.
\<close>

definition recv_full :: "string \<Rightarrow> nat \<Rightarrow> nat \<Rightarrow> recv_result" where
  "recv_full bs k n = (if k = 0 \<and> length bs \<le> n then Received bs else Recv_Again)"

theorem full_buffer_request:
  "recv_contract (recv_full sample_full) \<and>
   (\<exists>c. read_conn (recv_full sample_full) (init_conn sample_conn) = Inr (True, c) \<and>
      process_read sample_fs c = Inl Out_Of_Bounds)"
proof -
  have len: "length sample_full = 2048" and ne: "sample_full \<noteq> []" by (simp_all add: sample_full_def)
  have "recv_contract (recv_full sample_full)" by (auto simp: recv_contract_def recv_full_def)
  moreover have "read_conn (recv_full sample_full) (init_conn sample_conn) = Inr (True, recv_store sample_full (init_conn sample_conn))"
    using len ne by (simp add: read_conn_def read_loop.simps recv_full_def init_conn_def)
  ultimately show ?thesis using sample_full_fault by blast
qed

lemma write_loop_returns:
  assumes "\<And>k m n. writev k m = Sent n \<Longrightarrow> 0 < n"
  shows "\<exists>r. write_loop mem writev i k to_send have_send s = Some r"
proof (induction "nat (to_send - have_send)" arbitrary: k to_send have_send s rule: less_induct)
  case less
  show ?case
  proof (cases "get_user i s")
    case (Inr c)
    show ?thesis
    proof (cases "writev k (length (response_bytes mem c))")
      case (Sent n)
      let ?s = "s\<lparr>kern := send_wire (m_sockfd c) (take n (response_bytes mem c)) (kern s)\<rparr>"
      have "\<exists>r. write_loop mem writev i (Suc k) (to_send - int n) (have_send + int n) ?s = Some r"
        if "\<not> to_send - int n \<le> have_send + int n"
        using that assms [OF Sent] by (intro less) simp
      with Inr Sent show ?thesis by (auto simp: write_loop.simps [of mem writev i k] Let_def)
    qed (use Inr in \<open>simp_all add: write_loop.simps [of mem writev i k]\<close>)
  qed (simp add: write_loop.simps [of mem writev i k])
qed

text \<open>
  The loop of \<open>write\<close> ends if every \<open>writev\<close> that succeeds takes at least one byte.
\<close>

theorem write_conn_returns:
  assumes "\<And>k m n. writev k m = Sent n \<Longrightarrow> 0 < n"
  shows "\<exists>r. write_conn mem writev i s = Some r"
  using write_loop_returns [OF assms] by (auto simp: write_conn_def split: sum.split)

theorem write_conn_returns_witness:
  "\<exists>r. write_conn zero_buf (\<lambda>k m. if k < 3 then Sent 10 else Write_Again) 5 sample_server = Some r"
  by (rule write_conn_returns) (auto split: if_splits)

text \<open>
  A short write can be taken for a complete one: the loop counts the bytes of the write buffer
  only, so that a \<open>writev\<close> that stops anywhere after half of them ends the response. What was not
  sent is never sent: the mapping is given back, and with keep-alive the connection is reset.
\<close>

theorem short_write_truncates:
  assumes "get_user i s = Inr c" and "i + 1 < int (length (users s))" and "m_write_idx c \<noteq> 0"
    and "writev 0 (length (response_bytes mem c)) = Sent n" and "m_write_idx c \<le> 2 * n"
    and "n < length (response_bytes mem c)"
  shows "\<exists>s' c'. write_conn mem writev i s = Some (Inr (m_linger c, s')) \<and>
     wire (kern s') (m_sockfd c) = wire (kern s) (m_sockfd c) @ take n (response_bytes mem c) \<and>
     take n (response_bytes mem c) \<noteq> response_bytes mem c \<and>
     get_user i s' = Inr c' \<and> m_file_address c' = 0 \<and> (m_linger c \<longrightarrow> m_write_idx c' = 0)"
proof -
  from write_conn_sent [where writev = writev and mem = mem, OF assms(1-5)] obtain s' where
    "write_conn mem writev i s = Some (Inr (m_linger c, s'))"
    "wire (kern s') = (wire (kern s))(m_sockfd c := wire (kern s) (m_sockfd c) @ take n (response_bytes mem c))"
    "get_user i s' = Inr (let d = c\<lparr>m_file_address := 0\<rparr> in if m_linger c then init_conn d else d)" .
  moreover have "take n (response_bytes mem c) \<noteq> response_bytes mem c"
  proof
    assume "take n (response_bytes mem c) = response_bytes mem c"
    from arg_cong [OF this, of length] assms(6) show False by simp
  qed
  ultimately show ?thesis by (simp add: Let_def init_conn_def)
qed

text \<open>A connection whose 404 page is ready.\<close>

definition sample_answer :: http_conn where
  "sample_answer = (case process_write NO_RESOURCE (init_conn sample_conn) of Inr (_, c) \<Rightarrow> c | Inl _ \<Rightarrow> init_conn sample_conn)"

lemma sample_answer_facts:
  "m_write_idx sample_answer = length (written sample_answer)"
  "response_bytes zero_buf sample_answer = written sample_answer"
  "length (written sample_answer) = 138" "m_sockfd sample_answer = 5" "\<not> m_linger sample_answer"
proof -
  have pg: "error_page NO_RESOURCE = Some (404, error_404_title, error_404_form)" by (simp add: error_page_def)
  from error_response_bytes [OF sample_iv(2) pg] obtain c' where
    c': "process_write NO_RESOURCE (init_conn sample_conn) = Inr (True, c')"
    "written c' = response_head 404 error_404_title (int (length error_404_form)) False @ error_404_form"
    "m_iv c' = (m_iv (init_conn sample_conn))[0 := \<lparr>iov_base = Iov_Write_Buf, iov_len = length (written c')\<rparr>]"
    "m_iv_count c' = 1" using sample_iv(3) by auto
  then have eq: "sample_answer = c'" by (simp add: sample_answer_def)
  show "m_write_idx sample_answer = length (written sample_answer)" by (simp add: written_def)
  show "response_bytes zero_buf sample_answer = written sample_answer"
    unfolding eq using c'(3,4) sample_iv(1) by (simp add: response_bytes_def iov_bytes_def slice_written)
  have "length (response_head 404 error_404_title (int (length error_404_form)) False @ error_404_form) = 138"
    by code_simp
  with c'(2) show "length (written sample_answer) = 138" unfolding eq by simp
  show "m_sockfd sample_answer = 5" "\<not> m_linger sample_answer"
    using process_write_frame [OF c'(1)] sample_server_user(3) sample_iv(3) unfolding eq by (simp_all add: init_conn_def)
qed

lemma sample_answer_user: "get_user 5 (put_user 5 sample_answer sample_server) = Inr sample_answer"
  using sample_server_user(1) by (rule get_user_simps(2))

theorem short_write_truncates_witness:
  "\<exists>s' c'. write_conn zero_buf (\<lambda>_ _. Sent 80) 5 (put_user 5 sample_answer sample_server) = Some (Inr (False, s')) \<and>
     wire (kern s') 5 = take 80 (written sample_answer) \<and> take 80 (written sample_answer) \<noteq> written sample_answer \<and>
     get_user 5 s' = Inr c' \<and> m_file_address c' = 0"
  using short_write_truncates [OF sample_answer_user, of "\<lambda>_ _. Sent 80" zero_buf 80]
    sample_answer_facts sample_server_user(2)
  by (auto simp: sample_server_def)

text \<open>
  A write that is interrupted early starts over: \<open>m_iv\<close> is not advanced over what \<open>writev\<close>
  has taken, so that after a short write and EAGAIN the next EPOLLOUT sends the response from
  its beginning, behind the bytes already sent.
\<close>

theorem interrupted_write_repeats:
  assumes "get_user i s = Inr c" and "i + 1 < int (length (users s))"
    and "2 * n < m_write_idx c" and "m_write_idx c \<le> 2 * length (response_bytes mem c)"
  shows "\<exists>s1 s2. write_conn mem (\<lambda>k m. if k = 0 then Sent n else Write_Again) i s = Some (Inr (True, s1)) \<and>
     write_conn mem (\<lambda>k m. Sent m) i s1 = Some (Inr (m_linger c, s2)) \<and>
     wire (kern s2) (m_sockfd c) =
       wire (kern s) (m_sockfd c) @ take n (response_bytes mem c) @ response_bytes mem c"
proof -
  let ?w = "\<lambda>k m :: nat. if k = (0 :: nat) then Sent n else Write_Again"
  let ?s = "s\<lparr>kern := send_wire (m_sockfd c) (take n (response_bytes mem c)) (kern s)\<rparr>"
  let ?s1 = "?s\<lparr>kern := modifyfd (m_sockfd c) EPOLLOUT (kern ?s)\<rparr>"
  have g: "get_user i ?s = Inr c" "get_user i ?s1 = Inr c" using assms(1) by (simp_all add: get_user_simps)
  have first: "write_conn mem ?w i s = Some (Inr (True, ?s1))"
    using assms(1,3) g by (simp add: write_conn_def write_loop.simps [of mem ?w i 0]
        write_loop.simps [of mem ?w i "Suc 0"] Let_def)
  have "m_write_idx c \<noteq> 0" using assms(3) by simp
  moreover have "i + 1 < int (length (users ?s1))" using assms(2) by simp
  ultimately obtain s2 where "write_conn mem (\<lambda>k m. Sent m) i ?s1 = Some (Inr (m_linger c, s2))"
    "wire (kern s2) = (wire (kern ?s1))(m_sockfd c := wire (kern ?s1) (m_sockfd c) @
       take (length (response_bytes mem c)) (response_bytes mem c))"
    using write_conn_sent [OF g(2), of "\<lambda>k m. Sent m" mem "length (response_bytes mem c)"] assms(4) by blast
  with first show ?thesis by (intro exI [of _ ?s1] exI [of _ s2]) (simp add: send_wire_def)
qed

theorem interrupted_write_repeats_witness:
  "\<exists>s1 s2. write_conn zero_buf (\<lambda>k m. if k = 0 then Sent 20 else Write_Again) 5
       (put_user 5 sample_answer sample_server) = Some (Inr (True, s1)) \<and>
     write_conn zero_buf (\<lambda>k m. Sent m) 5 s1 = Some (Inr (False, s2)) \<and>
     wire (kern s2) 5 = take 20 (written sample_answer) @ written sample_answer"
  using interrupted_write_repeats [OF sample_answer_user, of 20 zero_buf] sample_answer_facts sample_server_user(2)
  by (simp add: sample_server_def)

lemma removefd_simps [simp]:
  "interest (removefd fd k) = (interest k)(fd := None)" "open_fds (removefd fd k) = open_fds k - {fd}"
  "wire (removefd fd k) = wire k" "unmapped (removefd fd k) = unmapped k"
  by (simp_all add: removefd_def close_fd_def epoll_ctl_del_def)

lemma addfd_simps [simp]:
  "open_fds (addfd fd one_shot k) = open_fds k" "wire (addfd fd one_shot k) = wire k"
  "unmapped (addfd fd one_shot k) = unmapped k"
  "interest (addfd fd one_shot k) =
     (if fd \<in> open_fds k \<and> interest k fd = None
      then (interest k)(fd \<mapsto> if one_shot then armed EPOLLIN else EPOLLIN OR EPOLLET OR EPOLLRDHUP) else interest k)"
  by (simp_all add: addfd_def setnonblocking_def epoll_ctl_add_def armed_def epoll_flags Let_def)

lemma closeconn_user:
  assumes "get_user i s = Inr c"
  shows "closeconn i s = Inr (if m_sockfd c = - 1 then s else
     put_user i (c\<lparr>m_sockfd := - 1\<rparr>)
       (s\<lparr>kern := removefd (m_sockfd c) (kern s), m_user_count := m_user_count s - 1\<rparr>))"
  using assms by (simp add: closeconn_def)

text \<open>
  Closing a connection closes its descriptor, takes it out of the interest list and counts it
  off once: a second \<open>closeconn\<close> changes nothing.
\<close>

theorem closeconn_once:
  assumes "get_user i s = Inr c" and "m_sockfd c \<noteq> - 1"
  shows "\<exists>s'. closeconn i s = Inr s' \<and> closeconn i s' = Inr s' \<and> m_user_count s' = m_user_count s - 1 \<and>
     interest (kern s') = (interest (kern s))(m_sockfd c := None) \<and>
     open_fds (kern s') = open_fds (kern s) - {m_sockfd c}"
proof -
  let ?s = "put_user i (c\<lparr>m_sockfd := - 1\<rparr>)
       (s\<lparr>kern := removefd (m_sockfd c) (kern s), m_user_count := m_user_count s - 1\<rparr>)"
  have "get_user i ?s = Inr (c\<lparr>m_sockfd := - 1\<rparr>)"
    using assms(1) by (intro get_user_simps(2) [of _ _ c]) (simp add: get_user_def split: if_splits)
  with closeconn_user [OF this] closeconn_user [OF assms(1)] assms(2) show ?thesis
    by (intro exI [of _ ?s]) simp
qed

theorem closeconn_once_witness:
  "\<exists>s'. closeconn 6 sample_server = Inr s' \<and> closeconn 6 s' = Inr s' \<and> m_user_count s' = 1 \<and>
     interest (kern s') = [5 \<mapsto> armed EPOLLIN] \<and> open_fds (kern s') = {0, 1, 2, 3, 4, 5}"
  using closeconn_once [OF sample_server_user(4)] by (auto simp: sample_server_def)

text \<open>
  C37. \<open>init\<close> of one connection damages the next one: with the client of descriptor \<open>i + 1\<close>
  connected, a call for \<open>i\<close> (a new client, or the end of a kept response) sets the neighbour's
  \<open>m_sockfd\<close> to 0 and wipes its read buffer. When the neighbour then closes, descriptor 0 is
  closed in place of its socket, which stays open and registered.
\<close>

theorem init_spills_into_neighbour:
  assumes "get_user i s = Inr c" and "get_user (i + 1) s = Inr d" and "m_sockfd d \<noteq> 0"
    and "m_sockfd d \<in> open_fds (kern s)"
  shows "\<exists>s1 s2 d'. init i s = Inr s1 \<and> get_user (i + 1) s1 = Inr d' \<and> m_sockfd d' = 0 \<and>
     (\<forall>k < SPILL. m_read_buf d' k = NUL) \<and>
     closeconn (i + 1) s1 = Inr s2 \<and> open_fds (kern s2) = open_fds (kern s) - {0} \<and>
     m_sockfd d \<in> open_fds (kern s2) \<and> interest (kern s2) (m_sockfd d) = interest (kern s) (m_sockfd d)"
proof -
  have i: "i + 1 < int (length (users s))" "users s ! nat (i + 1) = d" using get_userD [OF assms(2)] by auto
  from init_user [OF assms(1) i(1)] i(2) obtain s1 where s1: "init i s = Inr s1" "kern s1 = kern s"
    "get_user (i + 1) s1 = Inr (spill d)" by metis
  have "m_read_buf (spill d) k = NUL" if "k < SPILL" for k
    using that by (simp add: spill_def blit_def)
  with s1 closeconn_user [OF s1(3)] assms(3,4) show ?thesis by (auto simp: spill_def)
qed

theorem init_spills_into_neighbour_witness:
  "\<exists>s1 s2 d'. init 5 sample_server = Inr s1 \<and> get_user 6 s1 = Inr d' \<and> m_sockfd d' = 0 \<and>
     closeconn 6 s1 = Inr s2 \<and> 0 \<notin> open_fds (kern s2) \<and> 6 \<in> open_fds (kern s2) \<and>
     interest (kern s2) 6 = Some (armed EPOLLIN)"
proof -
  have "get_user (5 + 1) sample_server = Inr ((init_conn sample_conn)\<lparr>m_sockfd := 6\<rparr>)"
    using sample_server_user(4) by simp
  from init_spills_into_neighbour [OF sample_server_user(1) this] show ?thesis
    by (fastforce simp: sample_server_def)
qed

text \<open>
  A connection that is closed before its file was sent leaks the mapping: \<open>closeconn\<close> does
  not unmap, and \<open>init\<close> for the next client of the descriptor forgets the address.
\<close>

theorem closed_connection_leaks_mapping:
  assumes "get_user i s = Inr c" and "m_file_address c \<noteq> 0" and "m_sockfd c \<noteq> - 1" and "i + 1 < int (length (users s))"
  shows "\<exists>s1 s2 c'. closeconn i s = Inr s1 \<and> init_sock i fd addr s1 = Inr s2 \<and>
     get_user i s2 = Inr c' \<and> m_sockfd c' = fd \<and> m_file_address c' = 0 \<and> unmapped (kern s2) = unmapped (kern s)"
proof -
  let ?c = "c\<lparr>m_sockfd := - 1\<rparr>"
  let ?s1 = "put_user i ?c (s\<lparr>kern := removefd (m_sockfd c) (kern s), m_user_count := m_user_count s - 1\<rparr>)"
  let ?d = "?c\<lparr>m_sockfd := fd, m_address := addr\<rparr>"
  let ?s2 = "(put_user i ?d ?s1)\<lparr>kern := addfd fd True (kern ?s1), m_user_count := m_user_count ?s1 + 1\<rparr>"
  have g1: "get_user i ?s1 = Inr ?c"
    using assms(1) by (intro get_user_simps(2) [of _ _ c]) (simp add: get_user_def split: if_splits)
  have "get_user i (put_user i ?d ?s1) = Inr ?d" using g1 by (rule get_user_simps(2))
  then have "get_user i ?s2 = Inr ?d" unfolding get_user_simps(4,5) by (simp add: get_user_def split: if_splits)
  from init_user [OF this] assms(4) obtain s3 where s3: "init i ?s2 = Inr s3" "get_user i s3 = Inr (init_conn ?d)"
    "kern s3 = kern ?s2" by auto
  have "init_sock i fd addr ?s1 = Inr s3"
    using g1 s3(1) by (simp add: init_sock_def Let_def)
  then show ?thesis
    using closeconn_user [OF assms(1)] assms(3) s3(2,3)
    by (intro exI [of _ ?s1] exI [of _ s3] exI [of _ "init_conn ?d"]) (simp add: init_conn_def)
qed

theorem closed_connection_leaks_mapping_witness:
  "\<exists>s1 s2 c'. closeconn 5 (put_user 5 ((init_conn sample_conn)\<lparr>m_file_address := 4096\<rparr>) sample_server) = Inr s1 \<and>
     init_sock 5 5 \<lparr>sin_port = 80, sin_addr = 1\<rparr> s1 = Inr s2 \<and>
     get_user 5 s2 = Inr c' \<and> m_sockfd c' = 5 \<and> m_file_address c' = 0 \<and> unmapped (kern s2) = []"
  using closed_connection_leaks_mapping [OF get_user_simps(2) [OF sample_server_user(1)],
      of "(init_conn sample_conn)\<lparr>m_file_address := 4096\<rparr>" 5 "\<lparr>sin_port = 80, sin_addr = 1\<rparr>"] sample_server_user(2,3)
  by (simp add: init_conn_def sample_server_def)

end
