(* ===== verification/Containers.thy ===== *)
theory Containers
  imports Prelude
begin

text \<open>
  The standard containers the programs queue and index their work with: \<open>std::list\<close> and
  \<open>std::queue\<close> as they are used (elements enter at the back and leave at the front), and
  \<open>std::map\<close>. The locales \<open>fifo\<close> and \<open>dictionary\<close> state what the clients rely on; the lemmas the
  clients share are proved in them once, and both are interpreted on the models of the
  containers.
\<close>

section \<open>First in, first out\<close>

text \<open>
  \<open>front\<close> and \<open>pop_front\<close> of an empty container have no meaning in C++.
\<close>

definition push_back :: "'a \<Rightarrow> 'a list \<Rightarrow> 'a list" where
  "push_back x q = q @ [x]"

definition front :: "'a list \<Rightarrow> 'a res" where
  "front q = (case q of [] \<Rightarrow> Inl Empty_Container | x # _ \<Rightarrow> Inr x)"

definition pop_front :: "'a list \<Rightarrow> 'a list res" where
  "pop_front q = (case q of [] \<Rightarrow> Inl Empty_Container | _ # q' \<Rightarrow> Inr q')"

locale fifo =
  fixes items :: "'q \<Rightarrow> 'a list"
    and push :: "'a \<Rightarrow> 'q \<Rightarrow> 'q"
    and first :: "'q \<Rightarrow> 'a res"
    and pop :: "'q \<Rightarrow> 'q res"
  assumes items_push: "items (push x q) = items q @ [x]"
    and first_items: "items q = x # xs \<Longrightarrow> first q = Inr x"
    and pop_items: "items q = x # xs \<Longrightarrow> \<exists>q'. pop q = Inr q' \<and> items q' = xs"
    and empty_faults: "items q = [] \<Longrightarrow> first q = Inl Empty_Container \<and> pop q = Inl Empty_Container"
begin

text \<open>
  Accounting: \<open>ins\<close> is everything that has been put in so far and \<open>outs\<close> everything that has been
  taken out. The queue holds the difference, in order.
\<close>

lemma account_push: "ins = outs @ items q \<Longrightarrow> ins @ [x] = outs @ items (push x q)"
  by (simp add: items_push)

lemma account_pop:
  assumes "ins = outs @ items q" and "first q = Inr x" and "pop q = Inr q'"
  shows "ins = (outs @ [x]) @ items q'"
proof (cases "items q")
  case Nil
  with empty_faults assms(2) show ?thesis by simp
next
  case (Cons y ys)
  with first_items pop_items assms show ?thesis by fastforce
qed

lemma take_succeeds_iff: "(\<exists>x q'. first q = Inr x \<and> pop q = Inr q') \<longleftrightarrow> items q \<noteq> []"
proof (cases "items q")
  case Nil
  with empty_faults show ?thesis by simp
next
  case (Cons y ys)
  with first_items [OF Cons] pop_items [OF Cons] show ?thesis by auto
qed

lemma take_length: "first q = Inr x \<Longrightarrow> pop q = Inr q' \<Longrightarrow> length (items q) = Suc (length (items q'))"
  using account_pop [of "items q" "[]" q x q'] by simp

lemma push_length: "length (items (push x q)) = Suc (length (items q))"
  by (simp add: items_push)

end

interpretation std_queue: fifo "\<lambda>q :: 'a list. q" push_back front pop_front
  by unfold_locales (simp_all add: push_back_def front_def pop_front_def)

lemmas queue_defs = push_back_def front_def pop_front_def

lemma front_pop_cases:
  obtains "q = []" and "front q = Inl Empty_Container" and "pop_front q = Inl Empty_Container"
  | x q' where "q = x # q'" and "front q = Inr x" and "pop_front q = Inr q'"
  by (cases q) (simp_all add: queue_defs)

section \<open>Dictionaries\<close>

text \<open>
  \<open>std::map::insert\<close> of a pair keeps the old value where the key is present; \<open>m[k] = v\<close>
  overwrites; \<open>erase\<close> of an absent key does nothing; \<open>at\<close> and \<open>find\<close> look up.
\<close>

definition map_insert :: "'k \<Rightarrow> 'v \<Rightarrow> ('k \<rightharpoonup> 'v) \<Rightarrow> ('k \<rightharpoonup> 'v)" where
  "map_insert k v m = (case m k of None \<Rightarrow> m(k \<mapsto> v) | Some _ \<Rightarrow> m)"

definition map_assign :: "'k \<Rightarrow> 'v \<Rightarrow> ('k \<rightharpoonup> 'v) \<Rightarrow> ('k \<rightharpoonup> 'v)" where
  "map_assign k v m = m(k \<mapsto> v)"

definition map_erase :: "'k \<Rightarrow> ('k \<rightharpoonup> 'v) \<Rightarrow> ('k \<rightharpoonup> 'v)" where
  "map_erase k m = m(k := None)"

definition map_find :: "'k \<Rightarrow> ('k \<rightharpoonup> 'v) \<Rightarrow> 'v option" where
  "map_find k m = m k"

locale dictionary =
  fixes find :: "'k \<Rightarrow> 'm \<Rightarrow> 'v option"
    and insert :: "'k \<Rightarrow> 'v \<Rightarrow> 'm \<Rightarrow> 'm"
    and erase :: "'k \<Rightarrow> 'm \<Rightarrow> 'm"
  assumes find_insert: "find k m = None \<Longrightarrow> find j (insert k v m) = (if j = k then Some v else find j m)"
    and find_erase: "find j (erase k m) = (if j = k then None else find j m)"
begin

lemma insert_erase: "find k m = None \<Longrightarrow> find j (erase k (insert k v m)) = find j m"
  by (simp add: find_insert find_erase)

lemma erase_twice: "find j (erase k (erase k m)) = find j (erase k m)"
  by (simp add: find_erase)

lemma insert_other: "find k m = None \<Longrightarrow> j \<noteq> k \<Longrightarrow> find j (insert k v m) = find j m"
  by (simp add: find_insert)

end

interpretation std_map: dictionary map_find map_insert map_erase
  by unfold_locales (simp_all add: map_find_def map_insert_def map_erase_def)

interpretation std_map_assign: dictionary map_find map_assign map_erase
  by unfold_locales (simp_all add: map_find_def map_assign_def map_erase_def)

lemmas map_defs = map_find_def map_insert_def map_assign_def map_erase_def

section \<open>Ranges\<close>

lemma upt_Suc_map: "[0..<Suc n] = 0 # map Suc [0..<n]"
  by (simp add: map_Suc_upt upt_conv_Cons)

section \<open>Counting the elements of a list that satisfy a predicate\<close>

definition count_if :: "('a \<Rightarrow> bool) \<Rightarrow> 'a list \<Rightarrow> nat" where
  "count_if P xs = length (filter P xs)"

lemma count_if_simps [simp]:
  "count_if P [] = 0"
  "count_if P (x # xs) = (if P x then Suc (count_if P xs) else count_if P xs)"
  "count_if P (xs @ ys) = count_if P xs + count_if P ys"
  by (simp_all add: count_if_def)

lemma count_if_update:
  "i < length xs \<Longrightarrow>
     count_if P (xs[i := y]) + (if P (xs ! i) then 1 else 0) = count_if P xs + (if P y then 1 else 0)"
proof (induction xs arbitrary: i)
  case (Cons x xs)
  then show ?case by (cases i) auto
qed simp

lemma count_if_pos: "i < length xs \<Longrightarrow> P (xs ! i) \<Longrightarrow> 0 < count_if P xs"
  by (auto simp: count_if_def filter_empty_conv)

lemma count_if_posE:
  assumes "0 < count_if P xs"
  obtains i where "i < length xs" and "P (xs ! i)"
  using assms by (auto simp: count_if_def filter_empty_conv in_set_conv_nth)

lemma count_if_replicate [simp]: "count_if P (replicate n x) = (if P x then n else 0)"
  by (simp add: count_if_def)

end
