(* ===== verification/Thread_Pool.thy ===== *)
theory Thread_Pool
  imports Containers
begin

text \<open>
  The thread pool (\<open>1. Proactor/threadpool.h\<close>) and the lock and semaphore it uses
  (\<open>1. Proactor/locker.h\<close>). The operations are given as the methods are written; \<open>append\<close> and
  \<open>run\<close> are also given as programs of atomic steps, one for every lock, test, queue operation,
  unlock and semaphore operation, so that any number of workers and appending threads
  interleave. A request is a pointer: \<open>None\<close> is the null pointer.
\<close>

section \<open>Lock and semaphore\<close>

text \<open>\<open>lock\<close> and \<open>wait\<close> block: \<open>None\<close> while the lock is held, or the count is 0.\<close>

record 'a threadpool =
  m_thread_number :: int
  m_maxrequestnum :: int
  m_workqueue :: "'a option list"
  m_queuelocker :: "nat option"
  m_queuestat :: nat
  m_stop :: bool

definition locker_lock :: "nat \<Rightarrow> 'a threadpool \<Rightarrow> 'a threadpool option" where
  "locker_lock t p = (if m_queuelocker p = None then Some (p\<lparr>m_queuelocker := Some t\<rparr>) else None)"

definition locker_unlock :: "'a threadpool \<Rightarrow> 'a threadpool" where
  "locker_unlock p = p\<lparr>m_queuelocker := None\<rparr>"

definition sem_wait :: "'a threadpool \<Rightarrow> 'a threadpool option" where
  "sem_wait p = (if 0 < m_queuestat p then Some (p\<lparr>m_queuestat := m_queuestat p - 1\<rparr>) else None)"

definition sem_post :: "'a threadpool \<Rightarrow> 'a threadpool" where
  "sem_post p = p\<lparr>m_queuestat := m_queuestat p + 1\<rparr>"

lemmas sync_defs = locker_lock_def locker_unlock_def sem_wait_def sem_post_def

section \<open>Construction\<close>

text \<open>
  The constructor throws when an argument is not positive, or when a thread cannot be created or
  detached; \<open>create\<close> and \<open>detach\<close> are what \<open>pthread_create\<close> and \<open>pthread_detach\<close> return for the
  i-th thread. The number in the exception is that of the threads that run at that point.
\<close>

datatype ctor_exception = Invalid_Argument | Thread_Failure nat

fun start_threads :: "(nat \<Rightarrow> int) \<Rightarrow> (nat \<Rightarrow> int) \<Rightarrow> nat \<Rightarrow> nat \<Rightarrow> ctor_exception + nat" where
  "start_threads create detach i 0 = Inr i"
| "start_threads create detach i (Suc n) =
     (if create i \<noteq> 0 then Inl (Thread_Failure i)
      else if detach i \<noteq> 0 then Inl (Thread_Failure (Suc i))
      else start_threads create detach (Suc i) n)"

definition threadpool_ctor ::
  "(nat \<Rightarrow> int) \<Rightarrow> (nat \<Rightarrow> int) \<Rightarrow> int \<Rightarrow> int \<Rightarrow> ctor_exception + 'a threadpool" where
  "threadpool_ctor create detach thread_number max_request =
     (if thread_number \<le> 0 \<or> max_request \<le> 0 then Inl Invalid_Argument
      else case start_threads create detach 0 (nat thread_number) of
        Inl e \<Rightarrow> Inl e
      | Inr _ \<Rightarrow> Inr \<lparr>m_thread_number = thread_number, m_maxrequestnum = max_request, m_workqueue = [],
                      m_queuelocker = None, m_queuestat = 0, m_stop = False\<rparr>)"

definition threadpool_dtor :: "'a threadpool \<Rightarrow> 'a threadpool" where
  "threadpool_dtor p = p\<lparr>m_stop := True\<rparr>"

section \<open>Adding a request\<close>

text \<open>
  \<open>m_workqueue.size() > m_maxrequestnum\<close> compares unsigned 64-bit numbers.
\<close>

definition queue_full :: "'a threadpool \<Rightarrow> bool" where
  "queue_full p \<longleftrightarrow> m_maxrequestnum p mod 2 ^ 64 < int (length (m_workqueue p))"

definition append_request :: "nat \<Rightarrow> 'a option \<Rightarrow> 'a threadpool \<Rightarrow> (bool \<times> 'a threadpool) option" where
  "append_request t request p =
     (case locker_lock t p of
        None \<Rightarrow> None
      | Some p \<Rightarrow>
          if queue_full p then Some (False, locker_unlock p)
          else Some (True, sem_post (locker_unlock (p\<lparr>m_workqueue := push_back request (m_workqueue p)\<rparr>))))"

section \<open>Threads\<close>

text \<open>Where a thread stands: outside, in \<open>append\<close>, or in \<open>run\<close>.\<close>

datatype 'a pc =
    Idle
  | Append_Lock "'a option" | Append_Check "'a option" | Append_Push "'a option" | Append_Unlock_Full | Append_Unlock | Append_Post
  | Append_Return bool
  | Run_Test | Run_Wait | Run_Lock | Run_Check | Run_Front | Run_Pop "'a option" | Run_Unlock_Empty | Run_Unlock "'a option"
  | Run_Process 'a | Run_Exit

text \<open>
  The threads over the pool, with what was put into and taken out of the queue and what was
  processed, in order.
\<close>

record 'a pool_run =
  pool :: "'a threadpool"
  pcs :: "'a pc list"
  appended :: "'a option list"
  taken :: "'a option list"
  processed :: "'a list"

definition goto :: "nat \<Rightarrow> 'a pc \<Rightarrow> 'a pool_run \<Rightarrow> 'a pool_run" where
  "goto t l s = s\<lparr>pcs := (pcs s)[t := l]\<rparr>"

definition append_step :: "nat \<Rightarrow> 'a pc \<Rightarrow> 'a pool_run \<Rightarrow> 'a pool_run option" where
  "append_step t l s =
     (case l of
        Append_Lock r \<Rightarrow>
          (case locker_lock t (pool s) of
             None \<Rightarrow> None
           | Some p \<Rightarrow> Some (goto t (Append_Check r) (s\<lparr>pool := p\<rparr>)))
      | Append_Check r \<Rightarrow>
          if queue_full (pool s) then Some (goto t Append_Unlock_Full s)
          else Some (goto t (Append_Push r) s)
      | Append_Push r \<Rightarrow>
          Some (goto t Append_Unlock
            (s\<lparr>pool := (pool s)\<lparr>m_workqueue := push_back r (m_workqueue (pool s))\<rparr>,
               appended := appended s @ [r]\<rparr>))
      | Append_Unlock_Full \<Rightarrow> Some (goto t (Append_Return False) (s\<lparr>pool := locker_unlock (pool s)\<rparr>))
      | Append_Unlock \<Rightarrow> Some (goto t Append_Post (s\<lparr>pool := locker_unlock (pool s)\<rparr>))
      | Append_Post \<Rightarrow> Some (goto t (Append_Return True) (s\<lparr>pool := sem_post (pool s)\<rparr>))
      | Append_Return _ \<Rightarrow> Some (goto t Idle s)
      | _ \<Rightarrow> None)"

definition run_step :: "nat \<Rightarrow> 'a pc \<Rightarrow> 'a pool_run \<Rightarrow> 'a pool_run res option" where
  "run_step t l s =
     (case l of
        Run_Test \<Rightarrow> Some (Inr (goto t (if m_stop (pool s) then Run_Exit else Run_Wait) s))
      | Run_Wait \<Rightarrow>
          (case sem_wait (pool s) of
             None \<Rightarrow> None
           | Some p \<Rightarrow> Some (Inr (goto t Run_Lock (s\<lparr>pool := p\<rparr>))))
      | Run_Lock \<Rightarrow>
          (case locker_lock t (pool s) of
             None \<Rightarrow> None
           | Some p \<Rightarrow> Some (Inr (goto t Run_Check (s\<lparr>pool := p\<rparr>))))
      | Run_Check \<Rightarrow>
          if m_workqueue (pool s) = [] then Some (Inr (goto t Run_Unlock_Empty s))
          else Some (Inr (goto t Run_Front s))
      | Run_Front \<Rightarrow> Some (bindr (front (m_workqueue (pool s))) (\<lambda>request. Inr (goto t (Run_Pop request) s)))
      | Run_Pop request \<Rightarrow>
          Some (bindr (pop_front (m_workqueue (pool s))) (\<lambda>q.
            Inr (goto t (Run_Unlock request) (s\<lparr>pool := (pool s)\<lparr>m_workqueue := q\<rparr>, taken := taken s @ [request]\<rparr>))))
      | Run_Unlock_Empty \<Rightarrow> Some (Inr (goto t Run_Test (s\<lparr>pool := locker_unlock (pool s)\<rparr>)))
      | Run_Unlock request \<Rightarrow>
          Some (Inr (goto t (case request of None \<Rightarrow> Run_Test | Some r \<Rightarrow> Run_Process r)
            (s\<lparr>pool := locker_unlock (pool s)\<rparr>)))
      | Run_Process r \<Rightarrow> Some (Inr (goto t Run_Test (s\<lparr>processed := processed s @ [r]\<rparr>)))
      | _ \<Rightarrow> None)"

text \<open>One step of the system: a thread outside calls \<open>append\<close>, or a thread in a method moves on.\<close>

inductive pool_step :: "'a pool_run \<Rightarrow> 'a pool_run \<Rightarrow> bool" where
  call: "t < length (pcs s) \<Longrightarrow> pcs s ! t = Idle \<Longrightarrow> pool_step s (goto t (Append_Lock r) s)"
| append: "t < length (pcs s) \<Longrightarrow> append_step t (pcs s ! t) s = Some s' \<Longrightarrow> pool_step s s'"
| run: "t < length (pcs s) \<Longrightarrow> run_step t (pcs s ! t) s = Some (Inr s') \<Longrightarrow> pool_step s s'"

inductive_cases pool_stepE: "pool_step s s'"

text \<open>The pool after its construction: \<open>w\<close> workers at the start of \<open>run\<close> and \<open>n\<close> threads outside.\<close>

definition pool_start :: "nat \<Rightarrow> nat \<Rightarrow> 'a threadpool \<Rightarrow> 'a pool_run" where
  "pool_start w n p = \<lparr>pool = p, pcs = replicate w Run_Test @ replicate n Idle, appended = [], taken = [], processed = []\<rparr>"

section \<open>The invariant\<close>

fun critical :: "'a pc \<Rightarrow> bool" where
  "critical (Append_Check _) = True"
| "critical (Append_Push _) = True"
| "critical Append_Unlock_Full = True"
| "critical Append_Unlock = True"
| "critical Run_Check = True"
| "critical Run_Front = True"
| "critical (Run_Pop _) = True"
| "critical Run_Unlock_Empty = True"
| "critical (Run_Unlock _) = True"
| "critical _ = False"

text \<open>
  A worker between \<open>m_queuestat.wait()\<close> and \<open>pop_front\<close> owns one element of the queue; an appending
  thread between \<open>push_back\<close> and \<open>post\<close> has put one in that is not announced yet.
\<close>

fun has_ticket :: "'a pc \<Rightarrow> bool" where
  "has_ticket Run_Lock = True"
| "has_ticket Run_Check = True"
| "has_ticket Run_Front = True"
| "has_ticket (Run_Pop _) = True"
| "has_ticket _ = False"

fun unposted :: "'a pc \<Rightarrow> bool" where
  "unposted Append_Unlock = True"
| "unposted Append_Post = True"
| "unposted _ = False"

fun works_on :: "'a \<Rightarrow> 'a pc \<Rightarrow> bool" where
  "works_on r (Run_Unlock (Some x)) = (x = r)"
| "works_on r (Run_Process x) = (x = r)"
| "works_on r _ = False"

definition mutex_inv :: "'a pool_run \<Rightarrow> bool" where
  "mutex_inv s \<longleftrightarrow>
     (\<forall>t. m_queuelocker (pool s) = Some t \<longleftrightarrow> t < length (pcs s) \<and> critical (pcs s ! t))"

definition ticket_inv :: "'a pool_run \<Rightarrow> bool" where
  "ticket_inv s \<longleftrightarrow>
     m_queuestat (pool s) + count_if has_ticket (pcs s) + count_if unposted (pcs s) = length (m_workqueue (pool s))"

definition account_inv :: "'a pool_run \<Rightarrow> bool" where
  "account_inv s \<longleftrightarrow> appended s = taken s @ m_workqueue (pool s)"

definition work_inv :: "'a pool_run \<Rightarrow> bool" where
  "work_inv s \<longleftrightarrow> (\<forall>r. count_if (\<lambda>x. x = Some r) (taken s) =
     count_if (\<lambda>x. x = r) (processed s) + count_if (works_on r) (pcs s))"

definition bound_inv :: "'a pool_run \<Rightarrow> bool" where
  "bound_inv s \<longleftrightarrow> 0 < m_maxrequestnum (pool s) \<and> m_maxrequestnum (pool s) < 2 ^ 31 \<and>
     int (length (m_workqueue (pool s))) \<le> m_maxrequestnum (pool s) + 1"

text \<open>
  What a thread has seen of the queue still holds when it acts on it: there is room for the request
  it pushes, and what it pops is what it has read from the front.
\<close>

fun seen :: "'a threadpool \<Rightarrow> 'a pc \<Rightarrow> bool" where
  "seen p (Append_Push _) = (\<not> queue_full p)"
| "seen p Run_Front = (m_workqueue p \<noteq> [])"
| "seen p (Run_Pop r) = (\<exists>q. m_workqueue p = r # q)"
| "seen p _ = True"

definition seen_inv :: "'a pool_run \<Rightarrow> bool" where
  "seen_inv s \<longleftrightarrow> (\<forall>t < length (pcs s). seen (pool s) (pcs s ! t))"

lemma seen_cong: "m_workqueue p' = m_workqueue p \<Longrightarrow> m_maxrequestnum p' = m_maxrequestnum p \<Longrightarrow> seen p' l = seen p l"
  by (cases l) (simp_all add: queue_full_def)

lemma seen_outside: "\<not> critical l \<Longrightarrow> seen p l"
  by (cases l) simp_all

section \<open>Steps keep the invariant\<close>

lemma goto_simps [simp]:
  "pool (goto t l s) = pool s" "appended (goto t l s) = appended s" "taken (goto t l s) = taken s"
  "processed (goto t l s) = processed s" "pcs (goto t l s) = (pcs s)[t := l]"
  by (simp_all add: goto_def)

lemma mutex_inv_free:
  assumes "mutex_inv s" and "m_queuelocker (pool s) = None" and "t < length (pcs s)"
  shows "\<not> critical (pcs s ! t)"
  using assms by (auto simp: mutex_inv_def)

lemma mutex_inv_only:
  assumes "mutex_inv s" and "t < length (pcs s)" and "critical (pcs s ! t)" and "u < length (pcs s)" and "critical (pcs s ! u)"
  shows "u = t"
  using assms unfolding mutex_inv_def by (metis option.inject)

lemma mutex_acquire:
  assumes "mutex_inv s" and "m_queuelocker (pool s) = None" and "t < length (pcs s)" and "critical l"
    and "m_queuelocker (pool s') = Some t" and "pcs s' = (pcs s)[t := l]"
  shows "mutex_inv s'"
  using assms mutex_inv_free [OF assms(1,2)] by (auto simp: mutex_inv_def nth_list_update)

lemma mutex_release:
  assumes "mutex_inv s" and "t < length (pcs s)" and "critical (pcs s ! t)" and "\<not> critical l"
    and "m_queuelocker (pool s') = None" and "pcs s' = (pcs s)[t := l]"
  shows "mutex_inv s'"
proof -
  have "\<not> critical (pcs s' ! u)" if "u < length (pcs s)" for u
    using that assms(2,4,6) mutex_inv_only [OF assms(1-3) that] by (cases "u = t") auto
  with assms(5,6) show ?thesis by (simp add: mutex_inv_def)
qed

lemma mutex_keep:
  assumes "mutex_inv s" and "t < length (pcs s)" and "critical l = critical (pcs s ! t)"
    and "m_queuelocker (pool s') = m_queuelocker (pool s)" and "pcs s' = (pcs s)[t := l]"
  shows "mutex_inv s'"
  using assms by (auto simp: mutex_inv_def nth_list_update)

lemma mutex_append_step:
  assumes "mutex_inv s" and "t < length (pcs s)" and "append_step t (pcs s ! t) s = Some s'"
  shows "mutex_inv s'"
proof (cases "pcs s ! t")
  case (Append_Lock r)
  with assms(3) show ?thesis
    by (intro mutex_acquire [OF assms(1) _ assms(2), of "Append_Check r"]) (auto simp: append_step_def sync_defs split: if_splits option.splits)
next
  case (Append_Check r)
  with assms(3) show ?thesis
    by (intro mutex_keep [OF assms(1,2), of "if queue_full (pool s) then Append_Unlock_Full else Append_Push r"])
      (auto simp: append_step_def sync_defs split: if_splits)
next
  case (Append_Push r)
  with assms(3) show ?thesis by (intro mutex_keep [OF assms(1,2), of Append_Unlock]) (auto simp: append_step_def)
next
  case Append_Unlock_Full
  with assms(3) show ?thesis
    by (intro mutex_release [OF assms(1,2), of "Append_Return False"]) (auto simp: append_step_def sync_defs)
next
  case Append_Unlock
  with assms(3) show ?thesis by (intro mutex_release [OF assms(1,2), of Append_Post]) (auto simp: append_step_def sync_defs)
next
  case Append_Post
  with assms(3) show ?thesis by (intro mutex_keep [OF assms(1,2), of "Append_Return True"]) (auto simp: append_step_def sync_defs)
next
  case (Append_Return b)
  with assms(3) show ?thesis by (intro mutex_keep [OF assms(1,2), of Idle]) (auto simp: append_step_def sync_defs)
qed (use assms(3) in \<open>simp_all add: append_step_def\<close>)

lemma mutex_run_step:
  assumes "mutex_inv s" and "t < length (pcs s)" and "run_step t (pcs s ! t) s = Some (Inr s')"
  shows "mutex_inv s'"
proof (cases "pcs s ! t")
  case Run_Test
  with assms(3) show ?thesis
    by (intro mutex_keep [OF assms(1,2), of "if m_stop (pool s) then Run_Exit else Run_Wait"]) (auto simp: run_step_def)
next
  case Run_Wait
  with assms(3) show ?thesis
    by (intro mutex_keep [OF assms(1,2), of Run_Lock]) (auto simp: run_step_def sync_defs split: if_splits option.splits)
next
  case Run_Lock
  with assms(3) show ?thesis
    by (intro mutex_acquire [OF assms(1) _ assms(2), of Run_Check]) (auto simp: run_step_def sync_defs split: if_splits option.splits)
next
  case Run_Check
  with assms(3) show ?thesis
    by (intro mutex_keep [OF assms(1,2), of "if m_workqueue (pool s) = [] then Run_Unlock_Empty else Run_Front"])
      (auto simp: run_step_def split: if_splits)
next
  case Run_Front
  with assms(3) show ?thesis
    by (intro mutex_keep [OF assms(1,2), of "Run_Pop (hd (m_workqueue (pool s)))"])
      (auto simp: run_step_def bindr_eq_Inr queue_defs split: list.splits)
next
  case (Run_Pop r)
  with assms(3) show ?thesis
    by (intro mutex_keep [OF assms(1,2), of "Run_Unlock r"]) (auto simp: run_step_def bindr_eq_Inr queue_defs split: list.splits)
next
  case Run_Unlock_Empty
  with assms(3) show ?thesis by (intro mutex_release [OF assms(1,2), of Run_Test]) (auto simp: run_step_def sync_defs)
next
  case (Run_Unlock r)
  with assms(3) show ?thesis
    by (intro mutex_release [OF assms(1,2), of "case r of None \<Rightarrow> Run_Test | Some r \<Rightarrow> Run_Process r"])
      (auto simp: run_step_def sync_defs split: option.splits)
next
  case (Run_Process r)
  with assms(3) show ?thesis by (intro mutex_keep [OF assms(1,2), of Run_Test]) (auto simp: run_step_def)
qed (use assms(3) in \<open>simp_all add: run_step_def\<close>)

text \<open>Only the thread that holds the lock changes the queue, so that what the others have seen is not touched.\<close>

lemma seen_step:
  assumes mx: "mutex_inv s" and sn: "seen_inv s" and t: "t < length (pcs s)"
    and pc: "pcs s' = (pcs s)[t := l]" and max: "m_maxrequestnum (pool s') = m_maxrequestnum (pool s)"
    and q: "m_workqueue (pool s') = m_workqueue (pool s) \<or> critical (pcs s ! t)" and l: "seen (pool s') l"
  shows "seen_inv s'"
  unfolding seen_inv_def
proof (intro allI impI)
  fix u assume u: "u < length (pcs s')"
  then have u': "u < length (pcs s)" using pc by simp
  show "seen (pool s') (pcs s' ! u)"
  proof (cases "u = t")
    case True
    with l t pc show ?thesis by simp
  next
    case False
    then have pu: "pcs s' ! u = pcs s ! u" using pc by simp
    show ?thesis
    proof (cases "critical (pcs s ! u)")
      case True
      then have "m_workqueue (pool s') = m_workqueue (pool s)" using q mutex_inv_only [OF mx t _ u'] False by blast
      with sn u' max show ?thesis unfolding pu seen_inv_def by (metis seen_cong)
    next
      case False
      then show ?thesis unfolding pu by (rule seen_outside)
    qed
  qed
qed

text \<open>The count of tickets: a step keeps it if what it adds on one side it adds on the other.\<close>

definition bit01 :: "bool \<Rightarrow> nat" where
  "bit01 b = (if b then 1 else 0)"

lemma ticket_update:
  assumes "ticket_inv s" and "t < length (pcs s)" and "pcs s' = (pcs s)[t := l]"
    and "m_queuestat (pool s') + bit01 (has_ticket l) + bit01 (unposted l) + length (m_workqueue (pool s)) =
         m_queuestat (pool s) + bit01 (has_ticket (pcs s ! t)) + bit01 (unposted (pcs s ! t)) + length (m_workqueue (pool s'))"
  shows "ticket_inv s'"
  using assms count_if_update [OF assms(2), of has_ticket l] count_if_update [OF assms(2), of unposted l]
  by (simp add: ticket_inv_def bit01_def split: if_splits)

lemma append_step_pc:
  assumes "append_step t (pcs s ! t) s = Some s'"
  obtains l where "pcs s' = (pcs s)[t := l]" and "processed s' = processed s" and "taken s' = taken s"
    and "m_queuestat (pool s') + bit01 (has_ticket l) + bit01 (unposted l) + length (m_workqueue (pool s)) =
         m_queuestat (pool s) + bit01 (has_ticket (pcs s ! t)) + bit01 (unposted (pcs s ! t)) + length (m_workqueue (pool s'))"
    and "\<And>r. \<not> works_on r l" and "\<And>r. \<not> works_on r (pcs s ! t)" and "l \<noteq> Run_Unlock_Empty"
  using assms
  by (cases "pcs s ! t")
    (auto simp: append_step_def sync_defs bit01_def push_back_def split: if_splits option.splits intro: that)

lemma run_step_pc:
  assumes "run_step t (pcs s ! t) s = Some (Inr s')" and "seen (pool s) (pcs s ! t)"
  obtains l where "pcs s' = (pcs s)[t := l]" and "appended s' = appended s"
    and "pcs s ! t \<noteq> Run_Check \<or> m_workqueue (pool s) \<noteq> [] \<Longrightarrow>
      m_queuestat (pool s') + bit01 (has_ticket l) + bit01 (unposted l) + length (m_workqueue (pool s)) =
      m_queuestat (pool s) + bit01 (has_ticket (pcs s ! t)) + bit01 (unposted (pcs s ! t)) + length (m_workqueue (pool s'))"
    and "pcs s ! t \<noteq> Run_Check \<or> m_workqueue (pool s) \<noteq> [] \<Longrightarrow> l \<noteq> Run_Unlock_Empty"
    and "\<And>r. count_if (\<lambda>x. x = Some r) (taken s') + count_if (\<lambda>x. x = r) (processed s) + bit01 (works_on r (pcs s ! t)) =
          count_if (\<lambda>x. x = Some r) (taken s) + count_if (\<lambda>x. x = r) (processed s') + bit01 (works_on r l)"
    and "taken s' @ m_workqueue (pool s') = taken s @ m_workqueue (pool s)"
proof (cases "pcs s ! t")
  case Run_Front
  with assms obtain r q where "m_workqueue (pool s) = r # q" by (auto simp: neq_Nil_conv)
  with Run_Front assms show thesis by (intro that [of "Run_Pop r"]) (auto simp: run_step_def bit01_def queue_defs)
next
  case (Run_Pop r)
  with assms obtain q where "m_workqueue (pool s) = r # q" by auto
  with Run_Pop assms show thesis
    by (intro that [of "Run_Unlock r"]) (cases r; auto simp: run_step_def bit01_def queue_defs)+
next
  case (Run_Unlock r)
  with assms show thesis
    by (intro that [of "case r of None \<Rightarrow> Run_Test | Some r \<Rightarrow> Run_Process r"])
      (cases r; auto simp: run_step_def bit01_def sync_defs)+
qed (use assms in \<open>auto simp: run_step_def sync_defs bit01_def split: if_splits option.splits intro: that\<close>)

lemma append_step_queue:
  assumes "append_step t (pcs s ! t) s = Some s'"
  shows "m_maxrequestnum (pool s') = m_maxrequestnum (pool s) \<and> m_stop (pool s') = m_stop (pool s) \<and>
     (m_workqueue (pool s') = m_workqueue (pool s) \<and> appended s' = appended s \<or>
      (\<exists>r. pcs s ! t = Append_Push r \<and> m_workqueue (pool s') = push_back r (m_workqueue (pool s)) \<and> appended s' = appended s @ [r]))"
  using assms by (cases "pcs s ! t") (auto simp: append_step_def sync_defs split: if_splits option.splits)

lemma append_step_seen:
  assumes "append_step t (pcs s ! t) s = Some s'" and "t < length (pcs s)"
  shows "seen (pool s') (pcs s' ! t)"
  using assms by (cases "pcs s ! t") (auto simp: append_step_def sync_defs split: if_splits option.splits)

lemma run_step_seen:
  assumes "run_step t (pcs s ! t) s = Some (Inr s')" and "t < length (pcs s)"
  shows "seen (pool s') (pcs s' ! t)"
  using assms by (cases "pcs s ! t")
    (auto simp: run_step_def sync_defs bindr_eq_Inr queue_defs split: if_splits option.splits list.splits)

lemma run_step_queue:
  assumes "run_step t (pcs s ! t) s = Some (Inr s')"
  shows "m_maxrequestnum (pool s') = m_maxrequestnum (pool s) \<and> m_stop (pool s') = m_stop (pool s) \<and>
     length (m_workqueue (pool s')) \<le> length (m_workqueue (pool s)) \<and>
     (m_workqueue (pool s') = m_workqueue (pool s) \<or> critical (pcs s ! t))"
  using assms by (cases "pcs s ! t")
    (auto simp: run_step_def sync_defs bindr_eq_Inr queue_defs split: if_splits option.splits list.splits)

definition pool_inv :: "'a pool_run \<Rightarrow> bool" where
  "pool_inv s \<longleftrightarrow> mutex_inv s \<and> ticket_inv s \<and> account_inv s \<and> work_inv s \<and> bound_inv s \<and>
     Run_Unlock_Empty \<notin> set (pcs s) \<and> seen_inv s"

lemma pool_invD:
  assumes "pool_inv s"
  shows "mutex_inv s" and "ticket_inv s" and "account_inv s" and "work_inv s" and "bound_inv s"
    and "Run_Unlock_Empty \<notin> set (pcs s)" and "seen_inv s"
  using assms unfolding pool_inv_def by blast+

lemma work_update:
  assumes "work_inv s" and "t < length (pcs s)" and "pcs s' = (pcs s)[t := l]"
    and "\<And>r. count_if (\<lambda>x. x = Some r) (taken s') + count_if (\<lambda>x. x = r) (processed s) + bit01 (works_on r (pcs s ! t)) =
          count_if (\<lambda>x. x = Some r) (taken s) + count_if (\<lambda>x. x = r) (processed s') + bit01 (works_on r l)"
  shows "work_inv s'"
proof -
  have "count_if (\<lambda>x. x = Some r) (taken s') = count_if (\<lambda>x. x = r) (processed s') + count_if (works_on r) (pcs s')" for r
    using assms(1) assms(4) [of r] count_if_update [OF assms(2), of "works_on r" l] assms(3)
    by (simp add: work_inv_def bit01_def split: if_splits)
  then show ?thesis by (simp add: work_inv_def)
qed

lemma ticket_nonempty:
  assumes "ticket_inv s" and "t < length (pcs s)" and "has_ticket (pcs s ! t)"
  shows "m_workqueue (pool s) \<noteq> []"
  using assms count_if_pos [OF assms(2), of has_ticket] by (auto simp: ticket_inv_def)

lemma set_update_notin: "x \<notin> set xs \<Longrightarrow> y \<noteq> x \<Longrightarrow> x \<notin> set (xs[i := y])"
  using set_update_subset_insert [of xs i y] by auto

lemma queue_full_iff:
  assumes "bound_inv s"
  shows "queue_full (pool s) \<longleftrightarrow> m_maxrequestnum (pool s) < int (length (m_workqueue (pool s)))"
proof -
  have "m_maxrequestnum (pool s) mod 2 ^ 64 = m_maxrequestnum (pool s)"
    using assms by (intro mod_pos_pos_trivial) (simp_all add: bound_inv_def)
  then show ?thesis by (simp add: queue_full_def)
qed

lemma pool_inv_call:
  assumes "pool_inv s" and "t < length (pcs s)" and "pcs s ! t = Idle"
  shows "pool_inv (goto t (Append_Lock r) s)"
proof -
  let ?s = "goto t (Append_Lock r) s"
  note inv = pool_invD [OF assms(1)]
  have "mutex_inv ?s" by (rule mutex_keep [OF inv(1) assms(2), of "Append_Lock r"]) (simp_all add: assms(3))
  moreover have "ticket_inv ?s"
    by (rule ticket_update [OF inv(2) assms(2), of _ "Append_Lock r"]) (simp_all add: assms(3) bit01_def)
  moreover have "work_inv ?s"
    by (rule work_update [OF inv(4) assms(2), of _ "Append_Lock r"]) (simp_all add: assms(3) bit01_def)
  moreover have "seen_inv ?s" by (rule seen_step [OF inv(1,7) assms(2), of _ "Append_Lock r"]) simp_all
  ultimately show ?thesis
    using inv(3,5,6) by (simp add: pool_inv_def account_inv_def bound_inv_def set_update_notin)
qed

lemma pool_inv_append:
  assumes inv: "pool_inv s" and t: "t < length (pcs s)" and st: "append_step t (pcs s ! t) s = Some s'"
  shows "pool_inv s'"
proof -
  obtain l where l: "pcs s' = (pcs s)[t := l]" "processed s' = processed s" "taken s' = taken s"
    "m_queuestat (pool s') + bit01 (has_ticket l) + bit01 (unposted l) + length (m_workqueue (pool s)) =
     m_queuestat (pool s) + bit01 (has_ticket (pcs s ! t)) + bit01 (unposted (pcs s ! t)) + length (m_workqueue (pool s'))"
    "\<And>r. \<not> works_on r l" "\<And>r. \<not> works_on r (pcs s ! t)" "l \<noteq> Run_Unlock_Empty"
    by (rule append_step_pc [OF st]) blast
  note q = append_step_queue [OF st]
  have "mutex_inv s'" using mutex_append_step [OF pool_invD(1) [OF inv] t st] .
  moreover have "ticket_inv s'" using ticket_update [OF pool_invD(2) [OF inv] t l(1,4)] .
  moreover have "work_inv s'" by (rule work_update [OF pool_invD(4) [OF inv] t l(1)]) (simp add: l)
  moreover have "account_inv s'"
    using pool_invD(3) [OF inv] q l(3) std_queue.account_push by (fastforce simp: account_inv_def)
  moreover have "bound_inv s'"
  proof -
    have b: "bound_inv s" using inv by (rule pool_invD)
    have "\<not> queue_full (pool s)" if "pcs s ! t = Append_Push r" for r
      using pool_invD(7) [OF inv] t that by (auto simp: seen_inv_def)
    with q show ?thesis
      using b queue_full_iff [OF b] by (auto simp: bound_inv_def std_queue.push_length)
  qed
  moreover have "seen_inv s'"
  proof (rule seen_step [OF pool_invD(1) [OF inv] pool_invD(7) [OF inv] t l(1)])
    show "seen (pool s') l" using append_step_seen [OF st t] l(1) t by simp
  qed (use q in auto)
  moreover have "Run_Unlock_Empty \<notin> set (pcs s')" using pool_invD(6) [OF inv] l by (simp add: set_update_notin)
  ultimately show ?thesis by (simp add: pool_inv_def)
qed

lemma pool_inv_run:
  assumes inv: "pool_inv s" and t: "t < length (pcs s)" and st: "run_step t (pcs s ! t) s = Some (Inr s')"
  shows "pool_inv s'"
proof -
  have ne: "pcs s ! t \<noteq> Run_Check \<or> m_workqueue (pool s) \<noteq> []"
    using ticket_nonempty [OF pool_invD(2) [OF inv] t] by auto
  obtain l where l: "pcs s' = (pcs s)[t := l]" "appended s' = appended s"
    "m_queuestat (pool s') + bit01 (has_ticket l) + bit01 (unposted l) + length (m_workqueue (pool s)) =
     m_queuestat (pool s) + bit01 (has_ticket (pcs s ! t)) + bit01 (unposted (pcs s ! t)) + length (m_workqueue (pool s'))"
    "l \<noteq> Run_Unlock_Empty"
    "\<And>r. count_if (\<lambda>x. x = Some r) (taken s') + count_if (\<lambda>x. x = r) (processed s) + bit01 (works_on r (pcs s ! t)) =
          count_if (\<lambda>x. x = Some r) (taken s) + count_if (\<lambda>x. x = r) (processed s') + bit01 (works_on r l)"
    "taken s' @ m_workqueue (pool s') = taken s @ m_workqueue (pool s)"
    using run_step_pc [OF st] ne pool_invD(7) [OF inv] t unfolding seen_inv_def by metis
  have "mutex_inv s'" using mutex_run_step [OF pool_invD(1) [OF inv] t st] .
  moreover have "ticket_inv s'" using ticket_update [OF pool_invD(2) [OF inv] t l(1,3)] .
  moreover have "work_inv s'" using work_update [OF pool_invD(4) [OF inv] t l(1,5)] .
  moreover have "account_inv s'" using pool_invD(3) [OF inv] l(2,6) by (simp add: account_inv_def)
  moreover have "bound_inv s'" using pool_invD(5) [OF inv] run_step_queue [OF st] by (auto simp: bound_inv_def)
  moreover have "Run_Unlock_Empty \<notin> set (pcs s')" using pool_invD(6) [OF inv] l by (simp add: set_update_notin)
  moreover have "seen_inv s'"
  proof (rule seen_step [OF pool_invD(1) [OF inv] pool_invD(7) [OF inv] t l(1)])
    show "seen (pool s') l" using run_step_seen [OF st t] l(1) t by simp
  qed (use run_step_queue [OF st] in auto)
  ultimately show ?thesis by (simp add: pool_inv_def)
qed

lemma pool_inv_step: "pool_step s s' \<Longrightarrow> pool_inv s \<Longrightarrow> pool_inv s'"
  by (erule pool_stepE) (auto intro: pool_inv_call pool_inv_append pool_inv_run)

lemma pool_inv_reachable: "pool_step\<^sup>*\<^sup>* s s' \<Longrightarrow> pool_inv s \<Longrightarrow> pool_inv s'"
  by (induction rule: rtranclp_induct) (auto intro: pool_inv_step)

lemma pool_inv_start:
  assumes "threadpool_ctor create detach n m = Inr p" and "m < 2 ^ 31"
  shows "pool_inv (pool_start w k p)"
proof -
  have p: "0 < m" "p = \<lparr>m_thread_number = n, m_maxrequestnum = m, m_workqueue = [], m_queuelocker = None,
      m_queuestat = 0, m_stop = False\<rparr>"
    using assms(1) by (auto simp: threadpool_ctor_def split: if_splits sum.splits)
  have "\<not> critical ((replicate w Run_Test @ replicate k Idle) ! t)" if "t < w + k" for t
    using that by (simp add: nth_append)
  with p assms(2) show ?thesis
    by (auto simp: pool_inv_def pool_start_def mutex_inv_def ticket_inv_def account_inv_def work_inv_def bound_inv_def seen_inv_def nth_append)
qed

section \<open>Progress\<close>

fun in_run :: "'a pc \<Rightarrow> bool" where
  "in_run Run_Test = True"
| "in_run Run_Wait = True"
| "in_run Run_Lock = True"
| "in_run Run_Check = True"
| "in_run Run_Front = True"
| "in_run (Run_Pop _) = True"
| "in_run Run_Unlock_Empty = True"
| "in_run (Run_Unlock _) = True"
| "in_run (Run_Process _) = True"
| "in_run _ = False"

definition worker_inv :: "nat \<Rightarrow> 'a pool_run \<Rightarrow> bool" where
  "worker_inv w s \<longleftrightarrow> w \<le> length (pcs s) \<and> \<not> m_stop (pool s) \<and> (\<forall>t < w. in_run (pcs s ! t))"

lemma worker_inv_step:
  assumes "pool_step s s'" and "worker_inv w s"
  shows "worker_inv w s'"
  using assms(1)
proof (cases rule: pool_step.cases)
  case (call t r)
  with assms(2) show ?thesis by (auto simp: worker_inv_def nth_list_update)
next
  case (append t)
  then have "\<not> t < w" using assms(2) by (cases "pcs s ! t") (auto simp: worker_inv_def append_step_def)
  moreover obtain l where "pcs s' = (pcs s)[t := l]" by (rule append_step_pc [OF append(2)]) blast
  ultimately show ?thesis using assms(2) append_step_queue [OF append(2)] by (auto simp: worker_inv_def)
next
  case (run t)
  have "in_run (pcs s' ! t) \<and> pcs s' = (pcs s)[t := pcs s' ! t]"
    using run assms(2) by (cases "pcs s ! t")
      (auto simp: worker_inv_def run_step_def bindr_eq_Inr split: option.splits if_splits)
  then show ?thesis using assms(2) run_step_queue [OF run(2)]
    by (metis length_list_update nth_list_update_neq worker_inv_def)
qed

lemma worker_inv_reachable: "pool_step\<^sup>*\<^sup>* s s' \<Longrightarrow> worker_inv w s \<Longrightarrow> worker_inv w s'"
  by (induction rule: rtranclp_induct) (auto intro: worker_inv_step)

definition can_move :: "nat \<Rightarrow> 'a pool_run \<Rightarrow> bool" where
  "can_move t s \<longleftrightarrow> t < length (pcs s) \<and>
     ((\<exists>s'. append_step t (pcs s ! t) s = Some s') \<or> (\<exists>s'. run_step t (pcs s ! t) s = Some (Inr s')))"

lemma critical_moves: "t < length (pcs s) \<Longrightarrow> critical (pcs s ! t) \<Longrightarrow> seen (pool s) (pcs s ! t) \<Longrightarrow> can_move t s"
  by (cases "pcs s ! t")
    (auto simp: can_move_def append_step_def run_step_def queue_defs split: list.split)

lemma free_moves:
  assumes "t < length (pcs s)" and "m_queuelocker (pool s) = None"
    and "seen (pool s) (pcs s ! t)"
    and "has_ticket (pcs s ! t) \<or> unposted (pcs s ! t) \<or> in_run (pcs s ! t) \<and> (pcs s ! t = Run_Wait \<longrightarrow> 0 < m_queuestat (pool s))"
  shows "can_move t s"
  using assms
  by (cases "pcs s ! t")
    (auto simp: can_move_def append_step_def run_step_def sync_defs queue_defs split: list.split)

lemma pool_moves:
  assumes inv: "pool_inv s" and w: "worker_inv w s" "0 < w" and q: "m_workqueue (pool s) \<noteq> []"
  shows "\<exists>t. can_move t s"
proof -
  have sn: "seen (pool s) (pcs s ! t)" if "t < length (pcs s)" for t using pool_invD(7) [OF inv] that by (simp add: seen_inv_def)
  show ?thesis
proof (cases "m_queuelocker (pool s)")
  case (Some t)
  then have "t < length (pcs s)" "critical (pcs s ! t)" using pool_invD(1) [OF inv] by (auto simp: mutex_inv_def)
  then show ?thesis using sn by (blast intro: critical_moves)
next
  case None
  have "0 < m_queuestat (pool s) \<or> 0 < count_if has_ticket (pcs s) \<or> 0 < count_if unposted (pcs s)"
    using pool_invD(2) [OF inv] q by (auto simp: ticket_inv_def)
  then consider "0 < m_queuestat (pool s)" | t where "t < length (pcs s)" "has_ticket (pcs s ! t) \<or> unposted (pcs s ! t)"
    by (metis count_if_posE)
  then show ?thesis
  proof cases
    case 1
    moreover have "0 < length (pcs s)" "in_run (pcs s ! 0)" using w by (auto simp: worker_inv_def)
    ultimately show ?thesis using free_moves [OF _ None sn, of 0] by blast
  next
    case (2 t)
    then show ?thesis using free_moves [OF _ None sn, of t] by blast
  qed
qed
qed

section \<open>The method as a sequence of steps\<close>

lemma append_request_steps:
  assumes "t < length (pcs s)" and "pcs s ! t = Idle" and "append_request t r (pool s) = Some (ok, p)"
  shows "pool_step\<^sup>*\<^sup>* s (s\<lparr>appended := appended s @ (if ok then [r] else []), pool := p,
           pcs := (pcs s)[t := Append_Return ok]\<rparr>)"
proof -
  have free: "m_queuelocker (pool s) = None" using assms(3) by (auto simp: append_request_def sync_defs split: if_splits)
  let ?at = "\<lambda>l s. s\<lparr>pcs := (pcs s)[t := l]\<rparr>"
  let ?s1 = "?at (Append_Lock r) s"
  let ?s2 = "?at (Append_Check r) (s\<lparr>pool := (pool s)\<lparr>m_queuelocker := Some t\<rparr>\<rparr>)"
  have a: "pool_step s ?s1" using pool_step.call [OF assms(1,2), of r] by (simp add: goto_def)
  have b: "pool_step ?s1 ?s2"
    using assms(1) free by (intro pool_step.append [of t]) (simp_all add: append_step_def sync_defs goto_def)
  show ?thesis
  proof (cases "queue_full (pool s)")
    case True
    let ?s3 = "?at Append_Unlock_Full ?s2"
    let ?s4 = "?at (Append_Return False) (?s3\<lparr>pool := locker_unlock (pool ?s3)\<rparr>)"
    have "pool_step ?s2 ?s3" using assms(1) True
      by (intro pool_step.append [of t]) (simp_all add: append_step_def goto_def queue_full_def)
    moreover have "pool_step ?s3 ?s4" using assms(1)
      by (intro pool_step.append [of t]) (simp_all add: append_step_def goto_def)
    ultimately have "pool_step\<^sup>*\<^sup>* s ?s4" using a b by (meson converse_rtranclp_into_rtranclp rtranclp.rtrancl_refl)
    moreover have "ok = False" "p = locker_unlock (pool ?s3)"
      using assms(3) True free by (auto simp: append_request_def sync_defs queue_full_def)
    ultimately show ?thesis by simp
  next
    case False
    let ?s2' = "?at (Append_Push r) ?s2"
    let ?s3 = "?at Append_Unlock (?s2\<lparr>pool := (pool ?s2)\<lparr>m_workqueue := push_back r (m_workqueue (pool s))\<rparr>,
                  appended := appended s @ [r]\<rparr>)"
    let ?s4 = "?at Append_Post (?s3\<lparr>pool := locker_unlock (pool ?s3)\<rparr>)"
    let ?s5 = "?at (Append_Return True) (?s4\<lparr>pool := sem_post (pool ?s4)\<rparr>)"
    have "pool_step ?s2 ?s2'" using assms(1) False
      by (intro pool_step.append [of t]) (simp_all add: append_step_def goto_def queue_full_def)
    moreover have "pool_step ?s2' ?s3" using assms(1)
      by (intro pool_step.append [of t]) (simp_all add: append_step_def goto_def)
    moreover have "pool_step ?s3 ?s4" using assms(1)
      by (intro pool_step.append [of t]) (simp_all add: append_step_def goto_def)
    moreover have "pool_step ?s4 ?s5" using assms(1)
      by (intro pool_step.append [of t]) (simp_all add: append_step_def goto_def)
    ultimately have "pool_step\<^sup>*\<^sup>* s ?s5" using a b by (meson converse_rtranclp_into_rtranclp rtranclp.rtrancl_refl)
    moreover have "ok = True" "p = sem_post (locker_unlock (pool ?s3))"
      using assms(3) False free by (auto simp: append_request_def sync_defs queue_full_def)
    ultimately show ?thesis by simp
  qed
qed

lemma run_step_no_fault: "seen (pool s) l \<Longrightarrow> run_step t l s \<noteq> Some (Inl f)"
  by (cases l) (auto simp: run_step_def queue_defs neq_Nil_conv split: option.split if_split)

section \<open>Properties\<close>

text \<open>
  C7. Whatever the interleaving of workers and appending threads, requests leave the queue in the
  order they entered, none is lost, each one that was taken is processed once or is in the
  hands of exactly one worker, and no worker reads or pops an empty queue. The size test and
  \<open>push_back\<close>, and the empty test, \<open>front\<close> and \<open>pop_front\<close> are steps of their own, so that this
  rests on the lock.
\<close>

theorem pool_fifo_exactly_once:
  assumes "threadpool_ctor create detach n m = Inr p" and "m < 2 ^ 31" and "pool_step\<^sup>*\<^sup>* (pool_start w k p) s"
  shows "appended s = taken s @ m_workqueue (pool s) \<and>
     (\<forall>r. count_if (\<lambda>x. x = Some r) (taken s) =
        count_if (\<lambda>x. x = r) (processed s) + count_if (works_on r) (pcs s)) \<and>
     (\<forall>t f. t < length (pcs s) \<longrightarrow> run_step t (pcs s ! t) s \<noteq> Some (Inl f))"
proof -
  note inv = pool_invD [OF pool_inv_reachable [OF assms(3) pool_inv_start [OF assms(1,2)]]]
  have "run_step t (pcs s ! t) s \<noteq> Some (Inl f)" if "t < length (pcs s)" for t f
    using inv(7) that by (intro run_step_no_fault) (simp add: seen_inv_def)
  with inv show ?thesis by (simp add: account_inv_def work_inv_def)
qed

definition sample_pool :: "nat threadpool" where
  "sample_pool = \<lparr>m_thread_number = 2, m_maxrequestnum = 1, m_workqueue = [], m_queuelocker = None,
     m_queuestat = 0, m_stop = False\<rparr>"

lemma sample_pool_ctor: "threadpool_ctor (\<lambda>_. 0) (\<lambda>_. 0) 2 1 = Inr sample_pool"
  by (simp add: threadpool_ctor_def sample_pool_def numeral_2_eq_2)

text \<open>Two requests appended by the outside thread (number 2) to a pool of two workers.\<close>

definition sample_run :: "nat pool_run" where
  "sample_run = \<lparr>pool = sample_pool\<lparr>m_workqueue := [Some 7, Some 8], m_queuestat := 2\<rparr>,
     pcs = [Run_Test, Run_Test, Append_Return True], appended = [Some 7, Some 8], taken = [], processed = []\<rparr>"

lemma sample_run_reachable: "pool_step\<^sup>*\<^sup>* (pool_start 2 1 sample_pool) sample_run"
proof -
  let ?s0 = "pool_start 2 1 sample_pool"
  let ?p1 = "sample_pool\<lparr>m_workqueue := [Some 7], m_queuestat := 1\<rparr>"
  let ?p2 = "sample_pool\<lparr>m_workqueue := [Some 7, Some 8], m_queuestat := 2\<rparr>"
  let ?s1 = "?s0\<lparr>appended := [Some 7], pool := ?p1, pcs := [Run_Test, Run_Test, Append_Return True]\<rparr>"
  let ?s2 = "?s1\<lparr>pcs := [Run_Test, Run_Test, Idle]\<rparr>"
  have pcs0: "pcs ?s0 = [Run_Test, Run_Test, Idle]" by (simp add: pool_start_def numeral_2_eq_2)
  have 1: "append_request 2 (Some 7) (pool ?s0) = Some (True, ?p1)"
    by (simp add: append_request_def sync_defs queue_full_def pool_start_def sample_pool_def push_back_def)
  have "pool_step\<^sup>*\<^sup>* ?s0 ?s1"
    using append_request_steps [OF _ _ 1] pcs0 by (simp add: pool_start_def)
  moreover have "pool_step ?s1 ?s2" by (rule pool_step.append [of 2]) (simp_all add: append_step_def goto_def)
  moreover have 2: "append_request 2 (Some 8) (pool ?s2) = Some (True, ?p2)"
    by (simp add: append_request_def sync_defs queue_full_def sample_pool_def push_back_def)
  have "pool_step\<^sup>*\<^sup>* ?s2 sample_run"
    using append_request_steps [OF _ _ 2] by (simp add: pool_start_def sample_run_def)
  ultimately show ?thesis by (meson rtranclp.rtrancl_into_rtrancl rtranclp_trans)
qed

theorem pool_fifo_exactly_once_witness:
  "appended sample_run = taken sample_run @ m_workqueue (pool sample_run) \<and>
     count_if (\<lambda>x. x = Some 7) (taken sample_run) =
       count_if (\<lambda>x. x = 7) (processed sample_run) + count_if (works_on 7) (pcs sample_run)"
  using pool_fifo_exactly_once [OF sample_pool_ctor _ sample_run_reachable] by simp

text \<open>
  At most one thread at a time is between lock and unlock, and a worker that got past the
  semaphore finds a request: the branch for an empty queue is never taken.
\<close>

theorem pool_mutual_exclusion:
  assumes "threadpool_ctor create detach n m = Inr p" and "m < 2 ^ 31" and "pool_step\<^sup>*\<^sup>* (pool_start w k p) s"
    and "t < length (pcs s)" and "critical (pcs s ! t)" and "u < length (pcs s)"
  shows "(critical (pcs s ! u) \<longrightarrow> u = t) \<and> (has_ticket (pcs s ! u) \<longrightarrow> m_workqueue (pool s) \<noteq> []) \<and>
     pcs s ! u \<noteq> Run_Unlock_Empty"
proof -
  note inv = pool_invD [OF pool_inv_reachable [OF assms(3) pool_inv_start [OF assms(1,2)]]]
  have "pcs s ! u \<noteq> Run_Unlock_Empty" using inv(6) assms(6) by (metis nth_mem)
  then show ?thesis
    using mutex_inv_only [OF inv(1) assms(4,5,6)] ticket_nonempty [OF inv(2) assms(6)] by blast
qed

lemma sample_run_worker:
  "pool_step\<^sup>*\<^sup>* (pool_start 2 1 sample_pool)
     (sample_run\<lparr>pool := (pool sample_run)\<lparr>m_queuestat := 1, m_queuelocker := Some 0\<rparr>,
        pcs := [Run_Check, Run_Test, Append_Return True]\<rparr>)"
proof -
  let ?s3 = "sample_run\<lparr>pool := (pool sample_run)\<lparr>m_queuestat := 1, m_queuelocker := Some 0\<rparr>,
        pcs := [Run_Check, Run_Test, Append_Return True]\<rparr>"
  let ?s1 = "sample_run\<lparr>pcs := [Run_Wait, Run_Test, Append_Return True]\<rparr>"
  let ?s2 = "?s1\<lparr>pool := (pool sample_run)\<lparr>m_queuestat := 1\<rparr>, pcs := [Run_Lock, Run_Test, Append_Return True]\<rparr>"
  have "pool_step sample_run ?s1" by (rule pool_step.run [of 0]) (simp_all add: sample_run_def sample_pool_def run_step_def goto_def)
  moreover have "pool_step ?s1 ?s2"
    by (rule pool_step.run [of 0]) (simp_all add: sample_run_def sample_pool_def run_step_def goto_def sync_defs)
  moreover have "pool_step ?s2 ?s3"
    by (rule pool_step.run [of 0]) (simp_all add: sample_run_def sample_pool_def run_step_def goto_def sync_defs)
  ultimately show ?thesis using sample_run_reachable by (meson rtranclp.rtrancl_into_rtrancl)
qed

theorem pool_mutual_exclusion_witness:
  "\<exists>s. pool_step\<^sup>*\<^sup>* (pool_start 2 1 sample_pool) s \<and> pcs s ! 0 = Run_Check \<and> \<not> critical (pcs s ! 1) \<and>
     m_workqueue (pool s) \<noteq> []"
proof -
  let ?s = "sample_run\<lparr>pool := (pool sample_run)\<lparr>m_queuestat := 1, m_queuelocker := Some 0\<rparr>,
        pcs := [Run_Check, Run_Test, Append_Return True]\<rparr>"
  have "(critical (pcs ?s ! 1) \<longrightarrow> 1 = (0 :: nat)) \<and> (has_ticket (pcs ?s ! 1) \<longrightarrow> m_workqueue (pool ?s) \<noteq> []) \<and>
     pcs ?s ! 1 \<noteq> Run_Unlock_Empty"
    by (rule pool_mutual_exclusion [OF sample_pool_ctor _ sample_run_worker]) simp_all
  moreover have "(critical (pcs ?s ! 0) \<longrightarrow> 0 = (0 :: nat)) \<and> (has_ticket (pcs ?s ! 0) \<longrightarrow> m_workqueue (pool ?s) \<noteq> []) \<and>
     pcs ?s ! 0 \<noteq> Run_Unlock_Empty"
    by (rule pool_mutual_exclusion [OF sample_pool_ctor _ sample_run_worker]) simp_all
  ultimately show ?thesis using sample_run_worker by (intro exI [of _ ?s]) simp
qed

text \<open>
  C22. The pool does not get stuck: as long as a request waits in the queue and the pool has a
  worker, some thread can take its next step.
\<close>

theorem pool_progress:
  assumes "threadpool_ctor create detach n m = Inr p" and "m < 2 ^ 31" and "0 < w"
    and "pool_step\<^sup>*\<^sup>* (pool_start w k p) s" and "m_workqueue (pool s) \<noteq> []"
  shows "\<exists>t. can_move t s"
proof -
  have "\<not> m_stop p" using assms(1) by (auto simp: threadpool_ctor_def split: if_splits sum.splits)
  then have "worker_inv w (pool_start w k p)" by (simp add: worker_inv_def pool_start_def nth_append)
  with worker_inv_reachable [OF assms(4)] show ?thesis
    using pool_moves [OF pool_inv_reachable [OF assms(4) pool_inv_start [OF assms(1,2)]]] assms(3,5) by blast
qed

theorem pool_progress_witness: "\<exists>t. can_move t sample_run"
  by (rule pool_progress [OF sample_pool_ctor _ _ sample_run_reachable]) (simp_all add: sample_run_def)

text \<open>
  The queue holds at most one request more than the maximum the pool was constructed with.
\<close>

theorem pool_bound:
  assumes "threadpool_ctor create detach n m = Inr p" and "m < 2 ^ 31" and "pool_step\<^sup>*\<^sup>* (pool_start w k p) s"
  shows "m_maxrequestnum (pool s) + 1 \<ge> int (length (m_workqueue (pool s)))"
  using pool_invD(5) [OF pool_inv_reachable [OF assms(3) pool_inv_start [OF assms(1,2)]]]
  by (simp add: bound_inv_def)

text \<open>The bound is reached: a pool for one waiting request that holds two.\<close>

theorem pool_bound_witness:
  "int (length (m_workqueue (pool sample_run))) \<le> m_maxrequestnum (pool sample_run) + 1 \<and>
     m_maxrequestnum (pool sample_run) = 1 \<and> length (m_workqueue (pool sample_run)) = 2"
  using pool_bound [OF sample_pool_ctor _ sample_run_reachable] by (simp add: sample_run_def sample_pool_def)

text \<open>
  The steps of \<open>append\<close>, run by one thread without interference, do what the method says:
  they refuse a request exactly when more than the maximum are waiting, and otherwise put it at
  the back of the queue and raise the semaphore.
\<close>

theorem append_refines:
  assumes "t < length (pcs s)" and "pcs s ! t = Idle" and "append_request t r (pool s) = Some (ok, p)"
  shows "\<exists>s'. pool_step\<^sup>*\<^sup>* s s' \<and> pool s' = p \<and> pcs s' ! t = Append_Return ok \<and>
     ok = (\<not> queue_full (pool s)) \<and>
     m_workqueue p = m_workqueue (pool s) @ (if ok then [r] else []) \<and>
     m_queuestat p = m_queuestat (pool s) + (if ok then 1 else 0) \<and> m_queuelocker p = None"
proof -
  have "ok = (\<not> queue_full (pool s))" "m_workqueue p = m_workqueue (pool s) @ (if ok then [r] else [])"
    "m_queuestat p = m_queuestat (pool s) + (if ok then 1 else 0)" "m_queuelocker p = None"
    using assms(3) by (auto simp: append_request_def sync_defs queue_full_def push_back_def split: if_splits)
  with append_request_steps [OF assms] assms(1) show ?thesis by (intro exI conjI) (assumption | simp)+
qed

theorem append_refines_witness:
  "\<exists>s'. pool_step\<^sup>*\<^sup>* (pool_start 2 1 sample_pool) s' \<and> pcs s' ! 2 = Append_Return True \<and>
     m_workqueue (pool s') = [Some 7]"
proof -
  let ?p = "sample_pool\<lparr>m_workqueue := [Some 7], m_queuestat := 1\<rparr>"
  have "append_request 2 (Some 7) (pool (pool_start 2 1 sample_pool)) = Some (True, ?p)"
    by (simp add: append_request_def sync_defs queue_full_def pool_start_def sample_pool_def push_back_def)
  from append_refines [OF _ _ this] show ?thesis by (auto simp: pool_start_def nth_append sample_pool_def)
qed

lemma start_threads_ok:
  "(\<exists>x. start_threads create detach i n = Inr x) \<longleftrightarrow> (\<forall>j. i \<le> j \<and> j < i + n \<longrightarrow> create j = 0 \<and> detach j = 0)"
proof (induction n arbitrary: i)
  case (Suc n)
  have "(\<forall>j. i \<le> j \<and> j < i + Suc n \<longrightarrow> create j = 0 \<and> detach j = 0) \<longleftrightarrow>
        (create i = 0 \<and> detach i = 0) \<and> (\<forall>j. Suc i \<le> j \<and> j < Suc i + n \<longrightarrow> create j = 0 \<and> detach j = 0)"
    by (auto simp: Suc_le_eq) (metis add_Suc_right le_neq_implies_less)+
  with Suc.IH [of "Suc i"] show ?case by auto
qed auto

text \<open>
  The constructor succeeds exactly for positive arguments when every thread is created and
  detached; a pool it returns is empty and running.
\<close>

theorem threadpool_ctor_iff:
  "(\<exists>p. threadpool_ctor create detach n m = Inr p \<and> m_workqueue p = [] \<and> \<not> m_stop p \<and> m_queuestat p = 0) \<longleftrightarrow>
     0 < n \<and> 0 < m \<and> (\<forall>j. j < nat n \<longrightarrow> create j = 0 \<and> detach j = 0)"
  using start_threads_ok [of create detach 0 "nat n"]
  by (auto simp: threadpool_ctor_def split: sum.splits)

theorem threadpool_ctor_iff_witness:
  "\<exists>p :: nat threadpool. threadpool_ctor (\<lambda>_. 0) (\<lambda>_. 0) 8 10000 = Inr p \<and> m_workqueue p = [] \<and> \<not> m_stop p \<and> m_queuestat p = 0"
  using threadpool_ctor_iff [of "\<lambda>_. 0" "\<lambda>_. 0" 8 10000] by simp

end
