(* ===== verification/Proactor_Main.thy ===== *)
theory Proactor_Main
  imports Http_Conn Thread_Pool
begin

unbundle bit_operations_syntax

text \<open>
  The main program of the Proactor server (\<open>1. Proactor/main.cpp\<close>): start-up with its exits, and
  the event loop that accepts connections, reads and writes for them and hands them to the
  thread pool. A request in the pool's queue is the index of a connection in \<open>users\<close>. The
  answers of the kernel to one event are gathered in a record.
\<close>

section \<open>The state\<close>

definition MAX_FD :: int where
  "MAX_FD = 65535"

definition MAX_EVENT_NUM :: int where
  "MAX_EVENT_NUM = 10000"

record proactor =
  srv :: server
  workers :: "int threadpool"

record epoll_event =
  ev_fd :: int
  ev_events :: "32 word"

record answers =
  accept_fd :: int
  accept_addr :: sockaddr_in
  on_recv :: "nat \<Rightarrow> nat \<Rightarrow> recv_result"
  on_writev :: "nat \<Rightarrow> nat \<Rightarrow> writev_result"

section \<open>Start-up\<close>

text \<open>
  The results of the calls main makes before its loop. Every exit of the program is an error
  value; the pool's threads are running from its construction on.
\<close>

datatype main_exit = Usage | No_Pool ctor_exception | No_Socket | No_Bind | No_Listen

record setup_answers =
  su_create :: "nat \<Rightarrow> int"
  su_detach :: "nat \<Rightarrow> int"
  su_socket :: int
  su_bind :: int
  su_listen :: int
  su_memory :: "http_conn list"

definition main_setup :: "setup_answers \<Rightarrow> int \<Rightarrow> kernel \<Rightarrow> main_exit + proactor" where
  "main_setup su argc k =
     (if argc \<le> 1 then Inl Usage
      else case threadpool_ctor (su_create su) (su_detach su) 8 10000 of
        Inl e \<Rightarrow> Inl (No_Pool e)
      | Inr p \<Rightarrow>
          if su_socket su = - 1 then Inl No_Socket
          else if su_bind su = - 1 then Inl No_Bind
          else if su_listen su = - 1 then Inl No_Listen
          else Inr \<lparr>srv = \<lparr>kern = addfd (su_socket su) False (k\<lparr>open_fds := open_fds k \<union> {su_socket su}\<rparr>),
                            m_user_count = 0, users = take (nat MAX_FD) (su_memory su)\<rparr>,
                    workers = p\<rparr>)"

section \<open>Events\<close>

text \<open>
  Delivering an event of a descriptor registered with EPOLLONESHOT disables it until the next
  \<open>EPOLL_CTL_MOD\<close>: its mask keeps the mode bits only.
\<close>

definition disarmed :: "32 word" where
  "disarmed = EPOLLONESHOT OR EPOLLET"

definition epoll_deliver :: "int \<Rightarrow> kernel \<Rightarrow> kernel" where
  "epoll_deliver fd k =
     (case interest k fd of
        Some ev \<Rightarrow> if ev AND EPOLLONESHOT \<noteq> 0 then k\<lparr>interest := (interest k)(fd \<mapsto> ev AND disarmed)\<rparr> else k
      | None \<Rightarrow> k)"

definition on_accept :: "answers \<Rightarrow> server \<Rightarrow> server res" where
  "on_accept a s =
     (let connfd = accept_fd a;
          s = (if 0 \<le> connfd then s\<lparr>kern := (kern s)\<lparr>open_fds := open_fds (kern s) \<union> {connfd}\<rparr>\<rparr> else s)
      in if MAX_FD \<le> m_user_count s then Inr (s\<lparr>kern := close_fd connfd (kern s)\<rparr>)
         else init_sock connfd connfd (accept_addr a) s)"

text \<open>
  The body of the loop over the events. Thread 0 stands for the main thread. \<open>None\<close>: the handler
  waits, for the pool's lock or in an endless \<open>write\<close>.
\<close>

definition handle_event :: "cbuf \<Rightarrow> answers \<Rightarrow> int \<Rightarrow> epoll_event \<Rightarrow> proactor \<Rightarrow> proactor res option" where
  "handle_event mem a lfd e s =
     (let sockfd = ev_fd e in
      if sockfd = lfd then Some (bindr (on_accept a (srv s)) (\<lambda>t. Inr (s\<lparr>srv := t\<rparr>)))
      else if ev_events e AND (EPOLLRDHUP OR EPOLLHUP OR EPOLLERR) \<noteq> 0 then
        Some (bindr (closeconn sockfd (srv s)) (\<lambda>t. Inr (s\<lparr>srv := t\<rparr>)))
      else if ev_events e AND EPOLLIN \<noteq> 0 then
        (case bindr (get_user sockfd (srv s)) (\<lambda>c. read_conn (on_recv a) c) of
           Inl f \<Rightarrow> Some (Inl f)
         | Inr (ok, c) \<Rightarrow>
             let s = s\<lparr>srv := put_user sockfd c (srv s)\<rparr> in
             if ok then
               (case append_request 0 (Some sockfd) (workers s) of
                  None \<Rightarrow> None
                | Some (_, p) \<Rightarrow> Some (Inr (s\<lparr>workers := p\<rparr>)))
             else Some (bindr (closeconn sockfd (srv s)) (\<lambda>t. Inr (s\<lparr>srv := t\<rparr>))))
      else if ev_events e AND EPOLLOUT \<noteq> 0 then
        (case write_conn mem (on_writev a) sockfd (srv s) of
           None \<Rightarrow> None
         | Some (Inl f) \<Rightarrow> Some (Inl f)
         | Some (Inr (ok, t)) \<Rightarrow>
             Some (bindr (if ok then Inr t else closeconn sockfd t) (\<lambda>t. Inr (s\<lparr>srv := t\<rparr>))))
      else Some (Inr s))"

text \<open>One round of the outer loop: the events \<open>epoll_wait\<close> returned, each with its answers.\<close>

fun handle_events :: "cbuf \<Rightarrow> int \<Rightarrow> (epoll_event \<times> answers) list \<Rightarrow> proactor \<Rightarrow> proactor res option" where
  "handle_events mem lfd [] s = Some (Inr s)"
| "handle_events mem lfd ((e, a) # es) s =
     (case handle_event mem a lfd e s of
        None \<Rightarrow> None
      | Some (Inl f) \<Rightarrow> Some (Inl f)
      | Some (Inr s) \<Rightarrow> handle_events mem lfd es s)"

text \<open>
  The outer loop over the results of \<open>epoll_wait\<close>: \<open>None\<close> is a failure other than EINTR, which ends
  it, and an interrupted call has no events.
\<close>

fun main_loop :: "cbuf \<Rightarrow> int \<Rightarrow> (epoll_event \<times> answers) list option list \<Rightarrow> proactor \<Rightarrow> proactor res option" where
  "main_loop mem lfd [] s = Some (Inr s)"
| "main_loop mem lfd (None # _) s = Some (Inr (s\<lparr>workers := threadpool_dtor (workers s)\<rparr>))"
| "main_loop mem lfd (Some es # rounds) s =
     (case handle_events mem lfd es s of
        None \<Rightarrow> None
      | Some (Inl f) \<Rightarrow> Some (Inl f)
      | Some (Inr s) \<Rightarrow> main_loop mem lfd rounds s)"

text \<open>One turn of a worker: the pool's \<open>run\<close> with \<open>T = http_conn\<close>. \<open>None\<close>: it waits.\<close>

definition worker_turn :: "filesys \<Rightarrow> nat \<Rightarrow> proactor \<Rightarrow> proactor res option" where
  "worker_turn fs t s =
     (case sem_wait (workers s) of
        None \<Rightarrow> None
      | Some p \<Rightarrow>
          (case locker_lock t p of
             None \<Rightarrow> None
           | Some p \<Rightarrow>
               if m_workqueue p = [] then Some (Inr (s\<lparr>workers := locker_unlock p\<rparr>))
               else Some (
                 bindr (front (m_workqueue p)) (\<lambda>request.
                 bindr (pop_front (m_workqueue p)) (\<lambda>q.
                 let s = s\<lparr>workers := locker_unlock (p\<lparr>m_workqueue := q\<rparr>)\<rparr> in
                 case request of
                   None \<Rightarrow> Inr s
                 | Some i \<Rightarrow> bindr (process fs i (srv s)) (\<lambda>t. Inr (s\<lparr>srv := t\<rparr>)))))))"

section \<open>Handlers, branch by branch\<close>

lemma flag_tests [simp]:
  "EPOLLIN AND (EPOLLRDHUP OR EPOLLHUP OR EPOLLERR) = 0" "EPOLLOUT AND (EPOLLRDHUP OR EPOLLHUP OR EPOLLERR) = 0"
  "EPOLLIN \<noteq> 0" "EPOLLOUT AND EPOLLIN = 0" "EPOLLOUT \<noteq> 0"
  by (simp_all add: epoll_flags)

lemma handle_in:
  assumes "i \<noteq> lfd" and "get_user i (srv s) = Inr c" and "read_conn (on_recv a) c = Inr (True, c')"
    and "append_request 0 (Some i) (workers s) = Some (ok, p)"
  shows "handle_event mem a lfd \<lparr>ev_fd = i, ev_events = EPOLLIN\<rparr> s =
     Some (Inr (s\<lparr>srv := put_user i c' (srv s), workers := p\<rparr>))"
  using assms by (simp add: handle_event_def Let_def)

lemma handle_out:
  assumes "i \<noteq> lfd" and "write_conn mem (on_writev a) i (srv s) = Some (Inr (ok, t))"
  shows "handle_event mem a lfd \<lparr>ev_fd = i, ev_events = EPOLLOUT\<rparr> s =
     Some (bindr (if ok then Inr t else closeconn i t) (\<lambda>t. Inr (s\<lparr>srv := t\<rparr>)))"
  using assms by (simp add: handle_event_def Let_def)

lemma worker_takes:
  assumes "m_workqueue (workers s) = Some i # q" and "0 < m_queuestat (workers s)"
    and "m_queuelocker (workers s) = None" and "process fs i (srv s) = Inr t"
  shows "worker_turn fs n s = Some (Inr (s\<lparr>srv := t,
     workers := (workers s)\<lparr>m_queuestat := m_queuestat (workers s) - 1, m_workqueue := q\<rparr>\<rparr>))"
  using assms by (cases "workers s") (simp add: worker_turn_def sync_defs queue_defs Let_def)

lemma append_request_free:
  assumes "m_queuelocker p = None" and "\<not> queue_full p"
  shows "append_request t r p = Some (True, p\<lparr>m_workqueue := m_workqueue p @ [r], m_queuestat := m_queuestat p + 1\<rparr>)"
  using assms by (cases p) (simp add: append_request_def sync_defs queue_full_def push_back_def)

section \<open>Properties\<close>

text \<open>
  C1. The life of a request in the server, for whatever \<open>writev\<close> returns: the EPOLLIN handler reads
  the request and queues the connection, a worker answers it, the EPOLLOUT handler calls \<open>writev\<close>.
  With the counts \<open>ns\<close> of the calls that succeed, the client gets a prefix of the answer per call. If
  the counts reach half of the bytes in the write buffer, the response is over: a keep-alive
  connection waits for the next request, any other is closed and no longer registered. If \<open>writev\<close>
  fails before, the connection waits for EPOLLOUT after EAGAIN and is closed after any other error. In
  particular the client gets exactly the bytes of the answer if the first call takes them all.
\<close>

theorem client_served:
  fixes mem :: cbuf
  assumes "i \<noteq> lfd" and "get_user i (srv s) = Inr (init_conn d)" and "m_sockfd d = i"
    and "i + 1 < int (length (users (srv s)))" and "interest (kern (srv s)) i \<noteq> None"
    and "m_workqueue (workers s) = []" and "m_queuelocker (workers s) = None"
    and "0 \<le> m_maxrequestnum (workers s)" and "m_queuestat (workers s) = 0"
    and "[] \<notin> set chunks" and "concat chunks = rl @ CRLF @ lines_bytes hs @ CRLF @ body"
    and "length (concat chunks) < READ_BUFFER_SIZE"
    and "clean_line rl" and "\<forall>h \<in> set hs. clean_line h \<and> h \<noteq> []"
    and "0 \<le> headers_length 0 hs" and "headers_length 0 hs \<le> int (length body)"
    and "request_path rl = Some p"
    and "\<And>st. fs_stat fs (file_path p) = Some st \<Longrightarrow> 0 \<le> st_size st \<and> st_size st \<le> INT_MAX"
    and "on_recv a = recv_script chunks" and "\<And>k m n. on_writev b k m = Sent n \<Longrightarrow> 0 < m \<Longrightarrow> 0 < n"
  defines "linger \<equiv> headers_linger False hs"
  defines "ans \<equiv> answer_bytes fs mem p linger" and "head \<equiv> answer_head fs p linger"
  shows "\<exists>s1 s2 s3 ns. handle_event mem a lfd \<lparr>ev_fd = i, ev_events = EPOLLIN\<rparr> s = Some (Inr s1) \<and>
     worker_turn fs t s1 = Some (Inr s2) \<and>
     handle_event mem b lfd \<lparr>ev_fd = i, ev_events = EPOLLOUT\<rparr> s2 = Some (Inr s3) \<and>
     write_counts (on_writev b) (length ans) head ns \<and>
     wire (kern (srv s3)) i = wire (kern (srv s)) i @ concat (map (\<lambda>n. take n ans) ns) \<and>
     m_workqueue (workers s3) = [] \<and>
     (if head \<le> 2 * sum_list ns \<and> linger then interest (kern (srv s3)) i = Some (armed EPOLLIN)
      else if 2 * sum_list ns < head \<and> on_writev b (length ns) (length ans) = Write_Again
      then interest (kern (srv s3)) i = Some (armed EPOLLOUT)
      else interest (kern (srv s3)) i = None \<and> i \<notin> open_fds (kern (srv s3))) \<and>
     (on_writev b 0 (length ans) = Sent (length ans) \<longrightarrow> ns = [length ans])"
proof -
  have int: "interest (kern (srv s)) (m_sockfd d) \<noteq> None" using assms(3,5) by simp
  obtain c v1 c2 where r: "read_conn (recv_script chunks) (init_conn d) = Inr (True, c)"
    "process fs i (put_user i c (srv s)) = Inr v1" "get_user i v1 = Inr c2" "kern v1 = modifyfd i EPOLLOUT (kern (srv s))"
    "length (users v1) = length (users (srv s))" "m_sockfd c2 = i" "m_linger c2 = linger"
    "response_bytes mem c2 = ans" "m_write_idx c2 = head" "0 < m_write_idx c2" "m_write_idx c2 \<le> length (response_bytes mem c2)"
    using request_processed [where mem = mem, OF assms(2,4,10-18) int] assms(3) unfolding ans_def head_def linger_def by blast
  have i1: "i + 1 < int (length (users v1))" using r(5) assms(4) by simp
  have "write_conn mem (on_writev b) i v1 = write_loop mem (on_writev b) i 0 (int head) 0 v1"
    using r(3,9,10) by (simp add: write_conn_def)
  moreover have "0 < n" if "on_writev b k (length (response_bytes mem c2)) = Sent n" for k n
    by (rule assms(20) [OF that]) (use r(10,11) in linarith)
  ultimately
  obtain ns ok v2 c3 where w: "write_conn mem (on_writev b) i v1 = Some (Inr (ok, v2))" "get_user i v2 = Inr c3"
    "write_counts (on_writev b) (length ans) head ns"
    "wire (kern v2) = (wire (kern v1))(i := wire (kern v1) i @ concat (map (\<lambda>n. take n ans) ns))"
    "(ok, c3, interest (kern v2)) = write_end (head \<le> 2 * sum_list ns) (on_writev b (length ns) (length ans)) c2 (kern v1)"
    using write_loop_counts [where writev = "on_writev b" and k = 0 and have_send = 0 and mem = mem, OF _ r(3) i1, of "int head" head] r(9,10)
    unfolding r(6,8) by auto
  let ?p1 = "(workers s)\<lparr>m_workqueue := [Some i], m_queuestat := 1\<rparr>"
  let ?s1 = "s\<lparr>srv := put_user i c (srv s), workers := ?p1\<rparr>"
  have "append_request 0 (Some i) (workers s) = Some (True, ?p1)"
    using append_request_free [of "workers s" 0 "Some i"] assms(6-9) by (simp add: queue_full_def)
  then have 1: "handle_event mem a lfd \<lparr>ev_fd = i, ev_events = EPOLLIN\<rparr> s = Some (Inr ?s1)"
    using assms(1,2,19) r(1) by (intro handle_in) simp_all
  let ?s2 = "?s1\<lparr>srv := v1, workers := ?p1\<lparr>m_queuestat := 0, m_workqueue := []\<rparr>\<rparr>"
  have 2: "worker_turn fs t ?s1 = Some (Inr ?s2)"
    using worker_takes [of ?s1 i "[]" fs v1 t] assms(7) r(2) by simp
  let ?v3 = "if ok then v2 else put_user i (c3\<lparr>m_sockfd := - 1\<rparr>) (v2\<lparr>kern := removefd i (kern v2), m_user_count := m_user_count v2 - 1\<rparr>)"
  have c3: "m_sockfd c3 = i" using w(5) r(6) by (auto simp: write_end_def Let_def init_conn_def split: if_splits)
  have "0 \<le> i" using get_userD [OF assms(2)] by simp
  then have "(if ok then Inr v2 else closeconn i v2) = Inr ?v3" using closeconn_user [OF w(2)] c3 by simp
  then have 3: "handle_event mem b lfd \<lparr>ev_fd = i, ev_events = EPOLLOUT\<rparr> ?s2 = Some (Inr (?s2\<lparr>srv := ?v3\<rparr>))"
    using handle_out [OF assms(1), of mem b ?s2] w(1) by simp
  have whole: "on_writev b 0 (length ans) = Sent (length ans) \<longrightarrow> ns = [length ans]"
    using write_counts_whole [OF w(3)] r(8-11) by simp
  have fin: "(if head \<le> 2 * sum_list ns \<and> linger then interest (kern ?v3) i = Some (armed EPOLLIN)
      else if 2 * sum_list ns < head \<and> on_writev b (length ns) (length ans) = Write_Again then interest (kern ?v3) i = Some (armed EPOLLOUT)
      else interest (kern ?v3) i = None \<and> i \<notin> open_fds (kern ?v3))"
    using w(5) r(4,6,7) assms(5) by (auto simp: write_end_def Let_def split: if_splits)
  show ?thesis
    by (rule exI [of _ ?s1], rule exI [of _ ?s2], rule exI [of _ "?s2\<lparr>srv := ?v3\<rparr>"], rule exI [of _ ns])
      (use 1 2 3 w(3,4) r(4) whole fin in simp)
qed

definition sample_proactor :: proactor where
  "sample_proactor = \<lparr>srv = sample_server, workers = \<lparr>m_thread_number = 8, m_maxrequestnum = 10000, m_workqueue = [],
     m_queuelocker = None, m_queuestat = 0, m_stop = False\<rparr>\<rparr>"

definition sample_chunks :: "string list" where
  "sample_chunks = [''GET /ind'', ''ex.html HTTP/1.1'' @ CRLF @ ''Host: a'' @ CRLF, CRLF]"

definition sample_answers :: answers where
  "sample_answers = \<lparr>accept_fd = - 1, accept_addr = \<lparr>sin_port = 0, sin_addr = 0\<rparr>,
     on_recv = recv_script sample_chunks, on_writev = (\<lambda>k n. Sent n)\<rparr>"

lemma sample_host: "header_of ''Host: a'' = Host ''a''"
  by code_simp

theorem client_served_witness:
  "\<exists>s1 s2 s3. handle_event zero_buf sample_answers 3 \<lparr>ev_fd = 5, ev_events = EPOLLIN\<rparr> sample_proactor = Some (Inr s1) \<and>
     worker_turn sample_fs 1 s1 = Some (Inr s2) \<and>
     handle_event zero_buf sample_answers 3 \<lparr>ev_fd = 5, ev_events = EPOLLOUT\<rparr> s2 = Some (Inr s3) \<and>
     wire (kern (srv s3)) 5 = answer_bytes sample_fs zero_buf ''/index.html'' False \<and>
     interest (kern (srv s3)) 5 = None \<and> 5 \<notin> open_fds (kern (srv s3))"
proof -
  let ?rl = "''GET /index.html HTTP/1.1''" and ?hs = "[''Host: a'']"
  have user: "get_user 5 (srv sample_proactor) = Inr (init_conn sample_conn)"
    using sample_server_user(1) by (simp add: sample_proactor_def)
  have cat: "concat sample_chunks = ?rl @ CRLF @ lines_bytes ?hs @ CRLF @ []" by (simp add: sample_chunks_def)
  have lin: "headers_linger False ?hs = False" "headers_length 0 ?hs = 0" by (simp_all add: sample_host)
  let ?ans = "answer_bytes sample_fs zero_buf ''/index.html'' False"
  have "\<exists>s1 s2 s3 ns. handle_event zero_buf sample_answers 3 \<lparr>ev_fd = 5, ev_events = EPOLLIN\<rparr> sample_proactor = Some (Inr s1) \<and>
     worker_turn sample_fs 1 s1 = Some (Inr s2) \<and>
     handle_event zero_buf sample_answers 3 \<lparr>ev_fd = 5, ev_events = EPOLLOUT\<rparr> s2 = Some (Inr s3) \<and>
     write_counts (on_writev sample_answers) (length ?ans) (answer_head sample_fs ''/index.html'' False) ns \<and>
     wire (kern (srv s3)) 5 = wire (kern (srv sample_proactor)) 5 @ concat (map (\<lambda>n. take n ?ans) ns) \<and>
     m_workqueue (workers s3) = [] \<and>
     (if answer_head sample_fs ''/index.html'' False \<le> 2 * sum_list ns \<and> False then interest (kern (srv s3)) 5 = Some (armed EPOLLIN)
      else if 2 * sum_list ns < answer_head sample_fs ''/index.html'' False \<and> on_writev sample_answers (length ns) (length ?ans) = Write_Again
      then interest (kern (srv s3)) 5 = Some (armed EPOLLOUT)
      else interest (kern (srv s3)) 5 = None \<and> 5 \<notin> open_fds (kern (srv s3))) \<and>
     (on_writev sample_answers 0 (length ?ans) = Sent (length ?ans) \<longrightarrow> ns = [length ?ans])"
    by (rule client_served [OF _ user sample_server_user(3) _ _ _ _ _ _ _ cat _ _ _ _ _ sample_path, unfolded lin])
      (auto simp: clean_line_def lin sample_host sample_server_user(2) sample_proactor_def sample_server_def sample_fs_def
        sample_answers_def sample_chunks_def split: if_splits)
  then show ?thesis by (auto simp: sample_proactor_def sample_server_def sample_answers_def)
qed

text \<open>
  A new client: the accepted descriptor is registered for one event, made non-blocking and
  counted, and its connection object starts from the initial state.
\<close>

theorem accept_registers:
  assumes "accept_fd a = fd" and "0 \<le> fd" and "fd + 1 < int (length (users s))" and "m_user_count s < MAX_FD"
    and "interest (kern s) fd = None"
  shows "\<exists>s' c. on_accept a s = Inr s' \<and> interest (kern s') = (interest (kern s))(fd \<mapsto> armed EPOLLIN) \<and>
     fd_flags (kern s') fd AND O_NONBLOCK = O_NONBLOCK \<and> m_user_count s' = m_user_count s + 1 \<and>
     get_user fd s' = Inr c \<and> m_sockfd c = fd \<and> m_address c = accept_addr a \<and> c = init_conn c"
proof -
  let ?k = "(kern s)\<lparr>open_fds := open_fds (kern s) \<union> {fd}\<rparr>"
  let ?c = "(users s ! nat fd)\<lparr>m_sockfd := fd, m_address := accept_addr a\<rparr>"
  let ?s = "(put_user fd ?c (s\<lparr>kern := ?k\<rparr>))\<lparr>kern := addfd fd True ?k, m_user_count := m_user_count s + 1\<rparr>"
  have g: "get_user fd (s\<lparr>kern := ?k\<rparr>) = Inr (users s ! nat fd)" using assms(2,3) by (simp add: get_user_def)
  have "get_user fd ?s = Inr ?c"
    using get_user_simps(2) [OF g, of ?c] by (simp add: get_user_def split: if_splits)
  from init_user [OF this] assms(3) obtain s' where s': "init fd ?s = Inr s'" "get_user fd s' = Inr (init_conn ?c)"
    "kern s' = kern ?s" "m_user_count s' = m_user_count ?s" by auto
  have "on_accept a s = Inr s'"
    using assms(1,2,4) g s'(1) by (simp add: on_accept_def init_sock_def Let_def)
  moreover have "fd_flags (kern s') fd AND O_NONBLOCK = O_NONBLOCK"
    using s'(3) assms(5) by (simp add: addfd_def setnonblocking_def epoll_ctl_add_def Let_def bit.conj_disj_distrib2 ac_simps)
  moreover have "init_conn ?c = init_conn (init_conn ?c)" by (simp add: init_conn_def)
  ultimately show ?thesis
    using s'(2-4) assms(5) by (intro exI [of _ s'] exI [of _ "init_conn ?c"]) (simp add: init_conn_def)
qed

theorem accept_registers_witness:
  "\<exists>s' c. on_accept (sample_answers\<lparr>accept_fd := 4\<rparr>) sample_server = Inr s' \<and>
     interest (kern s') 4 = Some (armed EPOLLIN) \<and> m_user_count s' = 3 \<and> get_user 4 s' = Inr c \<and> m_sockfd c = 4"
  using accept_registers [of "sample_answers\<lparr>accept_fd := 4\<rparr>" 4 sample_server] sample_server_user(2)
  by (fastforce simp: sample_server_def MAX_FD_def)

text \<open>
  The result of \<open>accept\<close> is not checked: a failed call indexes the array of connections with
  -1 (unless the server is full).
\<close>

theorem accept_failure_out_of_bounds:
  assumes "accept_fd a = - 1" and "m_user_count (srv s) < MAX_FD" and "ev_fd e = lfd"
  shows "handle_event mem a lfd e s = Some (Inl Out_Of_Bounds)"
  using assms by (simp add: handle_event_def on_accept_def init_sock_def get_user_def Let_def)

theorem accept_failure_out_of_bounds_witness:
  "handle_event zero_buf sample_answers 3 \<lparr>ev_fd = 3, ev_events = EPOLLIN\<rparr> sample_proactor = Some (Inl Out_Of_Bounds)"
  by (rule accept_failure_out_of_bounds) (simp_all add: sample_answers_def sample_proactor_def sample_server_def MAX_FD_def)

text \<open>
  A full queue strands a connection: its EPOLLIN event was delivered, which disabled its
  registration, and the refusal of the pool is ignored. The connection is not queued, not closed
  and not registered for any event again.
\<close>

theorem full_queue_strands_connection:
  assumes "i \<noteq> lfd" and "get_user i (srv s) = Inr c" and "read_conn (on_recv a) c = Inr (True, c')"
    and "queue_full (workers s)" and "m_queuelocker (workers s) = None"
    and "interest (kern (srv s)) i = Some (armed EPOLLIN)"
  shows "\<exists>s'. handle_event mem a lfd \<lparr>ev_fd = i, ev_events = EPOLLIN\<rparr>
              (s\<lparr>srv := (srv s)\<lparr>kern := epoll_deliver i (kern (srv s))\<rparr>\<rparr>) = Some (Inr s') \<and>
     m_workqueue (workers s') = m_workqueue (workers s) \<and> interest (kern (srv s')) i = Some disarmed \<and>
     open_fds (kern (srv s')) = open_fds (kern (srv s)) \<and> get_user i (srv s') = Inr c'"
proof -
  let ?s = "s\<lparr>srv := (srv s)\<lparr>kern := epoll_deliver i (kern (srv s))\<rparr>\<rparr>"
  have g: "get_user i (srv ?s) = Inr c" using assms(2) by (simp add: get_user_simps)
  have "append_request 0 (Some i) (workers ?s) = Some (False, workers s)"
    using assms(4,5) by (cases "workers s") (simp add: append_request_def sync_defs queue_full_def)
  from handle_in [OF assms(1) g assms(3) this, of mem]
  have "handle_event mem a lfd \<lparr>ev_fd = i, ev_events = EPOLLIN\<rparr> ?s =
      Some (Inr (?s\<lparr>srv := put_user i c' (srv ?s), workers := workers s\<rparr>))" .
  moreover have "get_user i (put_user i c' (srv ?s)) = Inr c'" using g by (rule get_user_simps(2))
  moreover have "interest (epoll_deliver i (kern (srv s))) i = Some disarmed"
    "open_fds (epoll_deliver i (kern (srv s))) = open_fds (kern (srv s))"
    using assms(6) by (simp_all add: epoll_deliver_def armed_def disarmed_def epoll_flags)
  ultimately show ?thesis by simp
qed

theorem full_queue_strands_connection_witness:
  "\<exists>s'. handle_event zero_buf sample_answers 3 \<lparr>ev_fd = 5, ev_events = EPOLLIN\<rparr>
       (sample_proactor\<lparr>srv := sample_server\<lparr>kern := epoll_deliver 5 (kern sample_server)\<rparr>,
          workers := (workers sample_proactor)\<lparr>m_maxrequestnum := 1, m_workqueue := [Some 6, Some 7]\<rparr>\<rparr>) = Some (Inr s') \<and>
     m_workqueue (workers s') = [Some 6, Some 7] \<and> interest (kern (srv s')) 5 = Some disarmed"
proof -
  let ?s = "sample_proactor\<lparr>srv := sample_server, workers := (workers sample_proactor)\<lparr>m_maxrequestnum := 1, m_workqueue := [Some 6, Some 7]\<rparr>\<rparr>"
  have rd: "read_conn (on_recv sample_answers) (init_conn sample_conn) =
      Inr (True, recv_store (concat sample_chunks) (init_conn sample_conn))"
    unfolding sample_answers_def answers.simps
    by (rule read_conn_script) (simp_all add: sample_chunks_def init_conn_def)
  have "get_user 5 (srv ?s) = Inr (init_conn sample_conn)" using sample_server_user(1) by simp
  from full_queue_strands_connection [OF _ this rd, of 3 zero_buf] show ?thesis
    by (auto simp: sample_proactor_def sample_server_def queue_full_def)
qed

end
