(* ===== verification/Msg_Codec.thy ===== *)
theory Msg_Codec
  imports Prelude
begin

text \<open>
  The message buffers of the TLV servers: \<open>MsgNode\<close> of \<open>2. AsyncServer/inc/AsyncServer.h\<close>, with
  a header of two bytes, and \<open>MsgNode\<close>, \<open>RecvNode\<close> and \<open>SendNode\<close> of
  \<open>3. AsyncServerIOservicepool\<close> and \<open>4. CoroutineAsyncServer\<close>, with a header of two plus two. The
  numbers of a header travel in network byte order. The array \<open>_data\<close> is the list of its bytes;
  \<open>memcpy\<close> and the stores into it check their range.
\<close>

section \<open>Network byte order\<close>

text \<open>
  The two bytes that \<open>memcpy\<close> of \<open>host_to_network_short(w)\<close> puts into a buffer, and the value
  \<open>network_to_host_short\<close> of the two bytes read back.
\<close>

definition bytes16 :: "16 word \<Rightarrow> char list" where
  "bytes16 w = [char_of (unat w div 256), char_of (unat w mod 256)]"

definition word16 :: "char list \<Rightarrow> 16 word" where
  "word16 bs = (case bs of a # b # _ \<Rightarrow> word_of_nat (of_char a * 256 + of_char b) | _ \<Rightarrow> 0)"

lemma length_bytes16 [simp]: "length (bytes16 w) = 2"
  by (simp add: bytes16_def)

lemma of_char_less_256: "(of_char c :: nat) < 256"
proof -
  have "(of_char c :: nat) = of_char c mod 256"
    using of_char_of [of "of_char c :: nat"] unfolding char_of_char .
  then show ?thesis by (metis mod_less_divisor zero_less_numeral)
qed

lemma word16_bytes16: "word16 (bytes16 w @ r) = w"
proof -
  have "unat w < 65536" using unsigned_less [of w, where ?'a = nat] by simp
  then have "unat w div 256 < 256" by (simp add: less_mult_imp_div_less)
  then have "of_char (char_of (unat w div 256) :: char) = unat w div 256"
    "of_char (char_of (unat w mod 256) :: char) = unat w mod 256"
    by (simp_all add: of_char_of)
  moreover have "unat w div 256 * 256 + unat w mod 256 = unat w" by simp
  ultimately have "of_char (char_of (unat w div 256) :: char) * 256 + of_char (char_of (unat w mod 256) :: char) = unat w"
    by (simp only:)
  then have "word16 (bytes16 w @ r) = word_of_nat (unat w)"
    unfolding word16_def bytes16_def by (simp only: append.simps list.case)
  then show ?thesis by simp
qed

lemma bytes16_word16:
  assumes "length bs = 2"
  shows "bytes16 (word16 bs) = bs"
proof -
  from assms obtain a b where bs: "bs = [a, b]" by (auto simp: length_Suc_conv numeral_2_eq_2)
  have r: "(of_char a :: nat) < 256" "(of_char b :: nat) < 256" by (rule of_char_less_256)+
  have "of_char a * 256 + of_char b < (65536 :: nat)" using r by linarith
  then have "unat (word16 bs) = of_char a * 256 + of_char b"
    unfolding bs word16_def list.case unat_of_nat by (simp add: take_bit_nat_eq_self del: of_nat_add of_nat_mult)
  with r show ?thesis by (simp add: bytes16_def bs)
qed

text \<open>A C \<open>short\<close> from its 16 bits.\<close>

definition short_of :: "16 word \<Rightarrow> int" where
  "short_of w = sint w"

lemma short_of_range: "- 32768 \<le> short_of w \<and> short_of w \<le> 32767"
  using sint_lt [of w] sint_ge [of w] by (simp add: short_of_def)

lemma short_of_word: "0 \<le> i \<Longrightarrow> i \<le> 32767 \<Longrightarrow> short_of (word_of_int i) = i"
  unfolding short_of_def by (simp add: sint_sbintrunc' signed_take_bit_int_eq_self)

section \<open>Copying\<close>

text \<open>\<open>memcpy(d + i, s, n)\<close> into an array, from an array that holds the bytes \<open>s\<close>.\<close>

definition memcpy :: "char list \<Rightarrow> int \<Rightarrow> char list \<Rightarrow> int \<Rightarrow> char list res" where
  "memcpy d i s n =
     (if 0 \<le> i \<and> 0 \<le> n \<and> nat n \<le> length s \<and> nat i + nat n \<le> length d
      then Inr (take (nat i) d @ take (nat n) s @ drop (nat i + nat n) d)
      else Inl Out_Of_Bounds)"

definition store :: "char list \<Rightarrow> int \<Rightarrow> char \<Rightarrow> char list res" where
  "store d i c = (if 0 \<le> i \<and> nat i < length d then Inr (d[nat i := c]) else Inl Out_Of_Bounds)"

text \<open>\<open>new char[n]\<close>: a negative size throws. The sources zero the bytes, or write all of them before they are read.\<close>

definition new_chars :: "int \<Rightarrow> char list res" where
  "new_chars n = (if n < 0 then Inl Bad_Alloc else Inr (replicate (nat n) NUL))"

section \<open>The node with a two-byte header\<close>

record msg_node =
  node_cur_len :: int
  node_total_len :: int
  node_data :: "char list"

definition HEAD_SIZE :: int where
  "HEAD_SIZE = 2"

definition async_send_node :: "char list \<Rightarrow> int \<Rightarrow> msg_node res" where
  "async_send_node msg max_len =
     (let total = max_len + HEAD_SIZE in
      bindr (new_chars (total + 1)) (\<lambda>d.
      bindr (memcpy d 0 (bytes16 (word_of_int max_len)) HEAD_SIZE) (\<lambda>d.
      bindr (memcpy d HEAD_SIZE msg max_len) (\<lambda>d.
      bindr (store d total NUL) (\<lambda>d.
      Inr \<lparr>node_cur_len = 0, node_total_len = total, node_data = d\<rparr>)))))"

definition async_recv_node :: "int \<Rightarrow> msg_node res" where
  "async_recv_node max_len =
     bindr (new_chars (max_len + 1)) (\<lambda>d.
     Inr \<lparr>node_cur_len = 0, node_total_len = max_len, node_data = d\<rparr>)"

definition node_clear :: "msg_node \<Rightarrow> msg_node" where
  "node_clear m = m\<lparr>node_data := replicate (nat (node_total_len m)) NUL @ drop (nat (node_total_len m)) (node_data m),
                    node_cur_len := 0\<rparr>"

text \<open>\<open>buffer(_data, _total_len)\<close>: the bytes a write of the node sends.\<close>

definition node_bytes :: "msg_node \<Rightarrow> char list" where
  "node_bytes m = take (nat (node_total_len m)) (node_data m)"

lemma memcpy_exact:
  "0 \<le> i \<Longrightarrow> 0 \<le> n \<Longrightarrow> nat n = length s \<Longrightarrow> nat i + length s \<le> length d \<Longrightarrow>
     memcpy d i s n = Inr (take (nat i) d @ s @ drop (nat i + length s) d)"
  by (simp add: memcpy_def)

lemma async_send_node_bytes:
  obtains m where "async_send_node msg (int (length msg)) = Inr m"
    and "node_bytes m = bytes16 (word_of_int (int (length msg))) @ msg" and "node_total_len m = int (length msg) + 2"
proof -
  let ?n = "int (length msg)"
  let ?h = "bytes16 (word_of_int ?n)" and ?d = "replicate (length msg + 3) NUL"
  let ?d1 = "?h @ drop 2 ?d" and ?d2 = "?h @ msg @ drop (2 + length msg) ?d"
  have 0: "new_chars (?n + HEAD_SIZE + 1) = Inr ?d" by (simp add: new_chars_def HEAD_SIZE_def nat_add_distrib)
  have 1: "memcpy ?d 0 ?h HEAD_SIZE = Inr ?d1" by (simp add: memcpy_def HEAD_SIZE_def)
  have 2: "memcpy ?d1 HEAD_SIZE msg ?n = Inr ?d2" by (simp add: memcpy_def HEAD_SIZE_def del: replicate_Suc)
  have 3: "store ?d2 (?n + HEAD_SIZE) NUL = Inr (?d2[nat (?n + 2) := NUL])"
    by (simp add: store_def HEAD_SIZE_def nat_add_distrib)
  let ?m = "\<lparr>node_cur_len = 0, node_total_len = ?n + 2, node_data = ?d2[nat (?n + 2) := NUL]\<rparr>"
  have "async_send_node msg ?n = Inr ?m"
    unfolding async_send_node_def Let_def by (simp only: 0 1 2 3 bindr_simps) (simp add: HEAD_SIZE_def)
  moreover have "node_bytes ?m = ?h @ msg"
    by (simp add: node_bytes_def nat_add_distrib)
  ultimately show thesis by (intro that [of ?m]) simp_all
qed

section \<open>Nodes with a four-byte header\<close>

text \<open>
  The lengths are \<open>short\<close>s here. \<open>MsgNode(short)\<close> allocates one byte more than it is told and
  stores a NUL at the end: a length of -1 makes that store miss the array.
\<close>

definition HEAD_TOTAL_LEN :: int where "HEAD_TOTAL_LEN = 4"
definition HEAD_ID_LEN :: int where "HEAD_ID_LEN = 2"
definition HEAD_DATA_LEN :: int where "HEAD_DATA_LEN = 2"
definition MAX_LENGTH :: int where "MAX_LENGTH = 2048"
definition MAX_RECVQUE :: int where "MAX_RECVQUE = 10000"
definition MAX_SENDQUE :: int where "MAX_SENDQUE = 1000"
definition MSG_HELLO_WORLD :: int where "MSG_HELLO_WORLD = 1001"

lemmas const_defs = HEAD_TOTAL_LEN_def HEAD_ID_LEN_def HEAD_DATA_LEN_def MAX_LENGTH_def MAX_SENDQUE_def
  MSG_HELLO_WORLD_def

record tlv_node = msg_node +
  node_msg_id :: int

definition tlv_msg_node :: "int \<Rightarrow> msg_node res" where
  "tlv_msg_node max_len =
     bindr (new_chars (max_len + 1)) (\<lambda>d.
     bindr (store d max_len NUL) (\<lambda>d.
     Inr \<lparr>node_cur_len = 0, node_total_len = max_len, node_data = d\<rparr>))"

definition RecvNode :: "int \<Rightarrow> int \<Rightarrow> tlv_node res" where
  "RecvNode max_len msg_id =
     bindr (tlv_msg_node max_len) (\<lambda>m. Inr (msg_node.extend m (tlv_node.fields msg_id)))"

definition SendNode :: "char list \<Rightarrow> int \<Rightarrow> int \<Rightarrow> tlv_node res" where
  "SendNode msg max_len msg_id =
     bindr (tlv_msg_node (to_short (max_len + HEAD_TOTAL_LEN))) (\<lambda>m.
     bindr (memcpy (node_data m) 0 (bytes16 (word_of_int msg_id)) HEAD_ID_LEN) (\<lambda>d.
     bindr (memcpy d HEAD_ID_LEN (bytes16 (word_of_int max_len)) HEAD_DATA_LEN) (\<lambda>d.
     bindr (memcpy d (HEAD_ID_LEN + HEAD_DATA_LEN) msg max_len) (\<lambda>d.
     Inr (msg_node.extend (m\<lparr>node_data := d\<rparr>) (tlv_node.fields msg_id))))))"

text \<open>The frame of a message: its id, its length, its bytes.\<close>

definition tlv_frame :: "int \<Rightarrow> char list \<Rightarrow> char list" where
  "tlv_frame msg_id msg = bytes16 (word_of_int msg_id) @ bytes16 (word_of_int (int (length msg))) @ msg"

lemma SendNode_frame:
  assumes "length msg \<le> 32763"
  obtains m where "SendNode msg (int (length msg)) msg_id = Inr m" and "node_total_len m = int (length msg) + 4"
    and "take (nat (node_total_len m)) (node_data m) = tlv_frame msg_id msg" and "node_msg_id m = msg_id"
proof -
  let ?n = "int (length msg)"
  let ?i = "bytes16 (word_of_int msg_id)" and ?l = "bytes16 (word_of_int ?n)" and ?d = "replicate (length msg + 5) NUL"
  have s: "to_short (?n + HEAD_TOTAL_LEN) = ?n + 4" using assms by (simp add: to_short_id HEAD_TOTAL_LEN_def)
  have "new_chars (?n + 4 + 1) = Inr ?d" by (simp add: new_chars_def nat_add_distrib)
  moreover have "store ?d (?n + 4) NUL = Inr ?d"
    by (simp add: store_def nat_add_distrib list_update_same_conv del: replicate_Suc)
  ultimately have 0: "tlv_msg_node (?n + 4) = Inr \<lparr>node_cur_len = 0, node_total_len = ?n + 4, node_data = ?d\<rparr>"
    unfolding tlv_msg_node_def by simp
  have 1: "memcpy ?d 0 ?i HEAD_ID_LEN = Inr (?i @ drop 2 ?d)" by (simp add: memcpy_def HEAD_ID_LEN_def del: replicate_Suc)
  have 2: "memcpy (?i @ drop 2 ?d) HEAD_ID_LEN ?l HEAD_DATA_LEN = Inr (?i @ ?l @ drop 4 ?d)"
    by (simp add: memcpy_def HEAD_ID_LEN_def HEAD_DATA_LEN_def del: replicate_Suc)
  have 3: "memcpy (?i @ ?l @ drop 4 ?d) (HEAD_ID_LEN + HEAD_DATA_LEN) msg ?n = Inr (?i @ ?l @ msg @ [NUL])"
    by (simp add: memcpy_def HEAD_ID_LEN_def HEAD_DATA_LEN_def del: replicate_Suc) simp
  let ?m = "\<lparr>node_cur_len = 0, node_total_len = ?n + 4, node_data = ?i @ ?l @ msg @ [NUL], node_msg_id = msg_id\<rparr>"
  have "SendNode msg ?n msg_id = Inr ?m"
    unfolding SendNode_def s 0 bindr_simps msg_node.select_convs 1 2 3 by (simp add: msg_node.defs tlv_node.defs)
  then show thesis by (intro that [of ?m]) (simp_all add: tlv_frame_def nat_add_distrib)
qed

end
