(* ===== verification/Send_Queue.thy ===== *)
theory Send_Queue
  imports Containers
begin

text \<open>
  The discipline by which all the asynchronous sessions send: a message is put into the queue,
  an asynchronous write is started only when the queue was empty, and the completion handler
  removes the first message and starts the write of the next. Each session type of the
  repository implements it in its own words; the locale \<open>send_queue\<close> states what an
  implementation has to satisfy, and proves what follows for any sequence of calls and
  completions: messages go out in the order they were accepted, one write at a time, none lost.
\<close>

section \<open>Sequences of calls and completions\<close>

text \<open>
  \<open>Send_Call m\<close> is a call of the send operation with the message \<open>m\<close>, which travels as \<open>frame m\<close>;
  \<open>Write_Done\<close> is the successful completion of the write in flight. A completion with no write in
  flight does not happen and is skipped. The run keeps what was accepted (the calls that made the
  queue longer) and what was delivered (the first frame of the queue, at each completion).
\<close>

datatype 'm send_event = Send_Call 'm | Write_Done

record ('s, 'f) send_run =
  run_state :: 's
  run_accepted :: "'f list"
  run_delivered :: "'f list"

fun run_sends ::
  "('s \<Rightarrow> 'f list) \<Rightarrow> ('s \<Rightarrow> 'f list) \<Rightarrow> ('m \<Rightarrow> 'f) \<Rightarrow> ('m \<Rightarrow> 's \<Rightarrow> 's res) \<Rightarrow> ('s \<Rightarrow> 's res) \<Rightarrow>
   'm send_event list \<Rightarrow> ('s, 'f) send_run \<Rightarrow> ('s, 'f) send_run res" where
  "run_sends queue inflight frame send complete [] r = Inr r"
| "run_sends queue inflight frame send complete (Send_Call m # es) r =
     bindr (send m (run_state r)) (\<lambda>s'.
     run_sends queue inflight frame send complete es
       (r\<lparr>run_state := s',
          run_accepted := run_accepted r @
            (if length (queue (run_state r)) < length (queue s') then [frame m] else [])\<rparr>))"
| "run_sends queue inflight frame send complete (Write_Done # es) r =
     (if inflight (run_state r) = [] then run_sends queue inflight frame send complete es r
      else bindr (complete (run_state r)) (\<lambda>s'.
        run_sends queue inflight frame send complete es
          (r\<lparr>run_state := s', run_delivered := run_delivered r @ [hd (queue (run_state r))]\<rparr>)))"

definition run_start :: "'s \<Rightarrow> ('s, 'f) send_run" where
  "run_start s = \<lparr>run_state = s, run_accepted = [], run_delivered = []\<rparr>"

definition calls_valid :: "('m \<Rightarrow> bool) \<Rightarrow> 'm send_event list \<Rightarrow> bool" where
  "calls_valid valid es \<longleftrightarrow> (\<forall>m. Send_Call m \<in> set es \<longrightarrow> valid m)"

lemma calls_valid_simps [simp]:
  "calls_valid valid []" "calls_valid valid (Send_Call m # es) \<longleftrightarrow> valid m \<and> calls_valid valid es"
  "calls_valid valid (Write_Done # es) \<longleftrightarrow> calls_valid valid es"
  by (auto simp: calls_valid_def)

section \<open>The contract\<close>

locale send_queue =
  fixes queue :: "'s \<Rightarrow> 'f list"
    and inflight :: "'s \<Rightarrow> 'f list"
    and frame :: "'m \<Rightarrow> 'f"
    and valid :: "'m \<Rightarrow> bool"
    and inv :: "'s \<Rightarrow> bool"
    and admits :: "'s \<Rightarrow> bool"
    and send :: "'m \<Rightarrow> 's \<Rightarrow> 's res"
    and complete :: "'s \<Rightarrow> 's res"
  assumes one_write: "inv s \<Longrightarrow> inflight s = take 1 (queue s)"
    and send_ok: "inv s \<Longrightarrow> valid m \<Longrightarrow>
      \<exists>s'. send m s = Inr s' \<and> inv s' \<and> queue s' = (if admits s then queue s @ [frame m] else queue s)"
    and complete_ok: "inv s \<Longrightarrow> queue s \<noteq> [] \<Longrightarrow> \<exists>s'. complete s = Inr s' \<and> inv s' \<and> queue s' = tl (queue s)"
begin

text \<open>What one event does to a run, by the contract alone.\<close>

lemma event_step:
  assumes "inv (run_state r)" and "calls_valid valid (e # es)"
  obtains r1 where "run_sends queue inflight frame send complete (e # es) r = run_sends queue inflight frame send complete es r1"
    and "inv (run_state r1)"
    and "run_accepted r = run_delivered r @ queue (run_state r) \<Longrightarrow>
         run_accepted r1 = run_delivered r1 @ queue (run_state r1)"
    and "length (queue (run_state r1)) \<le> length (queue (run_state r)) \<or>
         admits (run_state r) \<and> length (queue (run_state r1)) = Suc (length (queue (run_state r)))"
proof (cases e)
  case (Send_Call m)
  with assms send_ok [of "run_state r" m] obtain s' where s': "send m (run_state r) = Inr s'" "inv s'"
    "queue s' = (if admits (run_state r) then queue (run_state r) @ [frame m] else queue (run_state r))" by auto
  then show thesis
    using Send_Call by (intro that [of "r\<lparr>run_state := s', run_accepted := run_accepted r @
        (if length (queue (run_state r)) < length (queue s') then [frame m] else [])\<rparr>"]) simp_all
next
  case Write_Done
  show thesis
  proof (cases "queue (run_state r)")
    case Nil
    with Write_Done assms(1) show thesis by (intro that [of r]) (simp_all add: one_write)
  next
    case (Cons f q)
    with complete_ok [OF assms(1)] obtain s' where "complete (run_state r) = Inr s'" "inv s'" "queue s' = q" by auto
    with Write_Done Cons assms(1) show thesis
      by (intro that [of "r\<lparr>run_state := s', run_delivered := run_delivered r @ [f]\<rparr>"]) (simp_all add: one_write)
  qed
qed

lemma run_sends_account:
  assumes "inv (run_state r)" and "run_accepted r = run_delivered r @ queue (run_state r)" and "calls_valid valid es"
  shows "\<exists>r'. run_sends queue inflight frame send complete es r = Inr r' \<and> inv (run_state r') \<and>
     run_accepted r' = run_delivered r' @ queue (run_state r')"
  using assms
proof (induction es arbitrary: r)
  case (Cons e es)
  obtain r1 where r1: "run_sends queue inflight frame send complete (e # es) r = run_sends queue inflight frame send complete es r1"
    "inv (run_state r1)" "run_accepted r1 = run_delivered r1 @ queue (run_state r1)"
    using event_step [OF Cons.prems(1,3)] Cons.prems(2) by metis
  moreover have "calls_valid valid es" using Cons.prems(3) by (cases e) simp_all
  ultimately show ?case using Cons.IH [of r1] by simp
qed simp

lemma sends_in_order:
  assumes "inv s" and "queue s = []" and "calls_valid valid es"
  shows "\<exists>r. run_sends queue inflight frame send complete es (run_start s) = Inr r \<and>
     run_accepted r = run_delivered r @ queue (run_state r) \<and>
     inflight (run_state r) = take 1 (queue (run_state r))"
  using run_sends_account [of "run_start s" es] assms by (auto simp: run_start_def one_write)

end

text \<open>A queue that admits a message only while it is short is bounded.\<close>

locale bounded_send_queue = send_queue +
  fixes limit :: nat
  assumes admits_bound: "inv s \<Longrightarrow> admits s \<Longrightarrow> length (queue s) \<le> limit"
begin

lemma run_sends_bounded:
  assumes "inv (run_state r)" and "length (queue (run_state r)) \<le> Suc limit" and "calls_valid valid es"
    and "run_sends queue inflight frame send complete es r = Inr r'"
  shows "length (queue (run_state r')) \<le> Suc limit"
  using assms
proof (induction es arbitrary: r)
  case (Cons e es)
  obtain r1 where r1: "run_sends queue inflight frame send complete (e # es) r = run_sends queue inflight frame send complete es r1"
    "inv (run_state r1)" "length (queue (run_state r1)) \<le> length (queue (run_state r)) \<or>
       admits (run_state r) \<and> length (queue (run_state r1)) = Suc (length (queue (run_state r)))"
    using event_step [OF Cons.prems(1,3)] by metis
  then have "length (queue (run_state r1)) \<le> Suc limit"
    using Cons.prems(2) admits_bound [OF Cons.prems(1)] by auto
  moreover have "calls_valid valid es" using Cons.prems(3) by (cases e) simp_all
  ultimately show ?case using Cons.IH [of r1] r1 Cons.prems(4) by simp
qed simp

lemma sends_bounded:
  assumes "inv s" and "queue s = []" and "calls_valid valid es"
  shows "\<exists>r. run_sends queue inflight frame send complete es (run_start s) = Inr r \<and>
     run_accepted r = run_delivered r @ queue (run_state r) \<and>
     inflight (run_state r) = take 1 (queue (run_state r)) \<and> length (queue (run_state r)) \<le> Suc limit"
proof -
  from sends_in_order [OF assms] obtain r where r: "run_sends queue inflight frame send complete es (run_start s) = Inr r"
    "run_accepted r = run_delivered r @ queue (run_state r)" "inflight (run_state r) = take 1 (queue (run_state r))"
    by blast
  with run_sends_bounded [OF _ _ assms(3) r(1)] assms show ?thesis by (simp add: run_start_def)
qed

end

end
