(* ===== verification/Async_Server.thy ===== *)
theory Async_Server
  imports Msg_Codec Send_Queue
begin

text \<open>
  The asynchronous echo server (\<open>2. AsyncServer/inc/AsyncServer.h\<close>, \<open>src/AsyncServer.cpp\<close>). A
  session keeps the queue of nodes to send, the nodes it reads into, and what it has asked of
  asio: the bytes of the writes in flight and the read it waits for. A handler gets the error
  code, the number of bytes transferred and the bytes asio has put into the buffer; the map of
  sessions is the server's, and a session is named there by a pointer.
\<close>

section \<open>Error codes and requests to asio\<close>

datatype asio_error = Eof | Connection_Reset | Operation_Aborted | Other_Error int

datatype pending_read = No_Read | Read_Head nat | Read_Body nat

text \<open>asio stores what it has read at the start of the buffer it was given.\<close>

definition fill_node :: "char list \<Rightarrow> msg_node \<Rightarrow> msg_node" where
  "fill_node bs m = m\<lparr>node_data := bs @ drop (length bs) (node_data m)\<rparr>"

section \<open>Sessions\<close>

definition MAX_SENDQUEUE_SIZE :: int where "MAX_SENDQUEUE_SIZE = 1000"
definition max_length :: int where "max_length = 2048"

record async_session =
  as_uuid :: string
  as_open :: bool
  as_send_que :: "msg_node list"
  as_recv_msg :: "msg_node option"
  as_recv_head :: msg_node
  as_writes :: "char list list"
  as_read :: pending_read

type_synonym sessions = "string \<rightharpoonup> nat"

definition async_ClearSession :: "string \<Rightarrow> sessions \<Rightarrow> sessions" where
  "async_ClearSession uuid ss = map_erase uuid ss"

definition async_Session :: "string \<Rightarrow> async_session" where
  "async_Session uuid = \<lparr>as_uuid = uuid, as_open = True, as_send_que = [], as_recv_msg = None,
     as_recv_head = \<lparr>node_cur_len = 0, node_total_len = HEAD_SIZE, node_data = replicate 3 NUL\<rparr>,
     as_writes = [], as_read = No_Read\<rparr>"

definition async_write :: "msg_node \<Rightarrow> async_session \<Rightarrow> async_session" where
  "async_write m s = s\<lparr>as_writes := as_writes s @ [node_bytes m]\<rparr>"

definition async_Send :: "char list \<Rightarrow> int \<Rightarrow> async_session \<Rightarrow> async_session res" where
  "async_Send msg len s =
     (let pending = (0 < length (as_send_que s)) in
      if MAX_SENDQUEUE_SIZE < int (length (as_send_que s)) then Inr s
      else
        bindr (async_send_node msg len) (\<lambda>m.
        let s = s\<lparr>as_send_que := push_back m (as_send_que s)\<rparr> in
        if pending then Inr s
        else bindr (front (as_send_que s)) (\<lambda>m. Inr (async_write m s))))"

definition async_Start :: "async_session \<Rightarrow> async_session" where
  "async_Start s = s\<lparr>as_recv_head := node_clear (as_recv_head s), as_read := Read_Head (nat HEAD_SIZE)\<rparr>"

definition async_Close :: "async_session \<Rightarrow> async_session" where
  "async_Close s = s\<lparr>as_send_que := [], as_open := False\<rparr>"

definition async_handle_read_head ::
  "asio_error option \<Rightarrow> nat \<Rightarrow> char list \<Rightarrow> async_session \<Rightarrow> sessions \<Rightarrow> (async_session \<times> sessions) res" where
  "async_handle_read_head err bytes_transferred bs s ss =
     (let s = s\<lparr>as_read := No_Read, as_recv_head := fill_node bs (as_recv_head s)\<rparr> in
      if err = None then
        (if int bytes_transferred \<noteq> HEAD_SIZE then Inr (s, async_ClearSession (as_uuid s) ss)
         else
           (let data_len = uint (word16 (node_data (as_recv_head s))) in
            if data_len \<le> 0 \<or> max_length < data_len then Inr (s, async_ClearSession (as_uuid s) ss)
            else
              bindr (async_recv_node data_len) (\<lambda>m.
              Inr (s\<lparr>as_recv_msg := Some m, as_read := Read_Body (nat data_len)\<rparr>, ss))))
      else Inr (s, async_ClearSession (as_uuid s) ss))"

definition async_handle_read_body ::
  "asio_error option \<Rightarrow> nat \<Rightarrow> char list \<Rightarrow> async_session \<Rightarrow> sessions \<Rightarrow> (async_session \<times> sessions) res" where
  "async_handle_read_body err bytes_transferred bs s ss =
     (case as_recv_msg s of
        None \<Rightarrow> Inl Null_Deref
      | Some m \<Rightarrow>
          (let m = fill_node bs m;
               s = s\<lparr>as_read := No_Read, as_recv_msg := Some m\<rparr> in
           if err = None then
             (if int bytes_transferred \<noteq> node_total_len m then Inr (s, async_ClearSession (as_uuid s) ss)
              else
                bindr (store (node_data m) (node_total_len m) NUL) (\<lambda>d.
                let m = m\<lparr>node_cur_len := int bytes_transferred, node_data := d\<rparr>;
                    s = s\<lparr>as_recv_msg := Some m\<rparr> in
                bindr (async_Send (node_data m) (node_total_len m) s) (\<lambda>s.
                Inr (s\<lparr>as_recv_head := node_clear (as_recv_head s), as_read := Read_Head (nat HEAD_SIZE)\<rparr>, ss))))
           else Inr (s, async_ClearSession (as_uuid s) ss)))"

text \<open>The write at the front has completed; its handler runs.\<close>

definition async_handle_write :: "asio_error option \<Rightarrow> async_session \<Rightarrow> sessions \<Rightarrow> (async_session \<times> sessions) res" where
  "async_handle_write err s ss =
     (let s = s\<lparr>as_writes := tl (as_writes s)\<rparr> in
      if err = None then
        bindr (pop_front (as_send_que s)) (\<lambda>q.
        let s = s\<lparr>as_send_que := q\<rparr> in
        if q \<noteq> [] then bindr (front q) (\<lambda>m. Inr (async_write m s, ss))
        else Inr (s, ss))
      else Inr (s, async_ClearSession (as_uuid s) ss))"

section \<open>The server\<close>

text \<open>The accepted session, under the pointer \<open>p\<close>, and the one that waits to be accepted next.\<close>

record async_server =
  sv_sessions :: sessions
  sv_heap :: "nat \<Rightarrow> async_session"
  sv_next :: nat
  sv_accepting :: "nat option"

definition async_start_accept :: "string \<Rightarrow> async_server \<Rightarrow> async_server" where
  "async_start_accept uuid sv =
     (let p = sv_next sv in
      sv\<lparr>sv_heap := (sv_heap sv)(p := async_Session uuid), sv_next := Suc p, sv_accepting := Some p\<rparr>)"

definition async_handle_accept :: "string \<Rightarrow> nat \<Rightarrow> asio_error option \<Rightarrow> async_server \<Rightarrow> async_server" where
  "async_handle_accept next_uuid p err sv =
     (let sv = (if err = None then
                  sv\<lparr>sv_heap := (sv_heap sv)(p := async_Start (sv_heap sv p)),
                     sv_sessions := map_insert (as_uuid (sv_heap sv p)) p (sv_sessions sv)\<rparr>
                else sv)
      in async_start_accept next_uuid sv)"

section \<open>The send queue\<close>

lemma memcpy_take: "k \<le> length s \<Longrightarrow> memcpy d i (take k s) (int k) = memcpy d i s (int k)"
  by (simp add: memcpy_def)

lemma async_send_node_take: "k \<le> length msg \<Longrightarrow> async_send_node msg (int k) = async_send_node (take k msg) (int k)"
  by (simp add: async_send_node_def memcpy_take)

definition async_frame :: "char list \<Rightarrow> char list" where
  "async_frame msg = bytes16 (word_of_int (int (length msg))) @ msg"

lemma async_send_node_frame:
  assumes "k \<le> length msg"
  obtains m where "async_send_node msg (int k) = Inr m" and "node_bytes m = async_frame (take k msg)"
proof -
  have k: "int (length (take k msg)) = int k" using assms by simp
  obtain m where m: "async_send_node (take k msg) (int (length (take k msg))) = Inr m"
    "node_bytes m = bytes16 (word_of_int (int (length (take k msg)))) @ take k msg"
    by (rule async_send_node_bytes)
  from m(2) have "node_bytes m = async_frame (take k msg)" unfolding async_frame_def .
  with m(1) show thesis using async_send_node_take [OF assms] unfolding k by (intro that [of m]) simp_all
qed

definition async_queue :: "async_session \<Rightarrow> char list list" where
  "async_queue s = map node_bytes (as_send_que s)"

definition async_inv :: "async_session \<Rightarrow> bool" where
  "async_inv s \<longleftrightarrow> as_writes s = take 1 (async_queue s)"

definition async_admits :: "async_session \<Rightarrow> bool" where
  "async_admits s \<longleftrightarrow> int (length (as_send_que s)) \<le> MAX_SENDQUEUE_SIZE"

definition async_send_all :: "char list \<Rightarrow> async_session \<Rightarrow> async_session res" where
  "async_send_all msg s = async_Send msg (int (length msg)) s"

definition async_write_done :: "async_session \<Rightarrow> async_session res" where
  "async_write_done s = bindr (async_handle_write None s Map.empty) (\<lambda>(s, _). Inr s)"

lemma async_Send_ok:
  assumes "async_inv s" and "k \<le> length msg"
  obtains s' where "async_Send msg (int k) s = Inr s'" and "async_inv s'"
    and "async_queue s' = (if async_admits s then async_queue s @ [async_frame (take k msg)] else async_queue s)"
    and "as_uuid s' = as_uuid s" and "as_recv_head s' = as_recv_head s"
proof -
  obtain m where m: "async_send_node msg (int k) = Inr m" "node_bytes m = async_frame (take k msg)"
    using async_send_node_frame [OF assms(2)] .
  show thesis
  proof (cases "async_admits s")
    case False
    with assms(1) show thesis by (intro that [of s]) (simp_all add: async_Send_def async_admits_def Let_def)
  next
    case True
    let ?s = "s\<lparr>as_send_que := as_send_que s @ [m]\<rparr>"
    show thesis
    proof (cases "as_send_que s")
      case Nil
      with True m assms(1) show thesis
        by (intro that [of "async_write m ?s"])
          (simp_all add: async_Send_def async_admits_def Let_def queue_defs async_write_def async_inv_def async_queue_def)
    next
      case (Cons n q)
      with True m assms(1) show thesis
        by (intro that [of ?s])
          (simp_all add: async_Send_def async_admits_def Let_def queue_defs async_inv_def async_queue_def)
    qed
  qed
qed

lemma async_write_done_ok:
  assumes "async_inv s" and "async_queue s \<noteq> []"
  shows "\<exists>s'. async_write_done s = Inr s' \<and> async_inv s' \<and> async_queue s' = tl (async_queue s)"
proof -
  from assms obtain m q where "as_send_que s = m # q" "as_writes s = [node_bytes m]"
    by (cases "as_send_que s") (auto simp: async_inv_def async_queue_def)
  then show ?thesis
    by (cases q) (simp_all add: async_write_done_def async_handle_write_def Let_def queue_defs async_write_def
        async_inv_def async_queue_def)
qed

interpretation async_echo: bounded_send_queue async_queue as_writes async_frame "\<lambda>_. True" async_inv async_admits
  async_send_all async_write_done 1000
proof unfold_locales
  fix s :: async_session and m
  show "as_writes s = take 1 (async_queue s)" if "async_inv s" using that by (simp add: async_inv_def)
  show "\<exists>s'. async_send_all m s = Inr s' \<and> async_inv s' \<and>
      async_queue s' = (if async_admits s then async_queue s @ [async_frame m] else async_queue s)"
    if "async_inv s" "True"
    by (rule async_Send_ok [OF that(1), of "length m" m]) (auto simp: async_send_all_def)
  show "\<exists>s'. async_write_done s = Inr s' \<and> async_inv s' \<and> async_queue s' = tl (async_queue s)"
    if "async_inv s" "async_queue s \<noteq> []" using async_write_done_ok [OF that] .
  show "length (async_queue s) \<le> 1000" if "async_inv s" "async_admits s"
    using that by (simp add: async_queue_def async_admits_def MAX_SENDQUEUE_SIZE_def)
qed

section \<open>Properties\<close>

text \<open>
  C30. The echo server sends in order: after any sequence of sends and completed writes, the
  frames accepted are those delivered followed by those waiting, at most one write is in flight
  and it is that of the first waiting frame, and at most 1001 frames wait.
\<close>

theorem async_sends_in_order:
  assumes "async_inv s" and "as_send_que s = []"
  shows "\<exists>r. run_sends async_queue as_writes async_frame async_send_all async_write_done es (run_start s) = Inr r \<and>
     run_accepted r = run_delivered r @ async_queue (run_state r) \<and>
     as_writes (run_state r) = take 1 (async_queue (run_state r)) \<and>
     length (as_send_que (run_state r)) \<le> 1001"
  using async_echo.sends_bounded [OF assms(1), of es] assms(2)
  by (auto simp: async_queue_def calls_valid_def)

theorem async_sends_in_order_witness:
  "\<exists>r. run_sends async_queue as_writes async_frame async_send_all async_write_done
        [Send_Call ''ab'', Send_Call ''c'', Write_Done] (run_start (async_Session ''u'')) = Inr r \<and>
     run_accepted r = run_delivered r @ async_queue (run_state r) \<and>
     as_writes (run_state r) = take 1 (async_queue (run_state r)) \<and> length (as_send_que (run_state r)) \<le> 1001"
  by (rule async_sends_in_order) (simp_all add: async_inv_def async_queue_def async_Session_def)

lemma async_echo_message:
  assumes "async_inv s" and "async_admits s" and "0 < length msg" and "length msg \<le> 2048"
    and "length (node_data (as_recv_head s)) = 3"
  shows "\<exists>s1 s2. async_handle_read_head None 2 (bytes16 (word_of_int (int (length msg)))) s ss = Inr (s1, ss) \<and>
     as_read s1 = Read_Body (length msg) \<and>
     async_handle_read_body None (length msg) msg s1 ss = Inr (s2, ss) \<and>
     async_queue s2 = async_queue s @ [async_frame msg] \<and> async_inv s2 \<and> as_read s2 = Read_Head 2"
proof -
  let ?n = "int (length msg)" and ?h = "bytes16 (word_of_int (int (length msg)))"
  have len: "uint (word_of_int ?n :: 16 word) = ?n"
    unfolding uint_word_of_int using assms(4) by simp
  let ?head = "fill_node ?h (as_recv_head s)"
  have hd: "word16 (node_data ?head) = word_of_int ?n" by (simp add: fill_node_def word16_bytes16 del: of_int_of_nat_eq)
  let ?m = "\<lparr>node_cur_len = 0, node_total_len = ?n, node_data = replicate (length msg + 1) NUL\<rparr>"
  let ?s1 = "s\<lparr>as_read := Read_Body (length msg), as_recv_head := ?head, as_recv_msg := Some ?m\<rparr>"
  have rn: "async_recv_node ?n = Inr ?m" by (simp add: async_recv_node_def new_chars_def nat_add_distrib)
  have 1: "async_handle_read_head None 2 ?h s ss = Inr (?s1, ss)"
    using assms(3,4) rn by (simp add: async_handle_read_head_def Let_def hd len HEAD_SIZE_def max_length_def del: of_int_of_nat_eq)
  define s1 where "s1 = ?s1"
  have s1: "as_recv_msg s1 = Some ?m" "as_writes s1 = as_writes s" "as_send_que s1 = as_send_que s"
    "as_read s1 = Read_Body (length msg)" by (simp_all add: s1_def)
  let ?d = "msg @ [NUL]"
  let ?m1 = "?m\<lparr>node_cur_len := ?n, node_data := ?d\<rparr>"
  let ?s2 = "s1\<lparr>as_read := No_Read, as_recv_msg := Some ?m1\<rparr>"
  have "async_inv ?s2" using assms(1) s1 by (simp add: async_inv_def async_queue_def)
  then obtain s3 where s3: "async_Send ?d ?n ?s2 = Inr s3" "async_inv s3"
    "async_queue s3 = (if async_admits ?s2 then async_queue ?s2 @ [async_frame (take (length msg) ?d)] else async_queue ?s2)"
    by (rule async_Send_ok [of _ "length msg" ?d]) simp_all
  have dr: "drop (length msg) (NUL # replicate (length msg) NUL) = [NUL]"
    using drop_replicate [of "length msg" "Suc (length msg)" NUL] by simp
  have st: "store (msg @ [NUL]) ?n NUL = Inr ?d" by (simp add: store_def)
  let ?s4 = "s3\<lparr>as_recv_head := node_clear (as_recv_head s3), as_read := Read_Head 2\<rparr>"
  have 2: "async_handle_read_body None (length msg) msg s1 ss = Inr (?s4, ss)"
    using st s3(1) s1(1) dr by (simp add: async_handle_read_body_def Let_def fill_node_def HEAD_SIZE_def)
  have "async_queue ?s4 = async_queue s @ [async_frame msg]" "async_inv ?s4"
    using s3(2,3) s1(3) assms(2) by (simp_all add: async_queue_def async_admits_def async_inv_def)
  with 1 2 s1(4) show ?thesis unfolding s1_def [symmetric] by (intro exI [of _ s1] exI [of _ ?s4]) simp
qed

text \<open>
  Echo: a frame of 1 to 2048 bytes, read as a header and a body, is put into the send queue
  unchanged (unless the queue is full), and the session reads the next header.
\<close>

theorem async_echo_frame:
  assumes "async_inv s" and "async_admits s" and "0 < length msg" and "length msg \<le> 2048"
    and "length (node_data (as_recv_head s)) = 3"
  shows "\<exists>s1 s2. async_handle_read_head None 2 (bytes16 (word_of_int (int (length msg)))) s ss = Inr (s1, ss) \<and>
     as_read s1 = Read_Body (length msg) \<and>
     async_handle_read_body None (length msg) msg s1 ss = Inr (s2, ss) \<and>
     async_queue s2 = async_queue s @ [async_frame msg] \<and> async_inv s2 \<and> as_read s2 = Read_Head 2"
  using assms by (rule async_echo_message)

theorem async_echo_frame_witness:
  "\<exists>s1 s2. async_handle_read_head None 2 [CHR 0x00, CHR 0x02] (async_Session ''u'') Map.empty = Inr (s1, Map.empty) \<and>
     async_handle_read_body None 2 ''hi'' s1 Map.empty = Inr (s2, Map.empty) \<and>
     async_queue s2 = [[CHR 0x00, CHR 0x02, CHR ''h'', CHR ''i'']] \<and> as_read s2 = Read_Head 2"
proof -
  have b: "bytes16 (word_of_int (int (length ''hi''))) = [CHR 0x00, CHR 0x02]" by code_simp
  then have b2: "bytes16 2 = [CHR 0x00, CHR 0x02]" by simp
  have f: "async_frame ''hi'' = [CHR 0x00, CHR 0x02, CHR ''h'', CHR ''i'']" unfolding async_frame_def b by simp
  have len: "length ''hi'' = 2" by simp
  have "async_inv (async_Session ''u'')" "async_admits (async_Session ''u'')" "async_queue (async_Session ''u'') = []"
    "length (node_data (as_recv_head (async_Session ''u''))) = 3"
    by (simp_all add: async_Session_def async_inv_def async_queue_def async_admits_def MAX_SENDQUEUE_SIZE_def)
  then show ?thesis
    using async_echo_frame [of "async_Session ''u''" "''hi''" Map.empty] unfolding f len using b2 by auto
qed

text \<open>
  Everything else ends the session: a read error, a short header or body, and a header that
  announces no bytes or more than 2048 erase the session from the server's map, and nothing more
  is read.
\<close>

theorem async_bad_input_clears:
  assumes "err \<noteq> None \<or> n \<noteq> 2 \<or> uint (word16 (bs @ drop (length bs) (node_data (as_recv_head s)))) \<notin> {1..2048}"
  shows "\<exists>s'. async_handle_read_head err n bs s ss = Inr (s', ss(as_uuid s := None)) \<and> as_read s' = No_Read \<and>
     as_send_que s' = as_send_que s"
proof -
  define v where "v = uint (word16 (node_data (fill_node bs (as_recv_head s))))"
  have v: "v = uint (word16 (bs @ drop (length bs) (node_data (as_recv_head s))))" by (simp add: v_def fill_node_def)
  from assms have "err \<noteq> None \<or> n \<noteq> 2 \<or> v \<notin> {1..2048}" unfolding v .
  then have "err \<noteq> None \<or> n \<noteq> 2 \<or> v \<le> 0 \<or> 2048 < v" by (cases "v \<le> 0") (simp_all add: not_le)
  then have "async_handle_read_head err n bs s ss =
      Inr (s\<lparr>as_read := No_Read, as_recv_head := fill_node bs (as_recv_head s)\<rparr>, async_ClearSession (as_uuid s) ss)"
    by (auto simp: async_handle_read_head_def Let_def HEAD_SIZE_def max_length_def simp flip: v_def)
  then show ?thesis by (simp add: async_ClearSession_def map_erase_def)
qed

theorem async_bad_input_clears_witness:
  "\<exists>s'. async_handle_read_head None 2 [CHR 0x10, CHR 0x00] (async_Session ''u'') [''u'' \<mapsto> 7] = Inr (s', [''u'' \<mapsto> 7](''u'' := None)) \<and>
     as_read s' = No_Read"
proof -
  have "uint (word16 [CHR 0x10, CHR 0x00, CHR 0x00]) \<notin> {1..2048}" by (simp add: word16_def)
  then show ?thesis
    using async_bad_input_clears [of None 2 "[CHR 0x10, CHR 0x00]" "async_Session ''u''" "[''u'' \<mapsto> 7]"]
    by (auto simp: async_Session_def numeral_3_eq_3)
qed

end
