(* ===== verification/Async_Session.thy ===== *)
theory Async_Session
  imports Async_Server
begin

text \<open>
  The three ways of writing and two ways of reading of the session class of \<open>2. AsyncServer\<close>
  (\<open>inc/Session.h\<close>, \<open>src/Session.cpp\<close>). \<open>async_write_some\<close>, \<open>async_send\<close> and \<open>async_read_some\<close> may
  transfer fewer bytes than they were given; the completion handlers decide what happens to the
  rest. A handler is given the error and the number of bytes transferred. The buffers asio was
  given are kept by value: the callers keep the string they pass alive until its write is done.
\<close>

section \<open>Nodes and sessions\<close>

definition RECVSIZE :: int where "RECVSIZE = 1024"

definition raw_send_node :: "string \<Rightarrow> msg_node res" where
  "raw_send_node buf =
     (let total_len = to_int32 (int (length buf)) in
      bindr (new_chars total_len) (\<lambda>d.
      bindr (memcpy d 0 (buf @ [NUL]) total_len) (\<lambda>d.
      Inr \<lparr>node_cur_len = 0, node_total_len = total_len, node_data = d\<rparr>)))"

definition raw_recv_node :: "int \<Rightarrow> msg_node res" where
  "raw_recv_node total_len =
     bindr (new_chars total_len) (\<lambda>d. Inr \<lparr>node_cur_len = 0, node_total_len = total_len, node_data = d\<rparr>)"

text \<open>\<open>buffer(_msg + _cur_len, _total_len - _cur_len)\<close>.\<close>

definition unsent :: "msg_node \<Rightarrow> char list" where
  "unsent m = take (nat (node_total_len m - node_cur_len m)) (drop (nat (node_cur_len m)) (node_data m))"

text \<open>
  The nodes of \<open>WriteToSocket\<close> are shared between the session and the handlers, so they live under
  pointers. A write in flight is its bytes and the handler it will call.
\<close>

datatype raw_handler = On_Write nat | On_Queue | On_All

record raw_session =
  rs_send_queue :: "msg_node list"
  rs_nodes :: "nat \<Rightarrow> msg_node option"
  rs_fresh :: nat
  rs_sendnode :: "nat option"
  rs_sendpending :: bool
  rs_recvnode :: "msg_node option"
  rs_recvpending :: bool
  rs_writes :: "(char list \<times> raw_handler) list"
  rs_reads :: "int list"

definition raw_Session :: raw_session where
  "raw_Session = \<lparr>rs_send_queue = [], rs_nodes = Map.empty, rs_fresh = 0, rs_sendnode = None, rs_sendpending = False,
     rs_recvnode = None, rs_recvpending = False, rs_writes = [], rs_reads = []\<rparr>"

definition raw_write :: "char list \<Rightarrow> raw_handler \<Rightarrow> raw_session \<Rightarrow> raw_session" where
  "raw_write bs h s = s\<lparr>rs_writes := rs_writes s @ [(bs, h)]\<rparr>"

section \<open>Writing without a queue\<close>

definition WriteToSocket :: "string \<Rightarrow> raw_session \<Rightarrow> raw_session res" where
  "WriteToSocket buf s =
     bindr (raw_send_node buf) (\<lambda>m.
     let p = rs_fresh s;
         s = s\<lparr>rs_nodes := (rs_nodes s)(p \<mapsto> m), rs_fresh := Suc p, rs_sendnode := Some p\<rparr>
     in Inr (raw_write (take (nat (node_total_len m)) (node_data m)) (On_Write p) s))"

definition WriteCallBack :: "asio_error option \<Rightarrow> nat \<Rightarrow> nat \<Rightarrow> raw_session \<Rightarrow> raw_session res" where
  "WriteCallBack ec bytes_transfered p s =
     (let s = s\<lparr>rs_writes := tl (rs_writes s)\<rparr> in
      if ec \<noteq> None then Inr s
      else
        (case rs_nodes s p of
           None \<Rightarrow> Inl Null_Deref
         | Some msg_node \<Rightarrow>
             if int bytes_transfered + node_cur_len msg_node < node_total_len msg_node then
               (let s = s\<lparr>rs_nodes := (rs_nodes s)(p \<mapsto> msg_node\<lparr>node_cur_len := to_int32 (node_cur_len msg_node + int bytes_transfered)\<rparr>)\<rparr> in
                case rs_sendnode s of
                  None \<Rightarrow> Inl Null_Deref
                | Some q \<Rightarrow>
                    (case rs_nodes s q of
                       None \<Rightarrow> Inl Null_Deref
                     | Some sendnode \<Rightarrow> Inr (raw_write (unsent sendnode) (On_Write q) s)))
             else Inr s))"

section \<open>Writing with a queue\<close>

definition WriteToSocketWithQueue :: "string \<Rightarrow> raw_session \<Rightarrow> raw_session res" where
  "WriteToSocketWithQueue buf s =
     bindr (raw_send_node buf) (\<lambda>m.
     let s = s\<lparr>rs_send_queue := push_back m (rs_send_queue s)\<rparr> in
     if rs_sendpending s then Inr s
     else Inr ((raw_write buf On_Queue s)\<lparr>rs_sendpending := True\<rparr>))"

definition WriteCallBackWithQueue :: "asio_error option \<Rightarrow> nat \<Rightarrow> raw_session \<Rightarrow> raw_session res" where
  "WriteCallBackWithQueue ec bytes_transfered s =
     (let s = s\<lparr>rs_writes := tl (rs_writes s)\<rparr> in
      if ec \<noteq> None then Inr s
      else
        bindr (front (rs_send_queue s)) (\<lambda>send_data.
        let send_data = send_data\<lparr>node_cur_len := to_int32 (node_cur_len send_data + int bytes_transfered)\<rparr>;
            s = s\<lparr>rs_send_queue := (rs_send_queue s)[0 := send_data]\<rparr> in
        if node_cur_len send_data < node_total_len send_data
        then Inr (raw_write (unsent send_data) On_Queue s)
        else
          bindr (pop_front (rs_send_queue s)) (\<lambda>q.
          let s = s\<lparr>rs_send_queue := q\<rparr> in
          if length q = 0 then Inr (s\<lparr>rs_sendpending := False\<rparr>)
          else bindr (front q) (\<lambda>send_data. Inr (raw_write (unsent send_data) On_Queue s)))))"

section \<open>Writing all at once\<close>

definition WriteAllToSocket :: "string \<Rightarrow> raw_session \<Rightarrow> raw_session res" where
  "WriteAllToSocket buf s =
     bindr (raw_send_node buf) (\<lambda>m.
     let s = s\<lparr>rs_send_queue := push_back m (rs_send_queue s)\<rparr> in
     if rs_sendpending s then Inr s
     else Inr ((raw_write buf On_All s)\<lparr>rs_sendpending := True\<rparr>))"

definition WriteAllCallBack :: "asio_error option \<Rightarrow> nat \<Rightarrow> raw_session \<Rightarrow> raw_session res" where
  "WriteAllCallBack ec bytes_transferred s =
     (let s = s\<lparr>rs_writes := tl (rs_writes s)\<rparr> in
      if ec \<noteq> None then Inr s
      else
        bindr (pop_front (rs_send_queue s)) (\<lambda>q.
        let s = s\<lparr>rs_send_queue := q\<rparr>;
            s = (if q = [] then s\<lparr>rs_sendpending := False\<rparr> else s) in
        if q \<noteq> [] then bindr (front q) (\<lambda>send_data. Inr (raw_write (unsent send_data) On_All s))
        else Inr s))"

section \<open>Reading\<close>

text \<open>
  A read in flight is the number of bytes of the node it may fill, from \<open>_cur_len\<close> on; the handler
  gets the bytes asio has stored there.
\<close>

definition ReadFromSocket :: "raw_session \<Rightarrow> raw_session res" where
  "ReadFromSocket s =
     (if rs_recvpending s then Inr s
      else bindr (raw_recv_node RECVSIZE) (\<lambda>m.
        Inr (s\<lparr>rs_recvnode := Some m, rs_reads := rs_reads s @ [node_total_len m], rs_recvpending := True\<rparr>)))"

definition fill_at :: "char list \<Rightarrow> msg_node \<Rightarrow> msg_node" where
  "fill_at bs m = m\<lparr>node_data := take (nat (node_cur_len m)) (node_data m) @ bs @ drop (nat (node_cur_len m) + length bs) (node_data m)\<rparr>"

definition ReadCallBack :: "asio_error option \<Rightarrow> char list \<Rightarrow> raw_session \<Rightarrow> raw_session res" where
  "ReadCallBack ec bs s =
     (let s = s\<lparr>rs_reads := tl (rs_reads s)\<rparr> in
      if ec \<noteq> None then Inr s
      else
        (case rs_recvnode s of
           None \<Rightarrow> Inl Null_Deref
         | Some m \<Rightarrow>
             (let m = (fill_at bs m)\<lparr>node_cur_len := to_int32 (node_cur_len m + int (length bs))\<rparr> in
              if node_cur_len m < node_total_len m
              then Inr (s\<lparr>rs_recvnode := Some m, rs_reads := rs_reads s @ [node_total_len m - node_cur_len m]\<rparr>)
              else Inr (s\<lparr>rs_recvnode := None, rs_recvpending := False\<rparr>))))"

definition ReadAllFromSocket :: "raw_session \<Rightarrow> raw_session res" where
  "ReadAllFromSocket s =
     (if rs_recvpending s then Inr s
      else bindr (raw_recv_node RECVSIZE) (\<lambda>m.
        Inr (s\<lparr>rs_recvnode := Some m, rs_reads := rs_reads s @ [node_total_len m], rs_recvpending := True\<rparr>)))"

definition ReadAllCallBack :: "asio_error option \<Rightarrow> char list \<Rightarrow> raw_session \<Rightarrow> raw_session res" where
  "ReadAllCallBack ec bs s =
     (case rs_recvnode s of
        None \<Rightarrow> Inl Null_Deref
      | Some m \<Rightarrow> Inr (s\<lparr>rs_reads := tl (rs_reads s), rs_recvpending := False, rs_recvnode := None\<rparr>))"

section \<open>Nodes of a string\<close>

definition string_node :: "string \<Rightarrow> msg_node" where
  "string_node buf = \<lparr>node_cur_len = 0, node_total_len = int (length buf), node_data = buf\<rparr>"

definition raw_valid :: "string \<Rightarrow> bool" where
  "raw_valid buf \<longleftrightarrow> int (length buf) \<le> INT_MAX"

lemma raw_send_node_ok: "raw_valid buf \<Longrightarrow> raw_send_node buf = Inr (string_node buf)"
  by (simp add: raw_send_node_def raw_valid_def to_int32_id new_chars_def memcpy_def string_node_def)

lemma unsent_string [simp]: "unsent (string_node buf) = buf" "node_data (string_node buf) = buf"
  by (simp_all add: unsent_def string_node_def)

section \<open>The queue with short writes\<close>

text \<open>
  The node at the front may be partly sent. What is still to go out: the rest of the front node and
  the nodes behind it. One write is in flight, of exactly the rest of the front node.
\<close>

definition part_sent :: "msg_node \<Rightarrow> bool" where
  "part_sent m \<longleftrightarrow> node_total_len m = int (length (node_data m)) \<and> node_total_len m \<le> INT_MAX \<and>
     0 \<le> node_cur_len m \<and> node_cur_len m \<le> node_total_len m"

lemma unsent_drop: "part_sent m \<Longrightarrow> unsent m = drop (nat (node_cur_len m)) (node_data m)"
  by (simp add: part_sent_def unsent_def nat_diff_distrib)

definition queue_inv :: "raw_session \<Rightarrow> bool" where
  "queue_inv s \<longleftrightarrow> (rs_sendpending s \<longleftrightarrow> rs_send_queue s \<noteq> []) \<and>
     map fst (rs_writes s) = take 1 (map unsent (rs_send_queue s)) \<and> list_all part_sent (rs_send_queue s)"

definition to_send :: "raw_session \<Rightarrow> char list" where
  "to_send s = concat (map unsent (rs_send_queue s))"

lemma part_sent_string: "raw_valid buf \<Longrightarrow> part_sent (string_node buf)"
  by (simp add: part_sent_def string_node_def raw_valid_def)

lemma queue_call:
  assumes "queue_inv s" and "raw_valid buf"
  obtains s' where "WriteToSocketWithQueue buf s = Inr s'" and "queue_inv s'" and "to_send s' = to_send s @ buf"
proof (cases "rs_send_queue s = []")
  case True
  then show thesis
    using assms part_sent_string [OF assms(2)]
    by (intro that [of "(raw_write buf On_Queue (s\<lparr>rs_send_queue := [string_node buf]\<rparr>))\<lparr>rs_sendpending := True\<rparr>"])
      (simp_all add: WriteToSocketWithQueue_def raw_send_node_ok Let_def push_back_def queue_inv_def raw_write_def to_send_def)
next
  case False
  then have "1 \<le> length (rs_send_queue s)" by (cases "rs_send_queue s") simp_all
  with False show thesis
    using assms part_sent_string [OF assms(2)]
    by (intro that [of "s\<lparr>rs_send_queue := rs_send_queue s @ [string_node buf]\<rparr>"])
      (simp_all add: WriteToSocketWithQueue_def raw_send_node_ok Let_def push_back_def queue_inv_def to_send_def)
qed

lemma advance_node:
  assumes "part_sent m" and "k \<le> length (unsent m)"
  defines "m' \<equiv> m\<lparr>node_cur_len := to_int32 (node_cur_len m + int k)\<rparr>"
  shows "part_sent m'" and "unsent m' = drop k (unsent m)" and "node_cur_len m' < node_total_len m' \<longleftrightarrow> k < length (unsent m)"
proof -
  have k: "int k \<le> node_total_len m - node_cur_len m" "length (unsent m) = nat (node_total_len m - node_cur_len m)"
  proof -
    have l: "length (unsent m) = length (node_data m) - nat (node_cur_len m)" by (simp add: unsent_drop [OF assms(1)])
    from assms(2) l assms(1) show "int k \<le> node_total_len m - node_cur_len m" unfolding part_sent_def by linarith
    from l assms(1) show "length (unsent m) = nat (node_total_len m - node_cur_len m)" unfolding part_sent_def by linarith
  qed
  have c: "node_cur_len m' = node_cur_len m + int k"
    using assms(1) k(1) unfolding m'_def by (simp add: part_sent_def to_int32_id)
  show p: "part_sent m'" using assms(1) k(1) c by (simp add: part_sent_def m'_def)
  show "unsent m' = drop k (unsent m)"
    using assms(1) c unfolding unsent_drop [OF p] unsent_drop [OF assms(1)]
    by (simp add: m'_def part_sent_def nat_add_distrib add.commute)
  show "node_cur_len m' < node_total_len m' \<longleftrightarrow> k < length (unsent m)"
    using assms(1) k c by (auto simp: part_sent_def m'_def)
qed

lemma queue_done_front:
  assumes "rs_send_queue s = m # q"
  shows "WriteCallBackWithQueue None k s =
     (let m' = m\<lparr>node_cur_len := to_int32 (node_cur_len m + int k)\<rparr>;
          s = s\<lparr>rs_writes := tl (rs_writes s), rs_send_queue := m' # q\<rparr> in
      if node_cur_len m' < node_total_len m' then Inr (raw_write (unsent m') On_Queue s)
      else
        (let s = s\<lparr>rs_send_queue := q\<rparr> in
         if q = [] then Inr (s\<lparr>rs_sendpending := False\<rparr>)
         else bindr (front q) (\<lambda>m. Inr (raw_write (unsent m) On_Queue s))))"
  unfolding WriteCallBackWithQueue_def using assms by (simp add: Let_def queue_defs)

lemma queue_done:
  assumes inv: "queue_inv s" and w: "rs_writes s = (bs, h) # ws" and k: "k \<le> length bs"
  obtains s' where "WriteCallBackWithQueue None k s = Inr s'" and "queue_inv s'" and "to_send s = take k bs @ to_send s'"
proof -
  obtain m q where q: "rs_send_queue s = m # q" and bs: "bs = unsent m" and ws: "ws = []"
    using inv w by (cases "rs_send_queue s") (auto simp: queue_inv_def)
  have m: "part_sent m" "list_all part_sent q" using inv q by (simp_all add: queue_inv_def)
  define m' where "m' = m\<lparr>node_cur_len := to_int32 (node_cur_len m + int k)\<rparr>"
  note a = advance_node [OF m(1) k [unfolded bs], folded m'_def]
  define s1 where "s1 = s\<lparr>rs_writes := [], rs_send_queue := m' # q\<rparr>"
  show thesis
  proof (cases "k < length bs")
    case True
    then have "node_cur_len m' < node_total_len m'" using a(3) bs by simp
    then have "WriteCallBackWithQueue None k s = Inr (raw_write (unsent m') On_Queue s1)"
      unfolding queue_done_front [OF q] m'_def [symmetric] Let_def using w ws by (simp add: s1_def)
    moreover have "queue_inv (raw_write (unsent m') On_Queue s1)"
      using inv q m a by (simp add: queue_inv_def raw_write_def s1_def)
    moreover have "to_send s = take k bs @ to_send (raw_write (unsent m') On_Queue s1)"
      using q bs a(2) by (simp add: to_send_def raw_write_def s1_def)
    ultimately show thesis by (rule that)
  next
    case False
    then have kb: "take k bs = unsent m" "unsent m' = []" using bs a(2) by simp_all
    define s2 where "s2 = (case q of [] \<Rightarrow> s1\<lparr>rs_send_queue := [], rs_sendpending := False\<rparr>
        | n # _ \<Rightarrow> raw_write (unsent n) On_Queue (s1\<lparr>rs_send_queue := q\<rparr>))"
    have "\<not> node_cur_len m' < node_total_len m'" using a(3) bs False by simp
    then have "WriteCallBackWithQueue None k s = Inr s2"
      unfolding queue_done_front [OF q] m'_def [symmetric] Let_def using w ws
      by (cases q) (simp_all add: queue_defs s1_def s2_def)
    moreover have "queue_inv s2"
      using inv q m by (cases q) (simp_all add: queue_inv_def raw_write_def s1_def s2_def)
    moreover have "to_send s = take k bs @ to_send s2"
      using q kb by (cases q) (simp_all add: to_send_def raw_write_def s1_def s2_def)
    ultimately show thesis by (rule that)
  qed
qed

text \<open>
  A run: calls of \<open>WriteToSocketWithQueue\<close>, and completions of the write in flight with some number
  of bytes, never more than it was given. The second component is what has gone out.
\<close>

datatype raw_event = Queue_Write string | Sent_Bytes nat

fun queue_run :: "raw_event list \<Rightarrow> raw_session \<times> char list \<Rightarrow> (raw_session \<times> char list) res" where
  "queue_run [] (s, wire) = Inr (s, wire)"
| "queue_run (Queue_Write buf # es) (s, wire) = bindr (WriteToSocketWithQueue buf s) (\<lambda>s. queue_run es (s, wire))"
| "queue_run (Sent_Bytes k # es) (s, wire) =
     (case rs_writes s of
        [] \<Rightarrow> queue_run es (s, wire)
      | (bs, _) # _ \<Rightarrow>
          bindr (WriteCallBackWithQueue None (min k (length bs)) s) (\<lambda>s. queue_run es (s, wire @ take k bs)))"

fun written_strings :: "raw_event list \<Rightarrow> string list" where
  "written_strings [] = []"
| "written_strings (Queue_Write buf # es) = buf # written_strings es"
| "written_strings (Sent_Bytes _ # es) = written_strings es"

lemma queue_run_stream:
  assumes "queue_inv s" and "list_all raw_valid (written_strings es)"
  shows "\<exists>s' wire'. queue_run es (s, wire) = Inr (s', wire') \<and> queue_inv s' \<and>
     wire' @ to_send s' = wire @ to_send s @ concat (written_strings es)"
  using assms
proof (induction es arbitrary: s wire)
  case (Cons e es)
  show ?case
  proof (cases e)
    case (Queue_Write buf)
    with Cons.prems have v: "raw_valid buf" "list_all raw_valid (written_strings es)" by simp_all
    from queue_call [OF Cons.prems(1) v(1)] obtain s1 where
      s1: "WriteToSocketWithQueue buf s = Inr s1" "queue_inv s1" "to_send s1 = to_send s @ buf" .
    from Cons.IH [OF s1(2) v(2), of wire] s1 show ?thesis by (simp add: Queue_Write)
  next
    case (Sent_Bytes k)
    show ?thesis
    proof (cases "rs_writes s")
      case Nil
      with Cons.IH [OF Cons.prems(1), of wire] Cons.prems(2) show ?thesis by (simp add: Sent_Bytes)
    next
      case (Cons w ws)
      obtain bs h where w: "w = (bs, h)" by (cases w)
      from queue_done [OF Cons.prems(1) Cons [unfolded w], of "min k (length bs)"] obtain s1 where
        s1: "WriteCallBackWithQueue None (min k (length bs)) s = Inr s1" "queue_inv s1"
          "to_send s = take (min k (length bs)) bs @ to_send s1" by auto
      have "take (min k (length bs)) bs = take k bs" by (simp add: min_def)
      with Cons.IH [OF s1(2), of "wire @ take k bs"] s1 Cons.prems(2) Cons w show ?thesis by (simp add: Sent_Bytes)
    qed
  qed
qed simp

section \<open>Whole writes\<close>

text \<open>
  \<open>WriteAllToSocket\<close> follows the common discipline as long as \<open>async_send\<close> takes all of a node.
\<close>

definition all_queue :: "raw_session \<Rightarrow> char list list" where
  "all_queue s = map unsent (rs_send_queue s)"

definition all_writes :: "raw_session \<Rightarrow> char list list" where
  "all_writes s = map fst (rs_writes s)"

definition all_inv :: "raw_session \<Rightarrow> bool" where
  "all_inv s \<longleftrightarrow> all_writes s = take 1 (all_queue s) \<and> (rs_sendpending s \<longleftrightarrow> rs_send_queue s \<noteq> [])"

definition all_done :: "raw_session \<Rightarrow> raw_session res" where
  "all_done s = WriteAllCallBack None (length (hd (all_queue s))) s"

lemmas all_defs = all_queue_def all_writes_def all_inv_def

lemma all_call:
  assumes "all_inv s" and "raw_valid buf"
  shows "\<exists>s'. WriteAllToSocket buf s = Inr s' \<and> all_inv s' \<and> all_queue s' = all_queue s @ [buf]"
proof (cases "rs_send_queue s")
  case Nil
  then show ?thesis
    using assms by (simp add: WriteAllToSocket_def raw_send_node_ok Let_def push_back_def all_defs raw_write_def)
next
  case (Cons m q)
  then show ?thesis
    using assms by (simp add: WriteAllToSocket_def raw_send_node_ok Let_def push_back_def all_defs)
qed

lemma all_complete:
  assumes "all_inv s" and "all_queue s \<noteq> []"
  shows "\<exists>s'. WriteAllCallBack None k s = Inr s' \<and> all_inv s' \<and> all_queue s' = tl (all_queue s)"
proof -
  from assms(2) obtain m q where q: "rs_send_queue s = m # q" by (cases "rs_send_queue s") (simp_all add: all_queue_def)
  with assms(1) obtain h where "rs_writes s = [(unsent m, h)]" by (auto simp: all_defs map_eq_Cons_conv)
  with q assms(1) show ?thesis
    by (cases q) (simp_all add: WriteAllCallBack_def Let_def queue_defs all_defs raw_write_def)
qed

interpretation write_all: send_queue all_queue all_writes "\<lambda>buf. buf" raw_valid all_inv "\<lambda>_. True" WriteAllToSocket all_done
proof unfold_locales
  show "all_writes s = take 1 (all_queue s)" if "all_inv s" for s using that by (simp add: all_inv_def)
  show "\<exists>s'. WriteAllToSocket m s = Inr s' \<and> all_inv s' \<and> all_queue s' = (if True then all_queue s @ [m] else all_queue s)"
    if "all_inv s" "raw_valid m" for s m using all_call [OF that] by simp
  show "\<exists>s'. all_done s = Inr s' \<and> all_inv s' \<and> all_queue s' = tl (all_queue s)" if "all_inv s" "all_queue s \<noteq> []" for s
    unfolding all_done_def by (rule all_complete [OF that])
qed

section \<open>Properties\<close>

text \<open>
  C10. Writing with the queue survives short writes: for any sequence of strings written and any
  sequence of partial completions, no step faults, and what has gone out followed by what is still
  to go out is the concatenation of the strings in the order of the calls; when no write is in
  flight, everything has gone out.
\<close>

theorem queue_write_stream:
  assumes "list_all raw_valid (written_strings es)"
  shows "\<exists>s wire. queue_run es (raw_Session, []) = Inr (s, wire) \<and>
     wire @ to_send s = concat (written_strings es) \<and> (rs_writes s = [] \<longrightarrow> wire = concat (written_strings es))"
proof -
  have "queue_inv raw_Session" by (simp add: queue_inv_def raw_Session_def)
  from queue_run_stream [OF this assms, of "[]"] obtain s wire where
    r: "queue_run es (raw_Session, []) = Inr (s, wire)" "queue_inv s" "wire @ to_send s = concat (written_strings es)"
    by (auto simp: to_send_def raw_Session_def)
  moreover have "to_send s = []" if "rs_writes s = []"
    using r(2) that by (cases "rs_send_queue s") (simp_all add: queue_inv_def to_send_def)
  ultimately show ?thesis by auto
qed

theorem queue_write_stream_witness:
  "\<exists>s wire. queue_run [Queue_Write ''hello'', Sent_Bytes 2, Queue_Write ''x'', Sent_Bytes 9, Sent_Bytes 1] (raw_Session, []) =
     Inr (s, wire) \<and> wire @ to_send s = ''hellox''"
  using queue_write_stream [of "[Queue_Write ''hello'', Sent_Bytes 2, Queue_Write ''x'', Sent_Bytes 9, Sent_Bytes 1]"]
  by (auto simp: raw_valid_def)

text \<open>
  \<open>WriteAllToSocket\<close> sends in order and one at a time while every \<open>async_send\<close> takes all it is
  given: the strings accepted are the strings delivered followed by those waiting. A send that takes
  fewer bytes loses the rest of its string: the handler drops the node whatever was transferred.
\<close>

theorem write_all_in_order:
  assumes "calls_valid raw_valid es"
  shows "\<exists>r. run_sends all_queue all_writes (\<lambda>buf. buf) WriteAllToSocket all_done es (run_start raw_Session) = Inr r \<and>
     run_accepted r = run_delivered r @ all_queue (run_state r) \<and>
     all_writes (run_state r) = take 1 (all_queue (run_state r)) \<and>
     (\<forall>k. all_queue (run_state r) \<noteq> [] \<longrightarrow>
        (\<exists>s'. WriteAllCallBack None k (run_state r) = Inr s' \<and> all_queue s' = tl (all_queue (run_state r))))"
proof -
  have z: "all_inv raw_Session" "all_queue raw_Session = []" by (simp_all add: all_defs raw_Session_def)
  from write_all.run_sends_account [of "run_start raw_Session" es] z assms obtain r where
    r: "run_sends all_queue all_writes (\<lambda>buf. buf) WriteAllToSocket all_done es (run_start raw_Session) = Inr r"
      "all_inv (run_state r)" "run_accepted r = run_delivered r @ all_queue (run_state r)"
    by (auto simp: run_start_def)
  moreover have "all_writes (run_state r) = take 1 (all_queue (run_state r))" using r(2) by (simp add: all_inv_def)
  ultimately show ?thesis using all_complete [OF r(2)] by blast
qed

theorem write_all_in_order_witness:
  "\<exists>r. run_sends all_queue all_writes (\<lambda>buf. buf) WriteAllToSocket all_done [Send_Call ''ab'', Send_Call ''c'', Write_Done] (run_start raw_Session) = Inr r \<and>
     run_accepted r = run_delivered r @ all_queue (run_state r)"
  using write_all_in_order [of "[Send_Call ''ab'', Send_Call ''c'', Write_Done]"] by (auto simp: raw_valid_def)

text \<open>
  Writing without a queue mixes messages: when a second string is written before the first one's
  write completes, and that write was short, the handler goes on with the second node instead of
  the first. The rest of the first string is never sent and the second is sent twice.
\<close>

theorem write_without_queue_mixes:
  assumes "raw_valid a" and "raw_valid b" and "k < length a"
  shows "\<exists>s1 s2 s3. WriteToSocket a raw_Session = Inr s1 \<and> WriteToSocket b s1 = Inr s2 \<and>
     map fst (rs_writes s2) = [a, b] \<and> WriteCallBack None k 0 s2 = Inr s3 \<and> map fst (rs_writes s3) = [b, b]"
  using assms
  by (simp add: WriteToSocket_def raw_send_node_ok raw_Session_def raw_write_def WriteCallBack_def Let_def string_node_def unsent_def)

theorem write_without_queue_mixes_witness:
  "\<exists>s1 s2 s3. WriteToSocket ''hello'' raw_Session = Inr s1 \<and> WriteToSocket ''bye'' s1 = Inr s2 \<and>
     map fst (rs_writes s2) = [''hello'', ''bye''] \<and> WriteCallBack None 2 0 s2 = Inr s3 \<and> map fst (rs_writes s3) = [''bye'', ''bye'']"
  by (rule write_without_queue_mixes) (simp_all add: raw_valid_def)

end
