(* ===== verification/Tlv_Server.thy ===== *)
theory Tlv_Server
  imports Async_Server
begin

text \<open>
  The session and the server of \<open>3. AsyncServerIOservicepool\<close> (\<open>src/Session.cpp\<close>,
  \<open>src/Server.cpp\<close>): messages with an id and a length, one handler per completion, a logic queue
  the complete messages are posted to. The conventions are those of the echo server: a handler
  gets the error code, the number of bytes transferred and the bytes asio has read.
\<close>

section \<open>Sessions\<close>

record tlv_session =
  ts_uuid :: string
  ts_open :: bool
  ts_b_close :: bool
  ts_send_que :: "tlv_node list"
  ts_recv_msg :: "tlv_node option"
  ts_recv_head :: msg_node
  ts_writes :: "char list list"
  ts_read :: pending_read

definition tlv_bytes :: "tlv_node \<Rightarrow> char list" where
  "tlv_bytes m = take (nat (node_total_len m)) (node_data m)"

definition fill_tlv :: "char list \<Rightarrow> tlv_node \<Rightarrow> tlv_node" where
  "fill_tlv bs m = m\<lparr>node_data := bs @ drop (length bs) (node_data m)\<rparr>"

definition tlv_Session :: "string \<Rightarrow> tlv_session" where
  "tlv_Session uuid = \<lparr>ts_uuid = uuid, ts_open = True, ts_b_close = False, ts_send_que = [], ts_recv_msg = None,
     ts_recv_head = \<lparr>node_cur_len = 0, node_total_len = HEAD_TOTAL_LEN, node_data = replicate 5 NUL\<rparr>,
     ts_writes = [], ts_read = No_Read\<rparr>"

definition tlv_Start :: "tlv_session \<Rightarrow> tlv_session" where
  "tlv_Start s = s\<lparr>ts_recv_head := node_clear (ts_recv_head s), ts_read := Read_Head (nat HEAD_TOTAL_LEN)\<rparr>"

definition tlv_Close :: "tlv_session \<Rightarrow> tlv_session" where
  "tlv_Close s = s\<lparr>ts_open := False, ts_b_close := True\<rparr>"

definition tlv_async_write :: "tlv_node \<Rightarrow> tlv_session \<Rightarrow> tlv_session" where
  "tlv_async_write m s = s\<lparr>ts_writes := ts_writes s @ [tlv_bytes m]\<rparr>"

text \<open>
  The two overloads of \<open>Send\<close> differ in where the length comes from: \<open>max_length\<close> is a \<open>short\<close>
  already, and \<open>msg.length()\<close> is converted to one by the constructor of \<open>SendNode\<close>.
\<close>

definition tlv_Send :: "char list \<Rightarrow> int \<Rightarrow> int \<Rightarrow> tlv_session \<Rightarrow> tlv_session res" where
  "tlv_Send msg len msgid s =
     (let send_que_size = length (ts_send_que s) in
      if MAX_SENDQUE < int send_que_size then Inr s
      else
        bindr (SendNode msg len msgid) (\<lambda>m.
        let s = s\<lparr>ts_send_que := push_back m (ts_send_que s)\<rparr> in
        if 0 < send_que_size then Inr s
        else bindr (front (ts_send_que s)) (\<lambda>m. Inr (tlv_async_write m s))))"

definition tlv_Send_string :: "string \<Rightarrow> int \<Rightarrow> tlv_session \<Rightarrow> tlv_session res" where
  "tlv_Send_string msg msgid s = tlv_Send (msg @ [NUL]) (to_short (int (length msg))) (to_short msgid) s"

definition tlv_fail :: "tlv_session \<Rightarrow> sessions \<Rightarrow> tlv_session \<times> sessions" where
  "tlv_fail s ss = (tlv_Close s, map_erase (ts_uuid s) ss)"

definition tlv_HandleWrite :: "asio_error option \<Rightarrow> tlv_session \<Rightarrow> sessions \<Rightarrow> (tlv_session \<times> sessions) res" where
  "tlv_HandleWrite err s ss =
     (let s = s\<lparr>ts_writes := tl (ts_writes s)\<rparr> in
      if err = None then
        bindr (pop_front (ts_send_que s)) (\<lambda>q.
        let s = s\<lparr>ts_send_que := q\<rparr> in
        if q \<noteq> [] then bindr (front q) (\<lambda>m. Inr (tlv_async_write m s, ss))
        else Inr (s, ss))
      else Inr (tlv_fail s ss))"

definition tlv_HandleReadHead ::
  "asio_error option \<Rightarrow> nat \<Rightarrow> char list \<Rightarrow> tlv_session \<Rightarrow> sessions \<Rightarrow> (tlv_session \<times> sessions) res" where
  "tlv_HandleReadHead err bytes_transferred bs s ss =
     (let s = s\<lparr>ts_read := No_Read, ts_recv_head := fill_node bs (ts_recv_head s)\<rparr> in
      if err \<noteq> None then Inr (tlv_fail s ss)
      else if int bytes_transferred \<noteq> HEAD_TOTAL_LEN then Inr (tlv_fail s ss)
      else
        (let d = node_data (ts_recv_head s);
             msg_id = short_of (word16 d) in
         if msg_id \<le> 0 \<or> MAX_LENGTH < msg_id then Inr (tlv_fail s ss)
         else
           (let msg_len = short_of (word16 (drop (nat HEAD_ID_LEN) d)) in
            if msg_len \<le> 0 \<or> MAX_LENGTH < msg_len then Inr (tlv_fail s ss)
            else
              bindr (RecvNode msg_len msg_id) (\<lambda>m.
              Inr (s\<lparr>ts_recv_msg := Some m, ts_read := Read_Body (nat (node_total_len m))\<rparr>, ss)))))"

text \<open>The third result: what is posted to the logic queue.\<close>

definition tlv_HandleReadBody ::
  "asio_error option \<Rightarrow> nat \<Rightarrow> char list \<Rightarrow> tlv_session \<Rightarrow> sessions \<Rightarrow> (tlv_session \<times> sessions \<times> tlv_node list) res" where
  "tlv_HandleReadBody err bytes_transferred bs s ss =
     (case ts_recv_msg s of
        None \<Rightarrow> Inl Null_Deref
      | Some m \<Rightarrow>
          (let m = fill_tlv bs m;
               s = s\<lparr>ts_read := No_Read, ts_recv_msg := Some m\<rparr> in
           if err \<noteq> None then (let (s, ss) = tlv_fail s ss in Inr (s, ss, []))
           else if int bytes_transferred \<noteq> node_total_len m then (let (s, ss) = tlv_fail s ss in Inr (s, ss, []))
           else
             bindr (store (node_data m) (node_total_len m) NUL) (\<lambda>d.
             let m = m\<lparr>node_cur_len := node_total_len m, node_data := d\<rparr> in
             Inr (s\<lparr>ts_recv_msg := Some m, ts_recv_head := node_clear (ts_recv_head s),
                    ts_read := Read_Head (nat HEAD_TOTAL_LEN)\<rparr>, ss, [m]))))"

text \<open>The text \<open>std::string(_data, _cur_len)\<close> the logic layer takes from a node.\<close>

definition node_text :: "tlv_node \<Rightarrow> string" where
  "node_text m = take (nat (node_cur_len m)) (node_data m)"

section \<open>The send queue\<close>

lemma SendNode_take: "k \<le> length msg \<Longrightarrow> SendNode msg (int k) msgid = SendNode (take k msg) (int k) msgid"
  by (simp add: SendNode_def memcpy_take)

lemma word_of_to_short: "(word_of_int (to_short i) :: 16 word) = word_of_int i"
proof (rule bit_word_eqI)
  fix n assume "n < LENGTH(16)"
  then have "n < 15 \<or> n = 15" by auto
  then show "bit (word_of_int (to_short i) :: 16 word) n = bit (word_of_int i :: 16 word) n"
    by (auto simp: to_short_def bit_simps min_def)
qed

definition tlv_queue :: "tlv_session \<Rightarrow> char list list" where
  "tlv_queue s = map tlv_bytes (ts_send_que s)"

definition tlv_inv :: "tlv_session \<Rightarrow> bool" where
  "tlv_inv s \<longleftrightarrow> ts_writes s = take 1 (tlv_queue s)"

definition tlv_admits :: "tlv_session \<Rightarrow> bool" where
  "tlv_admits s \<longleftrightarrow> int (length (ts_send_que s)) \<le> MAX_SENDQUE"

definition tlv_valid :: "string \<times> int \<Rightarrow> bool" where
  "tlv_valid = (\<lambda>(msg, msgid). length msg \<le> 32763)"

definition tlv_frame_of :: "string \<times> int \<Rightarrow> char list" where
  "tlv_frame_of = (\<lambda>(msg, msgid). tlv_frame msgid msg)"

definition tlv_send_pair :: "string \<times> int \<Rightarrow> tlv_session \<Rightarrow> tlv_session res" where
  "tlv_send_pair = (\<lambda>(msg, msgid). tlv_Send_string msg msgid)"

definition tlv_write_done :: "tlv_session \<Rightarrow> tlv_session res" where
  "tlv_write_done s = bindr (tlv_HandleWrite None s Map.empty) (\<lambda>(s, _). Inr s)"

text \<open>Sending a node that could be built.\<close>

lemma tlv_Send_node:
  assumes inv: "tlv_inv s" and m: "SendNode msg len msgid = Inr m"
  obtains s' where "tlv_Send msg len msgid s = Inr s'" and "tlv_inv s'"
    and "tlv_queue s' = (if tlv_admits s then tlv_queue s @ [tlv_bytes m] else tlv_queue s)"
    and "ts_uuid s' = ts_uuid s" and "ts_open s' = ts_open s"
proof (cases "tlv_admits s")
  case False
  with inv show thesis by (intro that [of s]) (simp_all add: tlv_Send_def tlv_admits_def Let_def)
next
  case True
  let ?s = "s\<lparr>ts_send_que := ts_send_que s @ [m]\<rparr>"
  show thesis
  proof (cases "ts_send_que s")
    case Nil
    with True m inv show thesis
      by (intro that [of "tlv_async_write m ?s"])
        (simp_all add: tlv_Send_def tlv_admits_def Let_def queue_defs tlv_async_write_def tlv_inv_def tlv_queue_def)
  next
    case (Cons n q)
    with True m inv show thesis
      by (intro that [of ?s])
        (simp_all add: tlv_Send_def tlv_admits_def Let_def queue_defs tlv_inv_def tlv_queue_def)
  qed
qed

lemma SendNode_string:
  assumes "length msg \<le> 32763"
  obtains m where "SendNode (msg @ [NUL]) (to_short (int (length msg))) (to_short msgid) = Inr m"
    and "tlv_bytes m = tlv_frame msgid msg"
proof -
  have l: "to_short (int (length msg)) = int (length msg)" using assms by (simp add: to_short_id)
  obtain m where m: "SendNode msg (int (length msg)) (to_short msgid) = Inr m"
    "take (nat (node_total_len m)) (node_data m) = tlv_frame (to_short msgid) msg"
    using SendNode_frame [OF assms, of "to_short msgid"] by metis
  have "tlv_frame (to_short msgid) msg = tlv_frame msgid msg" by (simp add: tlv_frame_def word_of_to_short)
  with m SendNode_take [of "length msg" "msg @ [NUL]"] show thesis
    by (intro that [of m]) (simp_all add: tlv_bytes_def l)
qed

lemma tlv_write_done_ok:
  assumes "tlv_inv s" and "tlv_queue s \<noteq> []"
  shows "\<exists>s'. tlv_write_done s = Inr s' \<and> tlv_inv s' \<and> tlv_queue s' = tl (tlv_queue s)"
proof -
  from assms obtain m q where "ts_send_que s = m # q" "ts_writes s = [tlv_bytes m]"
    by (cases "ts_send_que s") (auto simp: tlv_inv_def tlv_queue_def)
  then show ?thesis
    by (cases q) (simp_all add: tlv_write_done_def tlv_HandleWrite_def Let_def queue_defs tlv_async_write_def
        tlv_inv_def tlv_queue_def)
qed

interpretation tlv_sender: bounded_send_queue tlv_queue ts_writes tlv_frame_of tlv_valid tlv_inv tlv_admits
  tlv_send_pair tlv_write_done 1000
proof unfold_locales
  fix s :: tlv_session and m
  show "ts_writes s = take 1 (tlv_queue s)" if "tlv_inv s" using that by (simp add: tlv_inv_def)
  show "\<exists>s'. tlv_send_pair m s = Inr s' \<and> tlv_inv s' \<and>
      tlv_queue s' = (if tlv_admits s then tlv_queue s @ [tlv_frame_of m] else tlv_queue s)"
    if "tlv_inv s" "tlv_valid m"
  proof -
    obtain msg msgid where m: "m = (msg, msgid)" by (cases m)
    with that(2) have "length msg \<le> 32763" by (simp add: tlv_valid_def)
    from SendNode_string [OF this, of msgid] obtain n where
      n: "SendNode (msg @ [NUL]) (to_short (int (length msg))) (to_short msgid) = Inr n" "tlv_bytes n = tlv_frame msgid msg" .
    from tlv_Send_node [OF that(1) n(1)] n(2) show ?thesis
      unfolding m tlv_send_pair_def tlv_frame_of_def tlv_Send_string_def prod.case by metis
  qed
  show "\<exists>s'. tlv_write_done s = Inr s' \<and> tlv_inv s' \<and> tlv_queue s' = tl (tlv_queue s)"
    if "tlv_inv s" "tlv_queue s \<noteq> []" using tlv_write_done_ok [OF that] .
  show "length (tlv_queue s) \<le> 1000" if "tlv_inv s" "tlv_admits s"
    using that by (simp add: tlv_queue_def tlv_admits_def MAX_SENDQUE_def)
qed

section \<open>Reading a frame\<close>

lemma RecvNode_ok:
  assumes "0 \<le> n"
  shows "RecvNode n msgid = Inr \<lparr>node_cur_len = 0, node_total_len = n, node_data = replicate (nat n + 1) NUL, node_msg_id = msgid\<rparr>"
proof -
  have "new_chars (n + 1) = Inr (replicate (nat n + 1) NUL)" using assms by (simp add: new_chars_def nat_add_distrib)
  moreover have "store (replicate (nat n + 1) NUL) n NUL = Inr (replicate (nat n + 1) NUL)"
    using assms by (simp add: store_def list_update_same_conv del: replicate_Suc)
  ultimately show ?thesis
    unfolding RecvNode_def tlv_msg_node_def by (simp add: msg_node.defs tlv_node.defs del: replicate_Suc)
qed

lemma short_of_bytes:
  assumes "0 \<le> i" and "i \<le> 32767"
  shows "short_of (word16 (bytes16 (word_of_int i) @ r)) = i"
  using assms by (simp add: word16_bytes16 short_of_word)

text \<open>A complete message, as it is posted to the logic queue.\<close>

definition tlv_message :: "int \<Rightarrow> string \<Rightarrow> tlv_node" where
  "tlv_message msgid msg = \<lparr>node_cur_len = int (length msg), node_total_len = int (length msg),
     node_data = msg @ [NUL], node_msg_id = msgid\<rparr>"

lemma node_text_message [simp]: "node_text (tlv_message msgid msg) = msg" "node_msg_id (tlv_message msgid msg) = msgid"
  by (simp_all add: node_text_def tlv_message_def)

lemma tlv_read_head:
  assumes "0 < i" and "i \<le> 2048" and "0 < n" and "n \<le> 2048"
  shows "tlv_HandleReadHead None 4 (bytes16 (word_of_int i) @ bytes16 (word_of_int n)) s ss =
     Inr (s\<lparr>ts_recv_head := fill_node (bytes16 (word_of_int i) @ bytes16 (word_of_int n)) (ts_recv_head s),
            ts_recv_msg := Some \<lparr>node_cur_len = 0, node_total_len = n, node_data = replicate (nat n + 1) NUL, node_msg_id = i\<rparr>,
            ts_read := Read_Body (nat n)\<rparr>, ss)"
proof -
  let ?h = "bytes16 (word_of_int i) @ bytes16 (word_of_int n)"
  let ?d = "node_data (fill_node ?h (ts_recv_head s))"
  have "short_of (word16 ?d) = i" using short_of_bytes [of i] assms(1,2) by (simp add: fill_node_def)
  moreover have "short_of (word16 (drop 2 ?d)) = n" using short_of_bytes [of n] assms(3,4) by (simp add: fill_node_def)
  moreover have "RecvNode n i = Inr \<lparr>node_cur_len = 0, node_total_len = n, node_data = replicate (nat n + 1) NUL, node_msg_id = i\<rparr>"
    using assms(3) by (intro RecvNode_ok) simp
  ultimately show ?thesis
    using assms by (simp add: tlv_HandleReadHead_def Let_def const_defs del: replicate_Suc)
qed

lemma tlv_read_body:
  assumes "ts_recv_msg s = Some \<lparr>node_cur_len = 0, node_total_len = int (length msg), node_data = replicate (length msg + 1) NUL, node_msg_id = i\<rparr>"
  shows "tlv_HandleReadBody None (length msg) msg s ss =
     Inr (s\<lparr>ts_recv_msg := Some (tlv_message i msg), ts_recv_head := node_clear (ts_recv_head s), ts_read := Read_Head 4\<rparr>,
       ss, [tlv_message i msg])"
proof -
  have "drop (length msg) (replicate (length msg + 1) NUL) = [NUL]"
    by (simp only: drop_replicate add_diff_cancel_left') simp
  moreover have "store (msg @ [NUL]) (int (length msg)) NUL = Inr (msg @ [NUL])" by (simp add: store_def)
  ultimately show ?thesis
    using assms by (simp add: tlv_HandleReadBody_def Let_def fill_tlv_def tlv_message_def const_defs del: replicate_Suc drop_replicate)
qed

section \<open>Properties\<close>

text \<open>
  The sessions of the pooled server send in order: whatever the sequence of sends of strings
  up to 32763 bytes and completed writes, the frames accepted are the frames delivered followed by
  those waiting, one write is in flight at a time, and no more than 1001 frames wait.
\<close>

theorem tlv_sends_in_order:
  assumes "tlv_inv s" and "ts_send_que s = []" and "calls_valid tlv_valid es"
  shows "\<exists>r. run_sends tlv_queue ts_writes tlv_frame_of tlv_send_pair tlv_write_done es (run_start s) = Inr r \<and>
     run_accepted r = run_delivered r @ tlv_queue (run_state r) \<and>
     ts_writes (run_state r) = take 1 (tlv_queue (run_state r)) \<and>
     length (ts_send_que (run_state r)) \<le> 1001"
  using tlv_sender.sends_bounded [OF assms(1) _ assms(3)] assms(2) by (auto simp: tlv_queue_def)

theorem tlv_sends_in_order_witness:
  "\<exists>r. run_sends tlv_queue ts_writes tlv_frame_of tlv_send_pair tlv_write_done
        [Send_Call (''ab'', 1001), Write_Done, Send_Call (''c'', 1001)] (run_start (tlv_Session ''u'')) = Inr r \<and>
     run_accepted r = run_delivered r @ tlv_queue (run_state r) \<and>
     ts_writes (run_state r) = take 1 (tlv_queue (run_state r)) \<and> length (ts_send_que (run_state r)) \<le> 1001"
  by (rule tlv_sends_in_order) (simp_all add: tlv_inv_def tlv_queue_def tlv_Session_def tlv_valid_def)

text \<open>
  C6. Encoding and decoding agree: the frame a \<open>SendNode\<close> puts on the wire, read by the handlers
  of the other side as header and body, is posted as a message with the same id and the same
  bytes, and the reader waits for the next header.
\<close>

theorem tlv_frame_roundtrip:
  assumes "0 < msgid" and "msgid \<le> 2048" and "0 < length msg" and "length msg \<le> 2048"
  shows "\<exists>m s1 s2 p. SendNode msg (int (length msg)) msgid = Inr m \<and>
     tlv_HandleReadHead None 4 (take 4 (tlv_bytes m)) s ss = Inr (s1, ss) \<and> ts_read s1 = Read_Body (length msg) \<and>
     tlv_HandleReadBody None (length msg) (drop 4 (tlv_bytes m)) s1 ss = Inr (s2, ss, [p]) \<and>
     node_msg_id p = msgid \<and> node_text p = msg \<and> ts_read s2 = Read_Head 4"
proof -
  obtain m where m: "SendNode msg (int (length msg)) msgid = Inr m" "tlv_bytes m = tlv_frame msgid msg"
  proof -
    have "length msg \<le> 32763" using assms(4) by simp
    then show thesis by (rule SendNode_frame [of msg msgid]) (use that in \<open>simp add: tlv_bytes_def\<close>)
  qed
  have sp: "take 4 (tlv_bytes m) = bytes16 (word_of_int msgid) @ bytes16 (word_of_int (int (length msg)))"
    "drop 4 (tlv_bytes m) = msg" unfolding m(2) tlv_frame_def by simp_all
  note h = tlv_read_head [of msgid "int (length msg)" s ss, OF assms(1,2)]
  let ?s1 = "s\<lparr>ts_recv_head := fill_node (bytes16 (word_of_int msgid) @ bytes16 (word_of_int (int (length msg)))) (ts_recv_head s),
      ts_recv_msg := Some \<lparr>node_cur_len = 0, node_total_len = int (length msg), node_data = replicate (length msg + 1) NUL, node_msg_id = msgid\<rparr>,
      ts_read := Read_Body (length msg)\<rparr>"
  define s1 where "s1 = ?s1"
  have s1: "ts_recv_msg s1 = Some \<lparr>node_cur_len = 0, node_total_len = int (length msg), node_data = replicate (length msg + 1) NUL, node_msg_id = msgid\<rparr>"
    "ts_read s1 = Read_Body (length msg)" by (simp_all add: s1_def)
  have rh: "tlv_HandleReadHead None 4 (take 4 (tlv_bytes m)) s ss = Inr (s1, ss)"
    using h assms(3,4) unfolding sp s1_def by simp
  show ?thesis
    by (rule exI [of _ m], rule exI [of _ s1],
        rule exI [of _ "s1\<lparr>ts_recv_msg := Some (tlv_message msgid msg), ts_recv_head := node_clear (ts_recv_head s1), ts_read := Read_Head 4\<rparr>"],
        rule exI [of _ "tlv_message msgid msg"])
      (use m(1) rh s1(2) tlv_read_body [OF s1(1), of ss] sp(2) in simp)
qed

theorem tlv_frame_roundtrip_witness:
  "\<exists>m s1 s2 p. SendNode ''{}'' 2 1001 = Inr m \<and>
     tlv_HandleReadHead None 4 (take 4 (tlv_bytes m)) (tlv_Session ''u'') Map.empty = Inr (s1, Map.empty) \<and>
     tlv_HandleReadBody None 2 (drop 4 (tlv_bytes m)) s1 Map.empty = Inr (s2, Map.empty, [p]) \<and>
     node_msg_id p = 1001 \<and> node_text p = ''{}''"
  using tlv_frame_roundtrip [of 1001 "''{}''" "tlv_Session ''u''" Map.empty] by (fastforce simp: numeral_2_eq_2)

text \<open>
  What the protocol does not allow ends a session: an error, a short read, an id or a length
  outside of 1 to 2048 close the socket, mark the session closed and take it out of the server's
  map; the send queue is left alone.
\<close>

theorem tlv_bad_header_closes:
  assumes "err \<noteq> None \<or> n \<noteq> 4 \<or>
     short_of (word16 (bs @ drop (length bs) (node_data (ts_recv_head s)))) \<notin> {1..2048} \<or>
     short_of (word16 (drop 2 (bs @ drop (length bs) (node_data (ts_recv_head s))))) \<notin> {1..2048}"
  shows "\<exists>s'. tlv_HandleReadHead err n bs s ss = Inr (s', ss(ts_uuid s := None)) \<and>
     \<not> ts_open s' \<and> ts_b_close s' \<and> ts_read s' = No_Read \<and> ts_send_que s' = ts_send_que s"
proof -
  define i where "i = short_of (word16 (node_data (fill_node bs (ts_recv_head s))))"
  define l where "l = short_of (word16 (drop 2 (node_data (fill_node bs (ts_recv_head s)))))"
  have eq: "i = short_of (word16 (bs @ drop (length bs) (node_data (ts_recv_head s))))"
    "l = short_of (word16 (drop 2 (bs @ drop (length bs) (node_data (ts_recv_head s)))))"
    by (simp_all add: i_def l_def fill_node_def)
  from assms have "err \<noteq> None \<or> n \<noteq> 4 \<or> i \<notin> {1..2048} \<or> l \<notin> {1..2048}" unfolding eq .
  then have "err \<noteq> None \<or> n \<noteq> 4 \<or> i \<le> 0 \<or> 2048 < i \<or> l \<le> 0 \<or> 2048 < l" by (auto simp: not_le)
  then have "tlv_HandleReadHead err n bs s ss =
      Inr (tlv_fail (s\<lparr>ts_read := No_Read, ts_recv_head := fill_node bs (ts_recv_head s)\<rparr>) ss)"
    by (auto simp: tlv_HandleReadHead_def Let_def const_defs simp flip: i_def l_def)
  then show ?thesis by (simp add: tlv_fail_def tlv_Close_def map_erase_def)
qed

theorem tlv_bad_header_closes_witness:
  "\<exists>s'. tlv_HandleReadHead None 4 [CHR 0x03, CHR 0xE9, CHR 0xFF, CHR 0xFF] (tlv_Session ''u'') [''u'' \<mapsto> 7] =
       Inr (s', [''u'' \<mapsto> 7](''u'' := None)) \<and> \<not> ts_open s' \<and> ts_read s' = No_Read"
proof -
  have "short_of (word16 [CHR 0xFF, CHR 0xFF, CHR 0x00]) = - 1" by (simp add: short_of_def word16_def)
  then show ?thesis
    using tlv_bad_header_closes [of None 4 "[CHR 0x03, CHR 0xE9, CHR 0xFF, CHR 0xFF]" "tlv_Session ''u''" "[''u'' \<mapsto> 7]"]
    by (auto simp: tlv_Session_def)
qed

lemma to_short_wrap: "32768 \<le> i \<Longrightarrow> i < 98304 \<Longrightarrow> to_short i = i - 65536"
proof -
  assume "32768 \<le> i" and "i < 98304"
  then have "(i - 32768) mod 65536 = i - 32768" by simp
  moreover have "(i + 32768) mod 65536 = (i - 32768) mod 65536"
    using mod_add_self2 [of "i - 32768" 65536] by (simp add: add.commute)
  ultimately show ?thesis by (simp add: to_short_def signed_take_bit_eq_take_bit_shift take_bit_eq_mod)
qed

lemma tlv_Send_long:
  assumes "tlv_admits s" and "32764 \<le> length msg" and "length msg \<le> 65530"
  shows "tlv_Send_string msg msgid s = Inl Bad_Alloc"
proof -
  let ?n = "int (length msg)"
  have "to_short (to_short ?n + HEAD_TOTAL_LEN) + 1 < 0"
  proof (cases "length msg \<le> 32767")
    case True
    then have "to_short ?n = ?n" by (simp add: to_short_id)
    then have "to_short ?n + 4 = ?n + 4" by simp
    moreover have "to_short (?n + 4) = ?n + 4 - 65536" using True assms(2) by (intro to_short_wrap) simp_all
    ultimately show ?thesis using True by (simp add: HEAD_TOTAL_LEN_def)
  next
    case False
    then have "to_short ?n = ?n - 65536" using assms(3) by (intro to_short_wrap) simp_all
    moreover have "to_short (?n - 65536 + 4) = ?n - 65536 + 4"
      using False assms(3) by (intro to_short_id) simp_all
    ultimately show ?thesis using assms(3) by (simp add: HEAD_TOTAL_LEN_def)
  qed
  then have "SendNode (msg @ [NUL]) (to_short ?n) (to_short msgid) = Inl Bad_Alloc"
    by (simp add: SendNode_def tlv_msg_node_def new_chars_def)
  with assms(1) show ?thesis
    by (simp add: tlv_Send_string_def tlv_Send_def Let_def tlv_admits_def)
qed

text \<open>
  A reply of more than 32763 bytes cannot be sent: its length does not fit the \<open>short\<close>s of
  \<open>SendNode\<close>, and the allocation of a negative number of bytes throws.
\<close>

theorem tlv_long_reply_fails:
  assumes "tlv_admits s" and "32764 \<le> length msg" and "length msg \<le> 65530"
  shows "tlv_Send_string msg msgid s = Inl Bad_Alloc"
  using assms by (rule tlv_Send_long)

theorem tlv_long_reply_fails_witness:
  "tlv_Send_string (replicate 40000 (CHR ''x'')) 1001 (tlv_Session ''u'') = Inl Bad_Alloc"
  by (rule tlv_long_reply_fails) (simp_all add: tlv_admits_def tlv_Session_def MAX_SENDQUE_def)

end
