(* ===== verification/Logic_System.thy ===== *)
theory Logic_System
  imports Tlv_Server "HOL-Library.AList"
begin

text \<open>
  The logic layer of the servers \<open>3. AsyncServerIOservicepool\<close> and \<open>4. CoroutineAsyncServer\<close>
  (\<open>logicsystem.h\<close> and \<open>logicsystem.cpp\<close>, the same code in both): sessions post complete messages
  to one queue, and one thread takes them out and runs the callback registered for their id. The
  queue is protected by a mutex, the thread sleeps on a condition variable, and the destructor
  sets a flag and joins the thread.

  The threads are modelled by their positions in the code, one step per atomic action, so that
  every interleaving is a sequence of steps. The JSON library is an argument.
\<close>

section \<open>The callback\<close>

text \<open>
  What the callback uses of the JSON library: \<open>Reader::parse\<close> (\<open>None\<close>: it returns false), the
  constructors of values, the subscript \<open>root[k]\<close>, which gives the member and creates a null member
  where there is none, the assignment \<open>root[k] = v\<close>, the conversions and \<open>toStyledString\<close>. The
  subscript of a value that is not an object and a conversion that is not possible throw: \<open>None\<close>.
\<close>

record 'j json_lib =
  json_parse :: "string \<Rightarrow> 'j option"
  json_null :: 'j
  json_int :: "int \<Rightarrow> 'j"
  json_string :: "string \<Rightarrow> 'j"
  json_at :: "string \<Rightarrow> 'j \<Rightarrow> ('j \<times> 'j) option"
  json_set :: "string \<Rightarrow> 'j \<Rightarrow> 'j \<Rightarrow> 'j option"
  json_asInt :: "'j \<Rightarrow> int option"
  json_asString :: "'j \<Rightarrow> string option"
  json_styled :: "'j \<Rightarrow> string"

definition throws :: "'a option \<Rightarrow> 'a res" where
  "throws r = (case r of None \<Rightarrow> Inl Logic_Error | Some x \<Rightarrow> Inr x)"

lemma throws_simps [simp]: "throws None = Inl Logic_Error" "throws (Some x) = Inr x"
  by (simp_all add: throws_def)

definition HelloWordCallBack :: "'j json_lib \<Rightarrow> int \<Rightarrow> string \<Rightarrow> tlv_session \<Rightarrow> tlv_session res" where
  "HelloWordCallBack js msg_id msg_data session =
     (case json_parse js msg_data of
        None \<Rightarrow>
          bindr (throws (json_set js ''id'' (json_int js msg_id) (json_null js))) (\<lambda>err_root.
          bindr (throws (json_set js ''data'' (json_string js ''invalid json payload'') err_root)) (\<lambda>err_root.
          tlv_Send_string (json_styled js err_root) msg_id session))
      | Some root \<Rightarrow>
          bindr (throws (json_at js ''id'' root)) (\<lambda>(root, v).
          bindr (throws (json_asInt js v)) (\<lambda>_.
          bindr (throws (json_at js ''data'' root)) (\<lambda>(root, v).
          bindr (throws (json_asString js v)) (\<lambda>_.
          bindr (throws (json_at js ''data'' root)) (\<lambda>(root, v).
          bindr (throws (json_asString js v)) (\<lambda>d.
          bindr (throws (json_set js ''data'' (json_string js (''server has received msg, msg data is '' @ d)) root)) (\<lambda>root.
          let return_str = json_styled js root in
          bindr (throws (json_at js ''id'' root)) (\<lambda>(root, v).
          bindr (throws (json_asInt js v)) (\<lambda>i.
          tlv_Send_string return_str i session))))))))))"

type_synonym callbacks = "int \<rightharpoonup> (int \<Rightarrow> string \<Rightarrow> tlv_session \<Rightarrow> tlv_session res)"

definition RegisterCallBacks :: "'j json_lib \<Rightarrow> callbacks \<Rightarrow> callbacks" where
  "RegisterCallBacks js cbs = map_assign MSG_HELLO_WORLD (HelloWordCallBack js) cbs"

text \<open>
  A node of the queue names its session; the sessions are kept alive by the nodes' pointers and
  found by their uuid.
\<close>

record LogicNode =
  ln_session :: string
  ln_recvnode :: tlv_node

definition is_exception :: "fault \<Rightarrow> bool" where
  "is_exception e \<longleftrightarrow> e = Bad_Alloc \<or> e = Logic_Error"

text \<open>The body of both loops of \<open>DealMsg\<close>: look up the callback, run it, catch its exceptions.\<close>

definition run_callback :: "callbacks \<Rightarrow> LogicNode \<Rightarrow> (string \<Rightarrow> tlv_session) \<Rightarrow> (string \<Rightarrow> tlv_session) res" where
  "run_callback cbs n ss =
     (let m = ln_recvnode n in
      case map_find (node_msg_id m) cbs of
        None \<Rightarrow> Inr ss
      | Some f \<Rightarrow>
          (case f (node_msg_id m) (node_text m) (ss (ln_session n)) of
             Inr s' \<Rightarrow> Inr (ss(ln_session n := s'))
           | Inl e \<Rightarrow> if is_exception e then Inr ss else Inl e))"

section \<open>The threads\<close>

text \<open>
  Positions in \<open>DealMsg\<close>: before the lock, at the test of the inner \<open>while\<close>, about to call \<open>wait\<close>,
  in \<open>wait\<close>, woken but without the lock, at the test of \<open>_b_stop\<close>, before \<open>front\<close> and \<open>pop\<close>, in the
  callback; the same for the loop that empties the queue after the stop; returned.
\<close>

datatype deal_pc = Deal_Lock | Deal_Test | Deal_Sleep | Deal_Wait | Deal_Woken | Deal_Stop | Deal_Pop
  | Deal_Call LogicNode | Drain_Test | Drain_Call LogicNode | Drain_Lock | Deal_End

text \<open>Positions in \<open>PostMsgToQue\<close> and in the destructor.\<close>

datatype post_pc = Post_Idle | Post_Lock LogicNode | Post_Push LogicNode | Post_Notify | Post_Unlock

datatype dtor_pc = Dtor_Idle | Dtor_Notify | Dtor_Join | Dtor_Done

datatype thread = Worker | Poster nat

record LogicSystem =
  ls_msg_que :: "LogicNode list"
  ls_mutex :: "thread option"
  ls_b_stop :: bool
  ls_fun_callbacks :: callbacks

text \<open>
  A run: the object, the sessions, the positions of all threads, and what has been posted, taken
  from the queue and dealt with so far.
\<close>

record logic_run =
  lr_sys :: LogicSystem
  lr_sessions :: "string \<Rightarrow> tlv_session"
  lr_worker :: deal_pc
  lr_posters :: "post_pc list"
  lr_dtor :: dtor_pc
  lr_posted :: "LogicNode list"
  lr_taken :: "LogicNode list"
  lr_dealt :: "LogicNode list"

definition LogicSystem_ctor :: "'j json_lib \<Rightarrow> LogicSystem" where
  "LogicSystem_ctor js = \<lparr>ls_msg_que = [], ls_mutex = None, ls_b_stop = False,
     ls_fun_callbacks = RegisterCallBacks js Map.empty\<rparr>"

definition logic_start :: "'j json_lib \<Rightarrow> nat \<Rightarrow> (string \<Rightarrow> tlv_session) \<Rightarrow> logic_run" where
  "logic_start js n ss = \<lparr>lr_sys = LogicSystem_ctor js, lr_sessions = ss, lr_worker = Deal_Lock,
     lr_posters = replicate n Post_Idle, lr_dtor = Dtor_Idle, lr_posted = [], lr_taken = [], lr_dealt = []\<rparr>"

text \<open>\<open>notify_one\<close> wakes the worker if it is waiting and is forgotten otherwise.\<close>

definition notify_one :: "logic_run \<Rightarrow> logic_run" where
  "notify_one s = (if lr_worker s = Deal_Wait then s\<lparr>lr_worker := Deal_Woken\<rparr> else s)"

definition set_mutex :: "thread option \<Rightarrow> logic_run \<Rightarrow> logic_run" where
  "set_mutex t s = s\<lparr>lr_sys := (lr_sys s)\<lparr>ls_mutex := t\<rparr>\<rparr>"

definition set_que :: "LogicNode list \<Rightarrow> logic_run \<Rightarrow> logic_run" where
  "set_que q s = s\<lparr>lr_sys := (lr_sys s)\<lparr>ls_msg_que := q\<rparr>\<rparr>"

definition goto_post :: "nat \<Rightarrow> post_pc \<Rightarrow> logic_run \<Rightarrow> logic_run" where
  "goto_post i l s = s\<lparr>lr_posters := (lr_posters s)[i := l]\<rparr>"

text \<open>\<open>front\<close>, \<open>pop\<close> and \<open>unlock\<close>.\<close>

definition take_node :: "(LogicNode \<Rightarrow> deal_pc) \<Rightarrow> logic_run \<Rightarrow> logic_run res" where
  "take_node l s =
     bindr (front (ls_msg_que (lr_sys s))) (\<lambda>n.
     bindr (pop_front (ls_msg_que (lr_sys s))) (\<lambda>q.
     Inr (set_mutex None (set_que q (s\<lparr>lr_worker := l n, lr_taken := lr_taken s @ [n]\<rparr>)))))"

definition deal_node :: "LogicNode \<Rightarrow> deal_pc \<Rightarrow> logic_run \<Rightarrow> logic_run res" where
  "deal_node n l s =
     bindr (run_callback (ls_fun_callbacks (lr_sys s)) n (lr_sessions s)) (\<lambda>ss.
     Inr (s\<lparr>lr_sessions := ss, lr_worker := l, lr_dealt := lr_dealt s @ [n]\<rparr>))"

text \<open>One step of \<open>DealMsg\<close>; \<open>None\<close> is a thread that cannot move.\<close>

definition deal_lock :: "deal_pc \<Rightarrow> logic_run \<Rightarrow> logic_run res option" where
  "deal_lock l s = (if ls_mutex (lr_sys s) = None then Some (Inr (set_mutex (Some Worker) (s\<lparr>lr_worker := l\<rparr>))) else None)"

definition deal_step :: "logic_run \<Rightarrow> logic_run res option" where
  "deal_step s =
     (case lr_worker s of
        Deal_Lock \<Rightarrow> deal_lock Deal_Test s
      | Deal_Test \<Rightarrow>
          Some (Inr (s\<lparr>lr_worker := if ls_msg_que (lr_sys s) = [] \<and> \<not> ls_b_stop (lr_sys s) then Deal_Sleep else Deal_Stop\<rparr>))
      | Deal_Sleep \<Rightarrow> Some (Inr (set_mutex None (s\<lparr>lr_worker := Deal_Wait\<rparr>)))
      | Deal_Wait \<Rightarrow> None
      | Deal_Woken \<Rightarrow> deal_lock Deal_Test s
      | Deal_Stop \<Rightarrow> Some (Inr (s\<lparr>lr_worker := if ls_b_stop (lr_sys s) then Drain_Test else Deal_Pop\<rparr>))
      | Deal_Pop \<Rightarrow> Some (take_node Deal_Call s)
      | Deal_Call n \<Rightarrow> Some (deal_node n Deal_Lock s)
      | Drain_Test \<Rightarrow>
          if ls_msg_que (lr_sys s) \<noteq> [] then Some (take_node Drain_Call s)
          else Some (Inr (set_mutex None (s\<lparr>lr_worker := Deal_End\<rparr>)))
      | Drain_Call n \<Rightarrow> Some (deal_node n Drain_Lock s)
      | Drain_Lock \<Rightarrow> deal_lock Drain_Test s
      | Deal_End \<Rightarrow> None)"

text \<open>One step of \<open>PostMsgToQue\<close> in the thread \<open>i\<close>.\<close>

definition post_step :: "nat \<Rightarrow> logic_run \<Rightarrow> logic_run option" where
  "post_step i s =
     (case lr_posters s ! i of
        Post_Idle \<Rightarrow> None
      | Post_Lock n \<Rightarrow>
          if ls_mutex (lr_sys s) = None then Some (set_mutex (Some (Poster i)) (goto_post i (Post_Push n) s)) else None
      | Post_Push n \<Rightarrow>
          Some (set_que (push_back n (ls_msg_que (lr_sys s))) (goto_post i Post_Notify (s\<lparr>lr_posted := lr_posted s @ [n]\<rparr>)))
      | Post_Notify \<Rightarrow>
          Some (goto_post i Post_Unlock (if length (ls_msg_que (lr_sys s)) = 1 then notify_one s else s))
      | Post_Unlock \<Rightarrow> Some (set_mutex None (goto_post i Post_Idle s)))"

text \<open>One step of the destructor: the flag is set without the mutex.\<close>

definition dtor_step :: "logic_run \<Rightarrow> logic_run option" where
  "dtor_step s =
     (case lr_dtor s of
        Dtor_Idle \<Rightarrow> Some (s\<lparr>lr_dtor := Dtor_Notify, lr_sys := (lr_sys s)\<lparr>ls_b_stop := True\<rparr>\<rparr>)
      | Dtor_Notify \<Rightarrow> Some (notify_one (s\<lparr>lr_dtor := Dtor_Join\<rparr>))
      | Dtor_Join \<Rightarrow> if lr_worker s = Deal_End then Some (s\<lparr>lr_dtor := Dtor_Done\<rparr>) else None
      | Dtor_Done \<Rightarrow> None)"

text \<open>
  The steps of the program, and the steps of a system in which \<open>wait\<close> may also return without a
  notification.
\<close>

inductive logic_step :: "logic_run \<Rightarrow> logic_run \<Rightarrow> bool" where
  deal: "deal_step s = Some (Inr s') \<Longrightarrow> logic_step s s'"
| call: "i < length (lr_posters s) \<Longrightarrow> lr_posters s ! i = Post_Idle \<Longrightarrow> logic_step s (goto_post i (Post_Lock n) s)"
| post: "i < length (lr_posters s) \<Longrightarrow> post_step i s = Some s' \<Longrightarrow> logic_step s s'"
| dtor: "dtor_step s = Some s' \<Longrightarrow> logic_step s s'"

inductive spurious_step :: "logic_run \<Rightarrow> logic_run \<Rightarrow> bool" where
  program: "logic_step s s' \<Longrightarrow> spurious_step s s'"
| spurious: "lr_worker s = Deal_Wait \<Longrightarrow> spurious_step s (s\<lparr>lr_worker := Deal_Woken\<rparr>)"

inductive_cases logic_stepE: "logic_step s s'"

inductive_cases spurious_stepE: "spurious_step s s'"

lemmas logic_defs = deal_step_def post_step_def dtor_step_def deal_lock_def take_node_def deal_node_def notify_one_def
  set_mutex_def set_que_def goto_post_def

section \<open>The invariant\<close>

fun deal_holds :: "deal_pc \<Rightarrow> bool" where
  "deal_holds Deal_Test = True"
| "deal_holds Deal_Sleep = True"
| "deal_holds Deal_Stop = True"
| "deal_holds Deal_Pop = True"
| "deal_holds Drain_Test = True"
| "deal_holds _ = False"

fun post_holds :: "post_pc \<Rightarrow> bool" where
  "post_holds (Post_Push _) = True"
| "post_holds Post_Notify = True"
| "post_holds Post_Unlock = True"
| "post_holds _ = False"

text \<open>The node the worker has taken and not yet dealt with.\<close>

fun in_hand :: "deal_pc \<Rightarrow> LogicNode list" where
  "in_hand (Deal_Call n) = [n]"
| "in_hand (Drain_Call n) = [n]"
| "in_hand _ = []"

fun draining :: "deal_pc \<Rightarrow> bool" where
  "draining Drain_Test = True"
| "draining (Drain_Call _) = True"
| "draining Drain_Lock = True"
| "draining Deal_End = True"
| "draining _ = False"

definition lock_inv :: "logic_run \<Rightarrow> bool" where
  "lock_inv s \<longleftrightarrow> (ls_mutex (lr_sys s) = Some Worker \<longleftrightarrow> deal_holds (lr_worker s)) \<and>
     (\<forall>i. ls_mutex (lr_sys s) = Some (Poster i) \<longleftrightarrow> i < length (lr_posters s) \<and> post_holds (lr_posters s ! i))"

definition order_inv :: "logic_run \<Rightarrow> bool" where
  "order_inv s \<longleftrightarrow> lr_posted s = lr_taken s @ ls_msg_que (lr_sys s) \<and> lr_taken s = lr_dealt s @ in_hand (lr_worker s)"

text \<open>
  A worker that sleeps while the queue is not empty is about to be notified: the thread that put
  the first message in still holds the mutex.
\<close>

definition wait_inv :: "logic_run \<Rightarrow> bool" where
  "wait_inv s \<longleftrightarrow> lr_worker s = Deal_Wait \<longrightarrow> ls_msg_que (lr_sys s) \<noteq> [] \<longrightarrow>
     length (ls_msg_que (lr_sys s)) = 1 \<and>
     (\<exists>i < length (lr_posters s). lr_posters s ! i = Post_Notify)"

definition test_inv :: "logic_run \<Rightarrow> bool" where
  "test_inv s \<longleftrightarrow> (lr_worker s = Deal_Sleep \<longrightarrow> ls_msg_que (lr_sys s) = []) \<and>
     (lr_worker s = Deal_Stop \<longrightarrow> ls_msg_que (lr_sys s) \<noteq> [] \<or> ls_b_stop (lr_sys s)) \<and>
     (lr_worker s = Deal_Pop \<longrightarrow> ls_msg_que (lr_sys s) \<noteq> []) \<and>
     (draining (lr_worker s) \<longrightarrow> ls_b_stop (lr_sys s))"

definition logic_inv :: "logic_run \<Rightarrow> bool" where
  "logic_inv s \<longleftrightarrow> lock_inv s \<and> order_inv s \<and> wait_inv s \<and> test_inv s"

lemmas logic_inv_defs = lock_inv_def order_inv_def wait_inv_def test_inv_def

lemma lock_holder:
  assumes "lock_inv s" and "i < length (lr_posters s)" and "post_holds (lr_posters s ! i)"
  shows "\<not> deal_holds (lr_worker s)" and "j < length (lr_posters s) \<Longrightarrow> post_holds (lr_posters s ! j) \<Longrightarrow> j = i"
proof -
  have o: "ls_mutex (lr_sys s) = Some (Poster i)" using assms unfolding lock_inv_def by blast
  have "ls_mutex (lr_sys s) = Some Worker \<longleftrightarrow> deal_holds (lr_worker s)" using assms(1) unfolding lock_inv_def by blast
  with o show "\<not> deal_holds (lr_worker s)" by simp
  show "j = i" if "j < length (lr_posters s)" "post_holds (lr_posters s ! j)"
    using o that assms(1) unfolding lock_inv_def by (metis option.inject thread.inject)
qed

lemma take_node_eq: "take_node l s = Inr s' \<longleftrightarrow> (\<exists>n q. ls_msg_que (lr_sys s) = n # q \<and>
     s' = set_mutex None (set_que q (s\<lparr>lr_worker := l n, lr_taken := lr_taken s @ [n]\<rparr>)))"
  by (cases "ls_msg_que (lr_sys s)") (auto simp: take_node_def queue_defs)

lemma deal_node_eq: "deal_node n l s = Inr s' \<longleftrightarrow> (\<exists>ss. run_callback (ls_fun_callbacks (lr_sys s)) n (lr_sessions s) = Inr ss \<and>
     s' = s\<lparr>lr_sessions := ss, lr_worker := l, lr_dealt := lr_dealt s @ [n]\<rparr>)"
  by (auto simp: deal_node_def bindr_eq_Inr)

lemma lr_fields [simp]:
  "lr_worker (set_mutex t s) = lr_worker s" "lr_posters (set_mutex t s) = lr_posters s" "lr_dtor (set_mutex t s) = lr_dtor s"
  "lr_posted (set_mutex t s) = lr_posted s" "lr_taken (set_mutex t s) = lr_taken s" "lr_dealt (set_mutex t s) = lr_dealt s"
  "ls_msg_que (lr_sys (set_mutex t s)) = ls_msg_que (lr_sys s)" "ls_b_stop (lr_sys (set_mutex t s)) = ls_b_stop (lr_sys s)"
  "ls_mutex (lr_sys (set_mutex t s)) = t" "lr_sessions (set_mutex t s) = lr_sessions s"
  "ls_fun_callbacks (lr_sys (set_mutex t s)) = ls_fun_callbacks (lr_sys s)"
  "lr_worker (set_que q s) = lr_worker s" "lr_posters (set_que q s) = lr_posters s" "lr_dtor (set_que q s) = lr_dtor s"
  "lr_posted (set_que q s) = lr_posted s" "lr_taken (set_que q s) = lr_taken s" "lr_dealt (set_que q s) = lr_dealt s"
  "ls_msg_que (lr_sys (set_que q s)) = q" "ls_b_stop (lr_sys (set_que q s)) = ls_b_stop (lr_sys s)"
  "ls_mutex (lr_sys (set_que q s)) = ls_mutex (lr_sys s)" "lr_sessions (set_que q s) = lr_sessions s"
  "ls_fun_callbacks (lr_sys (set_que q s)) = ls_fun_callbacks (lr_sys s)"
  "lr_worker (goto_post i l s) = lr_worker s" "lr_posters (goto_post i l s) = (lr_posters s)[i := l]" "lr_dtor (goto_post i l s) = lr_dtor s"
  "lr_posted (goto_post i l s) = lr_posted s" "lr_taken (goto_post i l s) = lr_taken s" "lr_dealt (goto_post i l s) = lr_dealt s"
  "lr_sys (goto_post i l s) = lr_sys s" "lr_sessions (goto_post i l s) = lr_sessions s"
  by (simp_all add: set_mutex_def set_que_def goto_post_def)

lemma other_notify:
  assumes "\<exists>j < length xs. xs ! j = Post_Notify" and "xs ! i \<noteq> Post_Notify"
  shows "\<exists>j < length xs. xs[i := l] ! j = Post_Notify"
proof -
  from assms obtain j where "j < length xs" "xs ! j = Post_Notify" "j \<noteq> i" by auto
  then show ?thesis by (intro exI [of _ j]) simp
qed

text \<open>What a step of the worker may change.\<close>

lemma deal_step_fields:
  assumes "deal_step s = Some (Inr s')"
  shows "lr_posters s' = lr_posters s \<and> lr_posted s' = lr_posted s \<and> lr_dtor s' = lr_dtor s \<and>
      ls_b_stop (lr_sys s') = ls_b_stop (lr_sys s)"
    and "if deal_holds (lr_worker s) then ls_mutex (lr_sys s') = (if deal_holds (lr_worker s') then ls_mutex (lr_sys s) else None)
      else if deal_holds (lr_worker s') then ls_mutex (lr_sys s) = None \<and> ls_mutex (lr_sys s') = Some Worker
      else ls_mutex (lr_sys s') = ls_mutex (lr_sys s)"
    and "lr_taken s' @ ls_msg_que (lr_sys s') = lr_taken s @ ls_msg_que (lr_sys s)"
    and "lr_taken s = lr_dealt s @ in_hand (lr_worker s) \<Longrightarrow> lr_taken s' = lr_dealt s' @ in_hand (lr_worker s')"
  using assms
  by (cases "lr_worker s"; auto simp: deal_step_def deal_lock_def take_node_eq deal_node_eq split: if_splits)+

lemma deal_step_tests:
  assumes "deal_step s = Some (Inr s')"
  shows "lr_worker s' = Deal_Wait \<Longrightarrow> lr_worker s = Deal_Sleep \<and> ls_msg_que (lr_sys s') = ls_msg_que (lr_sys s)"
    and "lr_worker s' = Deal_Sleep \<Longrightarrow> ls_msg_que (lr_sys s') = []"
    and "lr_worker s' = Deal_Stop \<Longrightarrow> ls_msg_que (lr_sys s') \<noteq> [] \<or> ls_b_stop (lr_sys s')"
    and "lr_worker s' = Deal_Pop \<Longrightarrow> lr_worker s = Deal_Stop \<and> \<not> ls_b_stop (lr_sys s) \<and> ls_msg_que (lr_sys s') = ls_msg_que (lr_sys s)"
    and "draining (lr_worker s') \<Longrightarrow> draining (lr_worker s) \<or> ls_b_stop (lr_sys s)"
  using assms
  by (cases "lr_worker s"; auto simp: deal_step_def deal_lock_def take_node_eq deal_node_eq split: if_splits)+

lemma deal_step_lock_inv:
  assumes "lock_inv s" and "deal_step s = Some (Inr s')"
  shows "lock_inv s'"
  using assms(1) deal_step_fields(1,2) [OF assms(2)]
  by (cases "deal_holds (lr_worker s)"; cases "deal_holds (lr_worker s')") (auto simp: lock_inv_def)

lemma deal_step_order_inv: "order_inv s \<Longrightarrow> deal_step s = Some (Inr s') \<Longrightarrow> order_inv s'"
  using deal_step_fields [of s s'] by (simp add: order_inv_def)

lemma deal_step_test_inv: "test_inv s \<Longrightarrow> deal_step s = Some (Inr s') \<Longrightarrow> test_inv s' \<and> wait_inv s'"
  using deal_step_fields(1) [of s s'] deal_step_tests [of s s'] unfolding test_inv_def wait_inv_def by metis

lemma deal_step_inv: "logic_inv s \<Longrightarrow> deal_step s = Some (Inr s') \<Longrightarrow> logic_inv s'"
  using deal_step_lock_inv deal_step_order_inv deal_step_test_inv unfolding logic_inv_def by blast

lemma call_inv:
  assumes "logic_inv s" and "i < length (lr_posters s)" and "lr_posters s ! i = Post_Idle"
  shows "logic_inv (goto_post i (Post_Lock n) s)"
proof -
  have "lock_inv (goto_post i (Post_Lock n) s)"
    using assms by (auto simp: logic_inv_def lock_inv_def nth_list_update)
  moreover have "wait_inv (goto_post i (Post_Lock n) s)"
    using assms other_notify [of "lr_posters s" i "Post_Lock n"] by (simp add: logic_inv_def wait_inv_def)
  ultimately show ?thesis using assms(1) by (simp add: logic_inv_def order_inv_def test_inv_def)
qed

lemma poster_acquire:
  assumes "lock_inv s" and "i < length (lr_posters s)" and "ls_mutex (lr_sys s) = None" and "post_holds l"
  shows "lock_inv (set_mutex (Some (Poster i)) (goto_post i l s))"
  using assms by (auto simp: lock_inv_def nth_list_update)

lemma poster_release:
  assumes "lock_inv s" and "i < length (lr_posters s)" and "post_holds (lr_posters s ! i)" and "\<not> post_holds l"
  shows "lock_inv (set_mutex None (goto_post i l s))"
proof -
  have "\<not> post_holds ((lr_posters s)[i := l] ! j)" if "j < length (lr_posters s)" for j
    using that assms(2,4) lock_holder(2) [OF assms(1-3) that] by (cases "j = i") auto
  then show ?thesis
    using lock_holder(1) [OF assms(1-3)] by (auto simp: lock_inv_def)
qed

lemma poster_keep:
  assumes "lock_inv s" and "i < length (lr_posters s)" and "post_holds l = post_holds (lr_posters s ! i)"
    and "lr_posters s' = (lr_posters s)[i := l]" and "ls_mutex (lr_sys s') = ls_mutex (lr_sys s)"
    and "deal_holds (lr_worker s') = deal_holds (lr_worker s)"
  shows "lock_inv s'"
  using assms by (auto simp: lock_inv_def nth_list_update)

lemma notify_worker: "deal_holds (lr_worker (notify_one s)) = deal_holds (lr_worker s)"
  "lr_posters (notify_one s) = lr_posters s" "lr_sys (notify_one s) = lr_sys s" "lr_worker (notify_one s) \<noteq> Deal_Wait"
  "in_hand (lr_worker (notify_one s)) = in_hand (lr_worker s)" "lr_posted (notify_one s) = lr_posted s"
  "lr_taken (notify_one s) = lr_taken s" "lr_dealt (notify_one s) = lr_dealt s"
  by (auto simp: notify_one_def)

text \<open>A step that only wakes the worker, sets the flag or moves the destructor keeps everything.\<close>

lemma wake_inv:
  assumes "logic_inv s" and "lr_worker s' = lr_worker s \<or> lr_worker s = Deal_Wait \<and> lr_worker s' = Deal_Woken"
    and "lr_posters s' = lr_posters s" and "ls_mutex (lr_sys s') = ls_mutex (lr_sys s)"
    and "ls_msg_que (lr_sys s') = ls_msg_que (lr_sys s)" and "ls_b_stop (lr_sys s) \<Longrightarrow> ls_b_stop (lr_sys s')"
    and "lr_posted s' = lr_posted s" and "lr_taken s' = lr_taken s" and "lr_dealt s' = lr_dealt s"
  shows "logic_inv s'"
proof -
  have "deal_holds (lr_worker s') = deal_holds (lr_worker s)" using assms(2) by (elim disjE) simp_all
  moreover have "lock_inv s" using assms(1) by (simp add: logic_inv_def)
  ultimately have "lock_inv s'" unfolding lock_inv_def assms(3,4) by simp
  moreover have "order_inv s'" using assms by (auto simp: logic_inv_def order_inv_def)
  moreover have "wait_inv s'" using assms by (auto simp: logic_inv_def wait_inv_def)
  moreover have "test_inv s'" using assms by (auto simp: logic_inv_def test_inv_def)
  ultimately show ?thesis by (simp add: logic_inv_def)
qed

lemma dtor_step_inv:
  assumes "logic_inv s" and "dtor_step s = Some s'"
  shows "logic_inv s'"
  by (rule wake_inv [OF assms(1)])
    (use assms(2) in \<open>auto simp: dtor_step_def notify_one_def split: dtor_pc.splits if_splits\<close>)

lemma post_step_lock_inv:
  assumes "lock_inv s" and "i < length (lr_posters s)" and "post_step i s = Some s'"
  shows "lock_inv s'"
proof (cases "lr_posters s ! i")
  case (Post_Lock n)
  with assms show ?thesis using poster_acquire [OF assms(1,2)] by (auto simp: post_step_def split: if_splits)
next
  case (Post_Push n)
  with assms(3) show ?thesis
    by (intro poster_keep [OF assms(1,2), of Post_Notify]) (auto simp: post_step_def)
next
  case Post_Notify
  with assms(3) show ?thesis
    by (intro poster_keep [OF assms(1,2), of Post_Unlock]) (auto simp: post_step_def goto_post_def notify_worker split: if_splits)
next
  case Post_Unlock
  with assms show ?thesis using poster_release [OF assms(1,2), of Post_Idle] by (auto simp: post_step_def)
qed (use assms(3) in \<open>simp add: post_step_def\<close>)

lemma post_step_rest_inv:
  assumes "logic_inv s" and "i < length (lr_posters s)" and "post_step i s = Some s'"
  shows "order_inv s' \<and> test_inv s'"
proof -
  have h: "post_holds (lr_posters s ! i) \<Longrightarrow> \<not> deal_holds (lr_worker s)"
    using lock_holder(1) [of s i] assms(1,2) by (simp add: logic_inv_def)
  have "order_inv s" "test_inv s" using assms(1) by (simp_all add: logic_inv_def)
  then show ?thesis
    using assms(3) h
    by (cases "lr_posters s ! i")
      (auto simp: post_step_def order_inv_def test_inv_def notify_one_def push_back_def
        split: if_splits)
qed

lemma post_step_wait_inv:
  assumes "logic_inv s" and "i < length (lr_posters s)" and "post_step i s = Some s'"
  shows "wait_inv s'"
proof -
  have w: "wait_inv s" and l: "lock_inv s" using assms(1) by (simp_all add: logic_inv_def)
  have only: "j = i" if "j < length (lr_posters s)" "lr_posters s ! j = Post_Notify" "post_holds (lr_posters s ! i)" for j
    using that lock_holder(2) [OF l assms(2)] by simp
  show ?thesis
  proof (cases "lr_posters s ! i")
    case (Post_Lock n)
    with assms(3) have "s' = set_mutex (Some (Poster i)) (goto_post i (Post_Push n) s)"
      by (simp add: post_step_def split: if_splits)
    with w other_notify [of "lr_posters s" i "Post_Push n"] Post_Lock show ?thesis by (simp add: wait_inv_def)
  next
    case (Post_Push n)
    then have "ls_msg_que (lr_sys s) = []" if "lr_worker s = Deal_Wait"
      using w that only unfolding wait_inv_def by fastforce
    with Post_Push assms(2,3) show ?thesis
      by (auto simp: post_step_def wait_inv_def push_back_def nth_list_update)
  next
    case Post_Notify
    with assms(3) w show ?thesis
      by (auto simp: post_step_def wait_inv_def goto_post_def notify_one_def split: if_splits)
  next
    case Post_Unlock
    then have "ls_msg_que (lr_sys s) = []" if "lr_worker s = Deal_Wait"
      using w that only unfolding wait_inv_def by fastforce
    with Post_Unlock assms(3) show ?thesis by (auto simp: post_step_def wait_inv_def)
  qed (use assms(3) in \<open>simp add: post_step_def\<close>)
qed

lemma logic_step_inv:
  assumes "logic_step s s'" and "logic_inv s"
  shows "logic_inv s'"
  using assms(1)
proof cases
  case (post i)
  have "lock_inv s" using assms(2) by (simp add: logic_inv_def)
  from post_step_lock_inv [OF this post] post_step_rest_inv [OF assms(2) post] post_step_wait_inv [OF assms(2) post]
  show ?thesis by (simp add: logic_inv_def)
next
  case deal
  with assms(2) show ?thesis by (rule deal_step_inv)
next
  case (call i n)
  with assms(2) show ?thesis by (simp add: call_inv)
next
  case dtor
  with assms(2) show ?thesis by (rule dtor_step_inv)
qed

lemma spurious_step_inv: "spurious_step s s' \<Longrightarrow> logic_inv s \<Longrightarrow> logic_inv s'"
  by (erule spurious_stepE) (simp add: logic_step_inv, auto elim!: wake_inv)

lemma logic_inv_reachable: "spurious_step\<^sup>*\<^sup>* s s' \<Longrightarrow> logic_inv s \<Longrightarrow> logic_inv s'"
  by (induction rule: rtranclp_induct) (auto intro: spurious_step_inv)

lemma logic_inv_start: "logic_inv (logic_start js n ss)"
  by (simp add: logic_inv_def logic_inv_defs logic_start_def LogicSystem_ctor_def)

section \<open>Replies\<close>

text \<open>A stand-in for the JSON library, with objects as association lists, to evaluate the callback with.\<close>

datatype jval = J_Null | J_Int int | J_Str string | J_Obj "(string \<times> jval) list"

definition example_json :: "jval json_lib" where
  "example_json = \<lparr>
     json_parse = (\<lambda>t. if t = ''hello'' then Some (J_Obj [(''id'', J_Int 1001), (''data'', J_Str ''hi'')])
                       else if t = ''[1]'' then Some (J_Int 1) else None),
     json_null = J_Null, json_int = J_Int, json_string = J_Str,
     json_at = (\<lambda>k v. case v of J_Obj m \<Rightarrow> (case map_of m k of None \<Rightarrow> Some (J_Obj (AList.update k J_Null m), J_Null) | Some x \<Rightarrow> Some (v, x))
                      | J_Null \<Rightarrow> Some (J_Obj [(k, J_Null)], J_Null) | _ \<Rightarrow> None),
     json_set = (\<lambda>k x v. case v of J_Obj m \<Rightarrow> Some (J_Obj (AList.update k x m)) | J_Null \<Rightarrow> Some (J_Obj [(k, x)]) | _ \<Rightarrow> None),
     json_asInt = (\<lambda>v. case v of J_Int i \<Rightarrow> Some i | J_Null \<Rightarrow> Some 0 | _ \<Rightarrow> None),
     json_asString = (\<lambda>v. case v of J_Str t \<Rightarrow> Some t | J_Null \<Rightarrow> Some [] | _ \<Rightarrow> None),
     json_styled = (\<lambda>v. case v of J_Obj [(_, J_Int _), (_, J_Str t)] \<Rightarrow> t | _ \<Rightarrow> ''?'')\<rparr>"

lemmas example_json_simps = example_json_def json_lib.simps

lemma Send_string_reply:
  assumes "tlv_inv s" and "length t \<le> 32763"
  obtains s' where "tlv_Send_string t i s = Inr s'" and "tlv_inv s'"
    and "tlv_queue s' = (if tlv_admits s then tlv_queue s @ [tlv_frame i t] else tlv_queue s)"
  using tlv_sender.send_ok [OF assms(1), of "(t, i)"] assms(2)
  by (auto simp: tlv_valid_def tlv_send_pair_def tlv_frame_of_def)

lemma run_hello:
  assumes "node_msg_id (ln_recvnode n) = MSG_HELLO_WORLD"
  shows "run_callback (RegisterCallBacks js cbs) n ss =
     (case HelloWordCallBack js MSG_HELLO_WORLD (node_text (ln_recvnode n)) (ss (ln_session n)) of
        Inr s' \<Rightarrow> Inr (ss(ln_session n := s'))
      | Inl e \<Rightarrow> if is_exception e then Inr ss else Inl e)"
  using assms by (simp add: run_callback_def RegisterCallBacks_def map_defs)

text \<open>The beginning of a post by the only posting thread.\<close>

lemma spurious_run: "logic_step\<^sup>*\<^sup>* s s' \<Longrightarrow> spurious_step\<^sup>*\<^sup>* s s'"
  by (induction rule: rtranclp_induct) (auto intro: spurious_step.program rtranclp.rtrancl_into_rtrancl)

lemma five_steps:
  assumes "logic_step a b" and "logic_step b c" and "logic_step c d" and "logic_step d e" and "logic_step e f"
  shows "logic_step\<^sup>*\<^sup>* a f"
proof -
  have "logic_step\<^sup>*\<^sup>* a c" using assms(1,2) by auto
  also have "logic_step\<^sup>*\<^sup>* c e" using assms(3,4) by auto
  finally show ?thesis using assms(5) by (rule rtranclp.rtrancl_into_rtrancl)
qed

lemma post_run:
  fixes js :: "'j json_lib" and ss :: "string \<Rightarrow> tlv_session" and n :: LogicNode
  defines "s0 \<equiv> logic_start js 1 ss"
  defines "s1 \<equiv> goto_post 0 (Post_Lock n) s0"
  defines "s2 \<equiv> set_mutex (Some (Poster 0)) (goto_post 0 (Post_Push n) s1)"
  defines "s3 \<equiv> set_que [n] (goto_post 0 Post_Notify (s2\<lparr>lr_posted := [n]\<rparr>))"
  shows "spurious_step\<^sup>*\<^sup>* s0 s2" and "spurious_step\<^sup>*\<^sup>* s0 s3"
proof -
  have 1: "logic_step s0 s1" unfolding s1_def by (rule logic_step.call) (simp_all add: s0_def logic_start_def)
  have 2: "logic_step s1 s2"
    by (rule logic_step.post [of 0]) (simp_all add: post_step_def s2_def s1_def s0_def logic_start_def LogicSystem_ctor_def)
  have 3: "logic_step s2 s3"
    by (rule logic_step.post [of 0])
      (simp_all add: post_step_def s3_def s2_def s1_def s0_def logic_start_def LogicSystem_ctor_def push_back_def)
  show "spurious_step\<^sup>*\<^sup>* s0 s2" by (rule spurious_run) (use 1 2 in \<open>blast intro: rtranclp.rtrancl_into_rtrancl\<close>)
  show "spurious_step\<^sup>*\<^sup>* s0 s3" by (rule spurious_run) (use 1 2 3 in \<open>blast intro: rtranclp.rtrancl_into_rtrancl\<close>)
qed

section \<open>Properties\<close>

text \<open>
  C5. The messages posted to the logic layer are dealt with in the order they were posted, each
  exactly once, in every interleaving of posting threads, worker, destructor and spurious wakeups:
  what was posted is what was dealt with, followed by the message in the worker's hand and the
  queue. The worker never takes from an empty queue, and when it returns after a stop everything
  posted so far has been dealt with.
\<close>

theorem logic_fifo_exactly_once:
  assumes "spurious_step\<^sup>*\<^sup>* (logic_start js n ss) s"
  shows "lr_posted s = lr_dealt s @ in_hand (lr_worker s) @ ls_msg_que (lr_sys s) \<and>
     (lr_worker s = Deal_Pop \<longrightarrow> ls_msg_que (lr_sys s) \<noteq> []) \<and>
     (deal_step s = Some (Inr s') \<and> lr_worker s' = Deal_End \<longrightarrow> lr_dealt s' = lr_posted s')"
proof -
  have inv: "logic_inv s" using logic_inv_reachable [OF assms logic_inv_start] .
  have "lr_dealt s' = lr_posted s'" if "deal_step s = Some (Inr s')" "lr_worker s' = Deal_End"
  proof -
    have "ls_msg_que (lr_sys s') = []"
      using that by (cases "lr_worker s") (auto simp: deal_step_def deal_lock_def take_node_eq deal_node_eq split: if_splits)
    with that deal_step_inv [OF inv that(1)] show ?thesis by (simp add: logic_inv_def order_inv_def)
  qed
  with inv show ?thesis by (simp add: logic_inv_def order_inv_def test_inv_def)
qed

theorem logic_fifo_exactly_once_witness:
  "\<exists>s. spurious_step\<^sup>*\<^sup>* (logic_start example_json 1 tlv_Session) s \<and> lr_posters s = [Post_Push \<lparr>ln_session = ''u'', ln_recvnode = tlv_message 7 ''a''\<rparr>] \<and>
     lr_posted s = lr_dealt s @ in_hand (lr_worker s) @ ls_msg_que (lr_sys s)"
proof -
  let ?n = "\<lparr>ln_session = ''u'', ln_recvnode = tlv_message 7 ''a''\<rparr>"
  let ?s0 = "logic_start example_json 1 tlv_Session"
  let ?s1 = "goto_post 0 (Post_Lock ?n) ?s0"
  let ?s2 = "set_mutex (Some (Poster 0)) (goto_post 0 (Post_Push ?n) ?s1)"
  have r: "spurious_step\<^sup>*\<^sup>* ?s0 ?s2" by (rule post_run)
  moreover have "lr_posters ?s2 = [Post_Push ?n]" by (simp add: logic_start_def)
  ultimately show ?thesis using logic_fifo_exactly_once [OF r] by blast
qed

text \<open>
  C11. No wakeup of a posted message is lost: while a message waits and the worker has not returned,
  some thread can move, and as soon as no thread is inside \<open>PostMsgToQue\<close> the worker itself can.
\<close>

theorem logic_progress:
  assumes "spurious_step\<^sup>*\<^sup>* (logic_start js n ss) s" and "ls_msg_que (lr_sys s) \<noteq> []" and "lr_worker s \<noteq> Deal_End"
  shows "(deal_step s \<noteq> None \<or> (\<exists>i < length (lr_posters s). post_step i s \<noteq> None)) \<and>
     ((\<forall>i < length (lr_posters s). \<not> post_holds (lr_posters s ! i)) \<longrightarrow> deal_step s \<noteq> None)"
proof -
  have inv: "lock_inv s" "wait_inv s"
    using logic_inv_reachable [OF assms(1) logic_inv_start] by (simp_all add: logic_inv_def)
  have moves: "post_step i s \<noteq> None" if "post_holds (lr_posters s ! i)" for i
    using that by (cases "lr_posters s ! i") (simp_all add: post_step_def)
  have stuck: "\<exists>i < length (lr_posters s). post_holds (lr_posters s ! i)" if "deal_step s = None"
  proof (cases "lr_worker s = Deal_Wait")
    case True
    with inv(2) assms(2) show ?thesis unfolding wait_inv_def by fastforce
  next
    case False
    with that assms(3) have "\<not> deal_holds (lr_worker s)" and "ls_mutex (lr_sys s) \<noteq> None"
      by (cases "lr_worker s"; simp add: deal_step_def deal_lock_def split: if_splits)+
    then obtain t where "ls_mutex (lr_sys s) = Some t" "t \<noteq> Worker" using inv(1) unfolding lock_inv_def by blast
    then show ?thesis using inv(1) unfolding lock_inv_def by (cases t) blast+
  qed
  with moves show ?thesis by blast
qed

theorem logic_progress_witness:
  "\<exists>s. spurious_step\<^sup>*\<^sup>* (logic_start example_json 1 tlv_Session) s \<and> ls_msg_que (lr_sys s) \<noteq> [] \<and>
     (deal_step s \<noteq> None \<or> (\<exists>i < length (lr_posters s). post_step i s \<noteq> None))"
proof -
  let ?n = "\<lparr>ln_session = ''u'', ln_recvnode = tlv_message 7 ''a''\<rparr>"
  let ?s0 = "logic_start example_json 1 tlv_Session"
  let ?s1 = "goto_post 0 (Post_Lock ?n) ?s0"
  let ?s2 = "set_mutex (Some (Poster 0)) (goto_post 0 (Post_Push ?n) ?s1)"
  let ?s3 = "set_que [?n] (goto_post 0 Post_Notify (?s2\<lparr>lr_posted := [?n]\<rparr>))"
  have r: "spurious_step\<^sup>*\<^sup>* ?s0 ?s3" by (rule post_run)
  have q: "ls_msg_que (lr_sys ?s3) \<noteq> []" "lr_worker ?s3 \<noteq> Deal_End" by (simp_all add: logic_start_def)
  show ?thesis using logic_progress [OF r q] r q by blast
qed

text \<open>
  C31. The wakeup of the destructor can be lost: it sets \<open>_b_stop\<close> and notifies without the mutex,
  and when that falls between the worker's test and its \<open>wait\<close>, the worker sleeps, the
  destructor waits for it in \<open>join\<close>, and no step of the program is possible any more.
\<close>

theorem logic_stop_can_hang:
  "\<exists>s. logic_step\<^sup>*\<^sup>* (logic_start js 0 ss) s \<and> lr_dtor s = Dtor_Join \<and> lr_worker s = Deal_Wait \<and>
     ls_b_stop (lr_sys s) \<and> (\<nexists>s'. logic_step s s')"
proof -
  let ?s0 = "logic_start js 0 ss"
  let ?s1 = "set_mutex (Some Worker) (?s0\<lparr>lr_worker := Deal_Test\<rparr>)"
  let ?s2 = "?s1\<lparr>lr_worker := Deal_Sleep\<rparr>"
  let ?s3 = "?s2\<lparr>lr_dtor := Dtor_Notify, lr_sys := (lr_sys ?s2)\<lparr>ls_b_stop := True\<rparr>\<rparr>"
  let ?s4 = "?s3\<lparr>lr_dtor := Dtor_Join\<rparr>"
  let ?s5 = "set_mutex None (?s4\<lparr>lr_worker := Deal_Wait\<rparr>)"
  have e1: "logic_step ?s0 ?s1"
    by (rule logic_step.deal) (simp add: deal_step_def deal_lock_def logic_start_def LogicSystem_ctor_def)
  have e2: "logic_step ?s1 ?s2"
    by (rule logic_step.deal) (simp add: deal_step_def logic_start_def LogicSystem_ctor_def)
  have e3: "logic_step ?s2 ?s3" by (rule logic_step.dtor) (simp add: dtor_step_def logic_start_def)
  have e4: "logic_step ?s3 ?s4" by (rule logic_step.dtor) (simp add: dtor_step_def notify_one_def logic_start_def)
  have e5: "logic_step ?s4 ?s5" by (rule logic_step.deal) (simp add: deal_step_def)
  have "logic_step\<^sup>*\<^sup>* ?s0 ?s5" by (rule five_steps [OF e1 e2 e3 e4 e5])
  moreover have "\<nexists>s'. logic_step ?s5 s'"
    by (auto elim!: logic_stepE simp: deal_step_def dtor_step_def logic_start_def)
  ultimately show ?thesis by (intro exI [of _ ?s5]) simp
qed

text \<open>
  The answer to a message: where the payload parses to a JSON object with an integer \<open>id\<close> and a
  text \<open>data\<close>, the callback queues one frame for the session that sent it, with that id and the
  object in which \<open>data\<close> is prefixed; a payload that does not parse is answered with the error
  object under the id of the message. Other sessions are not touched. The hypotheses are what the
  JSON library says of the object, and that the answer is short enough to be framed.
\<close>

theorem hello_reply:
  assumes "node_msg_id (ln_recvnode n) = MSG_HELLO_WORLD" and "tlv_inv (ss (ln_session n))"
    and "json_parse js (node_text (ln_recvnode n)) = Some root \<and>
         json_at js ''id'' root = Some (root, vi) \<and> json_asInt js vi = Some i \<and>
         json_at js ''data'' root = Some (root, vd) \<and> json_asString js vd = Some d \<and>
         json_set js ''data'' (json_string js (''server has received msg, msg data is '' @ d)) root = Some answer \<and>
         json_at js ''id'' answer = Some (answer, vi) \<or>
         json_parse js (node_text (ln_recvnode n)) = None \<and> i = MSG_HELLO_WORLD \<and>
         json_set js ''id'' (json_int js MSG_HELLO_WORLD) (json_null js) = Some err \<and>
         json_set js ''data'' (json_string js ''invalid json payload'') err = Some answer"
    and "length (json_styled js answer) \<le> 32763"
  shows "\<exists>s'. run_callback (RegisterCallBacks js cbs) n ss = Inr (ss(ln_session n := s')) \<and> tlv_inv s' \<and>
     tlv_queue s' = tlv_queue (ss (ln_session n)) @
       (if tlv_admits (ss (ln_session n)) then [tlv_frame i (json_styled js answer)] else [])"
proof -
  from Send_string_reply [OF assms(2,4), of i] obtain s' where s': "tlv_Send_string (json_styled js answer) i (ss (ln_session n)) = Inr s'"
    "tlv_inv s'" "tlv_queue s' = (if tlv_admits (ss (ln_session n)) then tlv_queue (ss (ln_session n)) @ [tlv_frame i (json_styled js answer)]
       else tlv_queue (ss (ln_session n)))" .
  have "HelloWordCallBack js MSG_HELLO_WORLD (node_text (ln_recvnode n)) (ss (ln_session n)) = Inr s'"
    using assms(3) s'(1) by (elim disjE) (simp_all add: HelloWordCallBack_def)
  with run_hello [OF assms(1), of js cbs ss] have "run_callback (RegisterCallBacks js cbs) n ss = Inr (ss(ln_session n := s'))" by simp
  with s'(2,3) show ?thesis by (intro exI [of _ s'] conjI) simp_all
qed

theorem hello_reply_witness:
  "\<exists>s'. run_callback (RegisterCallBacks example_json Map.empty) \<lparr>ln_session = ''u'', ln_recvnode = tlv_message 1001 ''hello''\<rparr> tlv_Session =
       Inr (tlv_Session(''u'' := s')) \<and> tlv_queue s' = [tlv_frame 1001 ''server has received msg, msg data is hi'']"
proof -
  let ?n = "\<lparr>ln_session = ''u'', ln_recvnode = tlv_message 1001 ''hello''\<rparr>"
  have "\<exists>s'. run_callback (RegisterCallBacks example_json Map.empty) ?n tlv_Session = Inr (tlv_Session(ln_session ?n := s')) \<and> tlv_inv s' \<and>
      tlv_queue s' = tlv_queue (tlv_Session (ln_session ?n)) @ (if tlv_admits (tlv_Session (ln_session ?n)) then
        [tlv_frame 1001 (json_styled example_json
          (J_Obj [(''id'', J_Int 1001), (''data'', J_Str ''server has received msg, msg data is hi'')]))] else [])"
    by (rule hello_reply [where root = "J_Obj [(''id'', J_Int 1001), (''data'', J_Str ''hi'')]" and vi = "J_Int 1001"
          and vd = "J_Str ''hi''" and d = "''hi''" and err = J_Null])
      (simp_all add: example_json_simps MSG_HELLO_WORLD_def tlv_inv_def tlv_queue_def tlv_Session_def)
  moreover have "tlv_queue (tlv_Session u) = []" "tlv_admits (tlv_Session u)" for u
    by (simp_all add: tlv_queue_def tlv_Session_def tlv_admits_def MAX_SENDQUE_def)
  ultimately show ?thesis by (simp add: example_json_simps) blast
qed

text \<open>
  A message whose answer throws is dropped and nothing else happens: a payload that is JSON but
  not an object, an \<open>id\<close> that is no integer, a \<open>data\<close> that is no string, or an answer too long for
  the frame format leave every session as it was, and the worker goes on.
\<close>

theorem hello_exception_contained:
  assumes "node_msg_id (ln_recvnode n) = MSG_HELLO_WORLD"
    and "json_parse js (node_text (ln_recvnode n)) = Some root"
    and "json_at js ''id'' root = None \<or>
         json_at js ''id'' root = Some (root, vi) \<and> json_asInt js vi = None \<or>
         json_at js ''id'' root = Some (root, vi) \<and> json_asInt js vi = Some i \<and>
         json_at js ''data'' root = Some (root, vd) \<and> json_asString js vd = None \<or>
         json_at js ''id'' root = Some (root, vi) \<and> json_asInt js vi = Some i \<and>
         json_at js ''data'' root = Some (root, vd) \<and> json_asString js vd = Some d \<and>
         json_set js ''data'' (json_string js (''server has received msg, msg data is '' @ d)) root = Some answer \<and>
         json_at js ''id'' answer = Some (answer, vi) \<and> tlv_admits (ss (ln_session n)) \<and>
         32764 \<le> length (json_styled js answer) \<and> length (json_styled js answer) \<le> 65530"
  shows "run_callback (RegisterCallBacks js cbs) n ss = Inr ss"
proof -
  have "HelloWordCallBack js MSG_HELLO_WORLD (node_text (ln_recvnode n)) (ss (ln_session n)) \<in> {Inl Bad_Alloc, Inl Logic_Error}"
    using assms(2,3) by (elim disjE) (simp_all add: HelloWordCallBack_def tlv_Send_long)
  then show ?thesis using run_hello [OF assms(1), of js cbs ss] by (auto simp: is_exception_def)
qed

theorem hello_exception_contained_witness:
  "run_callback (RegisterCallBacks example_json Map.empty) \<lparr>ln_session = ''u'', ln_recvnode = tlv_message 1001 ''[1]''\<rparr> tlv_Session =
     Inr tlv_Session"
  by (rule hello_exception_contained [where root = "J_Int 1"]) (simp_all add: example_json_simps MSG_HELLO_WORLD_def)

end
