(* ===== verification/IO_Pool.thy ===== *)
theory IO_Pool
  imports Tlv_Server
begin

text \<open>
  The pools of asio contexts of \<open>3. AsyncServerIOservicepool\<close> and \<open>4. CoroutineAsyncServer\<close>
  (\<open>IOservicePool.cpp\<close> of each), the singletons they are, and the servers that hand the contexts
  out to new sessions (\<open>Server.cpp\<close>). The second pool is a repaired copy of the first; both are
  translated, and what the repair changes is proved.
\<close>

section \<open>The pools\<close>

text \<open>
  A context as the pool sees it: whether a \<open>work\<close> object keeps it busy, how many asynchronous
  operations are outstanding on it, and whether it has been stopped. A thread is represented by
  \<open>joinable()\<close>; the thread \<open>i\<close> runs the context \<open>i\<close>.
\<close>

record io_service =
  io_work :: bool
  io_pending :: nat
  io_stopped :: bool

record AsioIOServicePool =
  pool_ioServices :: "io_service list"
  pool_works :: "bool list"
  pool_threads :: "bool list"
  pool_next :: nat

definition new_io_service :: io_service where
  "new_io_service = \<lparr>io_work = False, io_pending = 0, io_stopped = False\<rparr>"

definition attach_work :: "nat \<Rightarrow> AsioIOServicePool \<Rightarrow> AsioIOServicePool" where
  "attach_work i p = p\<lparr>pool_works := (pool_works p)[i := True],
     pool_ioServices := (pool_ioServices p)[i := (pool_ioServices p ! i)\<lparr>io_work := True\<rparr>]\<rparr>"

definition start_thread :: "nat \<Rightarrow> AsioIOServicePool \<Rightarrow> AsioIOServicePool" where
  "start_thread i p = p\<lparr>pool_threads := push_back True (pool_threads p)\<rparr>"

definition pool3_ctor :: "nat \<Rightarrow> AsioIOServicePool" where
  "pool3_ctor n =
     (let p = \<lparr>pool_ioServices = replicate n new_io_service, pool_works = replicate n False, pool_threads = [], pool_next = 0\<rparr>;
          p = fold attach_work [0..<n] p
      in fold start_thread [0..<length (pool_ioServices p)] p)"

definition pool4_ctor :: "nat \<Rightarrow> AsioIOServicePool" where
  "pool4_ctor n =
     (let p = \<lparr>pool_ioServices = replicate (if n = 0 then 1 else n) new_io_service,
               pool_works = replicate (if n = 0 then 1 else n) False, pool_threads = [], pool_next = 0\<rparr>;
          p = fold attach_work [0..<length (pool_ioServices p)] p
      in fold start_thread [0..<length (pool_ioServices p)] p)"

text \<open>
  \<open>GetIOService\<close> returns the index of the context. The index is out of bounds for an empty vector;
  the second pool does the same under a mutex.
\<close>

definition pool3_GetIOService :: "AsioIOServicePool \<Rightarrow> (AsioIOServicePool \<times> nat) res" where
  "pool3_GetIOService p =
     (let i = pool_next p;
          p = p\<lparr>pool_next := i + 1\<rparr> in
      if i < length (pool_ioServices p) then
        Inr (if pool_next p = length (pool_ioServices p) then p\<lparr>pool_next := 0\<rparr> else p, i)
      else Inl Out_Of_Bounds)"

definition pool4_GetIOService :: "AsioIOServicePool \<Rightarrow> (AsioIOServicePool \<times> nat) res" where
  "pool4_GetIOService p =
     (let i = pool_next p;
          p = p\<lparr>pool_next := i + 1\<rparr> in
      if i < length (pool_ioServices p) then
        Inr (if pool_next p = length (pool_ioServices p) then p\<lparr>pool_next := 0\<rparr> else p, i)
      else Inl Out_Of_Bounds)"

text \<open>
  \<open>Stop\<close>. Whether \<open>run\<close> of a context returns is asio's decision, the argument \<open>returns\<close>: a \<open>join\<close>
  on a thread whose context never returns blocks for ever, \<open>None\<close>.
\<close>

definition reset_works :: "AsioIOServicePool \<Rightarrow> AsioIOServicePool" where
  "reset_works p = p\<lparr>pool_works := map (\<lambda>_. False) (pool_works p),
     pool_ioServices := map (\<lambda>s. s\<lparr>io_work := False\<rparr>) (pool_ioServices p)\<rparr>"

definition stop_services :: "AsioIOServicePool \<Rightarrow> AsioIOServicePool" where
  "stop_services p = p\<lparr>pool_ioServices := map (\<lambda>s. s\<lparr>io_stopped := True\<rparr>) (pool_ioServices p)\<rparr>"

fun join_threads :: "(io_service \<Rightarrow> bool) \<Rightarrow> bool \<Rightarrow> io_service list \<Rightarrow> bool list \<Rightarrow> bool list res option" where
  "join_threads returns check (c # cs) (t # ts) =
     (if \<not> t \<and> check then map_option (\<lambda>r. bindr r (\<lambda>ts. Inr (t # ts))) (join_threads returns check cs ts)
      else if \<not> t then Some (Inl Not_Joinable)
      else if returns c then map_option (\<lambda>r. bindr r (\<lambda>ts. Inr (False # ts))) (join_threads returns check cs ts)
      else None)"
| "join_threads returns check _ ts = Some (Inr ts)"

definition pool3_Stop :: "(io_service \<Rightarrow> bool) \<Rightarrow> AsioIOServicePool \<Rightarrow> AsioIOServicePool res option" where
  "pool3_Stop returns p =
     (let p = reset_works p in
      map_option (\<lambda>r. bindr r (\<lambda>ts. Inr (p\<lparr>pool_threads := ts\<rparr>)))
        (join_threads returns False (pool_ioServices p) (pool_threads p)))"

definition pool4_Stop :: "(io_service \<Rightarrow> bool) \<Rightarrow> AsioIOServicePool \<Rightarrow> AsioIOServicePool res option" where
  "pool4_Stop returns p =
     (let p = stop_services (reset_works p) in
      map_option (\<lambda>r. bindr r (\<lambda>ts. Inr (p\<lparr>pool_threads := ts\<rparr>)))
        (join_threads returns True (pool_ioServices p) (pool_threads p)))"

section \<open>Singletons\<close>

text \<open>\<open>call_once\<close> runs its function if the flag is not set and sets the flag.\<close>

record 'a singleton =
  s_flag :: bool
  s_instance :: "'a option"

definition singleton_init :: "'a singleton" where
  "singleton_init = \<lparr>s_flag = False, s_instance = None\<rparr>"

definition GetInstance :: "'a \<Rightarrow> 'a singleton \<Rightarrow> 'a singleton \<times> 'a option" where
  "GetInstance new_T st =
     (let st = (if s_flag st then st else \<lparr>s_flag = True, s_instance = Some new_T\<rparr>)
      in (st, s_instance st))"

section \<open>The servers\<close>

text \<open>
  The sessions live under pointers; each remembers the context its socket was made with. The
  constructor of the pool is called with \<open>hw\<close>, what \<open>hardware_concurrency\<close> returns.
\<close>

record tlv_server =
  tv_sessions :: sessions
  tv_heap :: "nat \<Rightarrow> tlv_session"
  tv_context :: "nat \<Rightarrow> nat"
  tv_new :: nat
  tv_accepting :: "nat option"
  tv_pool :: "AsioIOServicePool singleton"

definition tlv_StartAccept :: "nat \<Rightarrow> string \<Rightarrow> tlv_server \<Rightarrow> tlv_server res" where
  "tlv_StartAccept hw uuid sv =
     (let (st, inst) = GetInstance (pool3_ctor hw) (tv_pool sv) in
      case inst of
        None \<Rightarrow> Inl Null_Deref
      | Some pool \<Rightarrow>
          bindr (pool3_GetIOService pool) (\<lambda>(pool, c).
          let p = tv_new sv in
          Inr (sv\<lparr>tv_pool := st\<lparr>s_instance := Some pool\<rparr>, tv_heap := (tv_heap sv)(p := tlv_Session uuid),
                  tv_context := (tv_context sv)(p := c), tv_new := Suc p, tv_accepting := Some p\<rparr>)))"

definition tlv_HandleAccept :: "nat \<Rightarrow> string \<Rightarrow> nat \<Rightarrow> asio_error option \<Rightarrow> tlv_server \<Rightarrow> tlv_server res" where
  "tlv_HandleAccept hw next_uuid p err sv =
     (let sv = sv\<lparr>tv_accepting := None\<rparr>;
          sv = (if err = None then
                  (let sv = sv\<lparr>tv_heap := (tv_heap sv)(p := tlv_Start (tv_heap sv p))\<rparr>
                   in sv\<lparr>tv_sessions := map_insert (ts_uuid (tv_heap sv p)) p (tv_sessions sv)\<rparr>)
                else sv)
      in tlv_StartAccept hw next_uuid sv)"

text \<open>
  Sessions call this on the threads of the pool, without a lock against the insertion on the main
  thread; the two are single steps here, which the program does not guarantee.
\<close>

definition tlv_ClearSession :: "string \<Rightarrow> tlv_server \<Rightarrow> tlv_server" where
  "tlv_ClearSession uuid sv = sv\<lparr>tv_sessions := map_erase uuid (tv_sessions sv)\<rparr>"

definition tlv_Server :: "nat \<Rightarrow> string \<Rightarrow> tlv_server res" where
  "tlv_Server hw uuid =
     tlv_StartAccept hw uuid \<lparr>tv_sessions = Map.empty, tv_heap = (\<lambda>_. tlv_Session []), tv_context = (\<lambda>_. 0), tv_new = 0,
       tv_accepting = None, tv_pool = singleton_init\<rparr>"

section \<open>The state after construction\<close>

definition busy_service :: io_service where
  "busy_service = \<lparr>io_work = True, io_pending = 0, io_stopped = False\<rparr>"

definition pool_ready :: "nat \<Rightarrow> AsioIOServicePool" where
  "pool_ready n = \<lparr>pool_ioServices = replicate n busy_service, pool_works = replicate n True,
     pool_threads = replicate n True, pool_next = 0\<rparr>"

lemma replicate_prefix_update:
  assumes "k < n"
  shows "(replicate k a @ replicate (n - k) b)[k := a] = replicate (Suc k) a @ replicate (n - Suc k) b"
proof -
  obtain d where "n - k = Suc d" "n - Suc k = d" using assms by (cases "n - k") auto
  then show ?thesis by (simp add: list_update_append replicate_append_same)
qed

lemma fold_attach_work:
  assumes "k \<le> n"
  shows "fold attach_work [0..<k] \<lparr>pool_ioServices = replicate n new_io_service, pool_works = replicate n False, pool_threads = [], pool_next = 0\<rparr> =
    \<lparr>pool_ioServices = replicate k busy_service @ replicate (n - k) new_io_service, pool_works = replicate k True @ replicate (n - k) False,
     pool_threads = [], pool_next = 0\<rparr>"
  using assms
proof (induction k)
  case (Suc k)
  have "(replicate k busy_service @ replicate (n - k) new_io_service) ! k = new_io_service"
    using Suc.prems by (simp add: nth_append)
  moreover have "new_io_service\<lparr>io_work := True\<rparr> = busy_service" by (simp add: new_io_service_def busy_service_def)
  ultimately show ?case
    using Suc by (simp add: attach_work_def replicate_prefix_update del: replicate_Suc)
qed simp

lemma fold_start_thread:
  "fold start_thread [0..<k] p = p\<lparr>pool_threads := pool_threads p @ replicate k True\<rparr>"
  by (induction k) (simp_all add: start_thread_def push_back_def replicate_append_same)

lemma pool3_ctor_ready: "pool3_ctor n = pool_ready n"
  by (simp add: pool3_ctor_def fold_attach_work fold_start_thread pool_ready_def)

lemma pool4_ctor_ready: "pool4_ctor n = pool_ready (if n = 0 then 1 else n)"
  by (simp add: pool4_ctor_def fold_attach_work [of 1 1, simplified] fold_attach_work fold_start_thread pool_ready_def)

section \<open>Round robin\<close>

text \<open>Successive calls of a \<open>GetIOService\<close>, with the contexts they return.\<close>

fun get_services :: "(AsioIOServicePool \<Rightarrow> (AsioIOServicePool \<times> nat) res) \<Rightarrow> nat \<Rightarrow> AsioIOServicePool \<Rightarrow> (AsioIOServicePool \<times> nat list) res" where
  "get_services get 0 p = Inr (p, [])"
| "get_services get (Suc k) p = bindr (get p) (\<lambda>(p, c). bindr (get_services get k p) (\<lambda>(p, cs). Inr (p, c # cs)))"

lemma pool3_get:
  assumes "pool_next p < length (pool_ioServices p)"
  shows "pool3_GetIOService p = Inr (p\<lparr>pool_next := Suc (pool_next p) mod length (pool_ioServices p)\<rparr>, pool_next p)"
proof (cases "Suc (pool_next p) = length (pool_ioServices p)")
  case False
  with assms have "Suc (pool_next p) < length (pool_ioServices p)" by simp
  with assms False show ?thesis by (simp add: pool3_GetIOService_def Let_def)
qed (use assms in \<open>simp add: pool3_GetIOService_def Let_def\<close>)

lemma get_services_from:
  assumes "0 < length (pool_ioServices p)" and "pool_next p < length (pool_ioServices p)"
  shows "get_services pool3_GetIOService k p =
     Inr (p\<lparr>pool_next := (pool_next p + k) mod length (pool_ioServices p)\<rparr>,
          map (\<lambda>i. (pool_next p + i) mod length (pool_ioServices p)) [0..<k])"
  using assms
proof (induction k arbitrary: p)
  case (Suc k)
  let ?n = "length (pool_ioServices p)"
  let ?p = "p\<lparr>pool_next := Suc (pool_next p) mod ?n\<rparr>"
  have "(Suc (pool_next p) mod ?n + i) mod ?n = (pool_next p + Suc i) mod ?n" for i
    by (simp add: mod_add_left_eq)
  then show ?case
    using Suc.IH [of ?p] Suc.prems pool3_get [OF Suc.prems(2)] by (simp add: upt_Suc_map del: upt_Suc)
qed simp

lemma pool4_get_eq: "pool4_GetIOService = pool3_GetIOService"
  by (simp add: fun_eq_iff pool4_GetIOService_def pool3_GetIOService_def)

section \<open>Stopping\<close>

lemma join_threads_all:
  assumes "\<And>c. c \<in> set cs \<Longrightarrow> returns c" and "length ts = length cs" and "check \<or> False \<notin> set ts"
  shows "join_threads returns check cs ts = Some (Inr (replicate (length cs) False))"
  using assms
proof (induction cs arbitrary: ts)
  case (Cons c cs)
  then obtain t ts' where "ts = t # ts'" by (cases ts) auto
  with Cons show ?case by (cases t) auto
qed simp

lemma join_threads_blocks:
  assumes "c \<in> set cs" and "\<not> returns c" and "length ts = length cs" and "False \<notin> set ts"
  shows "join_threads returns check cs ts = None"
  using assms
proof (induction cs arbitrary: ts)
  case (Cons c' cs)
  then obtain t ts' where ts: "ts = t # ts'" by (cases ts) auto
  show ?case
  proof (cases "returns c'")
    case True
    with Cons.prems ts have "join_threads returns check cs ts' = None" by (intro Cons.IH) auto
    with True Cons.prems ts show ?thesis by simp
  qed (use Cons.prems ts in simp)
qed simp

section \<open>Properties\<close>

text \<open>
  The pool of the pooled server hands its contexts out in turn: on a fresh pool of \<open>n\<close> contexts
  the \<open>i\<close>-th call returns the context \<open>i mod n\<close>, so any \<open>n\<close> successive sessions are on \<open>n\<close>
  different contexts; a pool of size 0, which \<open>hardware_concurrency\<close> may ask for, is indexed out
  of bounds by the first call.
\<close>

theorem pool_round_robin:
  "get_services pool3_GetIOService k (pool3_ctor n) =
     (if n = 0 \<and> 0 < k then Inl Out_Of_Bounds
      else Inr (pool_ready n\<lparr>pool_next := k mod n\<rparr>, map (\<lambda>i. i mod n) [0..<k]))"
proof (cases "n = 0")
  case True
  then show ?thesis by (cases k) (simp_all add: pool3_ctor_ready pool_ready_def pool3_GetIOService_def)
next
  case False
  then show ?thesis
    using get_services_from [of "pool_ready n" k] by (simp add: pool3_ctor_ready pool_ready_def)
qed

text \<open>
  The repaired pool of the coroutine server is the old one for every size but 0, where it is the
  old one of size 1: the same contexts, work objects and threads after construction, and the same
  answers to any number of calls, none of which is out of bounds.
\<close>

theorem pools_equivalent:
  "pool4_ctor n = pool3_ctor (max 1 n) \<and>
   get_services pool4_GetIOService k (pool4_ctor n) = get_services pool3_GetIOService k (pool3_ctor (max 1 n)) \<and>
   get_services pool4_GetIOService k (pool4_ctor n) \<noteq> Inl Out_Of_Bounds"
proof -
  have c: "pool4_ctor n = pool_ready (max 1 n)" by (simp add: pool4_ctor_ready max_def)
  moreover have "get_services pool3_GetIOService k (pool_ready (max 1 n)) \<noteq> Inl Out_Of_Bounds"
    using get_services_from [of "pool_ready (max 1 n)" k] by (simp add: pool_ready_def)
  ultimately show ?thesis by (simp add: pool4_get_eq pool3_ctor_ready)
qed

text \<open>
  Stopping. asio's \<open>run\<close> returns on a stopped context, and does not return from a context that is
  not stopped while operations are outstanding. Then \<open>Stop\<close> of the pooled server blocks for ever
  while one session still waits for its client, and \<open>Stop\<close> of the coroutine server always returns
  with every thread joined and every context stopped, also when it is called again.
\<close>

theorem pool_stop:
  assumes "\<And>c. io_stopped c \<Longrightarrow> returns c" and "\<And>c. \<not> io_stopped c \<Longrightarrow> 0 < io_pending c \<Longrightarrow> \<not> returns c"
    and "length (pool_threads p) = length (pool_ioServices p)"
  shows "(c \<in> set (pool_ioServices p) \<and> \<not> io_stopped c \<and> 0 < io_pending c \<and> False \<notin> set (pool_threads p) \<longrightarrow>
           pool3_Stop returns p = None) \<and>
     (\<exists>p'. pool4_Stop returns p = Some (Inr p') \<and> True \<notin> set (pool_threads p') \<and>
        (\<forall>c \<in> set (pool_ioServices p'). io_stopped c \<and> \<not> io_work c) \<and> pool4_Stop returns p' = Some (Inr p'))"
proof (intro conjI impI)
  assume c: "c \<in> set (pool_ioServices p) \<and> \<not> io_stopped c \<and> 0 < io_pending c \<and> False \<notin> set (pool_threads p)"
  let ?cs = "pool_ioServices (reset_works p)"
  have "c\<lparr>io_work := False\<rparr> \<in> set ?cs" "\<not> returns (c\<lparr>io_work := False\<rparr>)"
    using c assms(2) by (simp_all add: reset_works_def)
  then have "join_threads returns False ?cs (pool_threads p) = None"
    using c assms(3) by (intro join_threads_blocks) (simp_all add: reset_works_def)
  then show "pool3_Stop returns p = None" by (simp add: pool3_Stop_def reset_works_def)
next
  define p1 where "p1 = stop_services (reset_works p)"
  define p' where "p' = p1\<lparr>pool_threads := replicate (length (pool_ioServices p)) False\<rparr>"
  have st: "io_stopped c \<and> \<not> io_work c" if "c \<in> set (pool_ioServices p1)" for c
    using that by (auto simp: p1_def stop_services_def reset_works_def)
  have len: "length (pool_ioServices p1) = length (pool_ioServices p)" "pool_threads p1 = pool_threads p"
    by (simp_all add: p1_def stop_services_def reset_works_def)
  have "pool4_Stop returns p = Some (Inr p')"
    using join_threads_all [of "pool_ioServices p1" returns "pool_threads p1" True] st assms(1,3) len
    by (simp add: pool4_Stop_def p'_def flip: p1_def)
  moreover have "stop_services (reset_works p') = p'"
    by (simp add: p'_def p1_def stop_services_def reset_works_def comp_def)
  then have "pool4_Stop returns p' = Some (Inr p')"
    using join_threads_all [of "pool_ioServices p'" returns "pool_threads p'" True] st assms(1) len
    by (simp add: pool4_Stop_def) (simp add: p'_def)
  ultimately show "\<exists>p'. pool4_Stop returns p = Some (Inr p') \<and> True \<notin> set (pool_threads p') \<and>
        (\<forall>c \<in> set (pool_ioServices p'). io_stopped c \<and> \<not> io_work c) \<and> pool4_Stop returns p' = Some (Inr p')"
    using st by (intro exI [of _ p']) (simp add: p'_def)
qed

theorem pool_stop_witness:
  "pool3_Stop (\<lambda>c. io_stopped c \<or> \<not> io_work c \<and> io_pending c = 0)
     (pool_ready 2\<lparr>pool_ioServices := [busy_service, busy_service\<lparr>io_pending := 1\<rparr>]\<rparr>) = None"
  using pool_stop [of "\<lambda>c. io_stopped c \<or> \<not> io_work c \<and> io_pending c = 0"
      "pool_ready 2\<lparr>pool_ioServices := [busy_service, busy_service\<lparr>io_pending := 1\<rparr>]\<rparr>" "busy_service\<lparr>io_pending := 1\<rparr>"]
  by (simp add: pool_ready_def busy_service_def)

section \<open>The server over the pool\<close>

text \<open>
  What happens to a server: the pending accept completes, with or without an error, or a session
  takes itself out of the map.
\<close>

inductive server_step :: "nat \<Rightarrow> tlv_server \<Rightarrow> tlv_server \<Rightarrow> bool" for hw where
  accept: "tv_accepting sv = Some p \<Longrightarrow> tlv_HandleAccept hw uuid p err sv = Inr sv' \<Longrightarrow> server_step hw sv sv'"
| clear: "server_step hw sv (tlv_ClearSession uuid sv)"

inductive_cases server_stepE: "server_step hw sv sv'"

definition server_wf :: "nat \<Rightarrow> tlv_server \<Rightarrow> bool" where
  "server_wf n sv \<longleftrightarrow> tv_pool sv = \<lparr>s_flag = True, s_instance = Some (pool_ready n\<lparr>pool_next := tv_new sv mod n\<rparr>)\<rparr> \<and>
     0 < tv_new sv \<and> tv_accepting sv = Some (tv_new sv - 1) \<and>
     (\<forall>u p. map_find u (tv_sessions sv) = Some p \<longrightarrow> p < tv_new sv \<and> ts_uuid (tv_heap sv p) = u) \<and>
     (\<forall>p < tv_new sv. tv_context sv p = p mod n)"

lemma tlv_StartAccept_ready:
  assumes "0 < n" and "GetInstance (pool3_ctor n) (tv_pool sv) =
      (\<lparr>s_flag = True, s_instance = Some (pool_ready n\<lparr>pool_next := k mod n\<rparr>)\<rparr>, Some (pool_ready n\<lparr>pool_next := k mod n\<rparr>))"
  shows "tlv_StartAccept n uuid sv = Inr (sv\<lparr>tv_pool := \<lparr>s_flag = True, s_instance = Some (pool_ready n\<lparr>pool_next := Suc k mod n\<rparr>)\<rparr>,
     tv_heap := (tv_heap sv)(tv_new sv := tlv_Session uuid), tv_context := (tv_context sv)(tv_new sv := k mod n),
     tv_new := Suc (tv_new sv), tv_accepting := Some (tv_new sv)\<rparr>)"
proof -
  have "pool3_GetIOService (pool_ready n\<lparr>pool_next := k mod n\<rparr>) = Inr (pool_ready n\<lparr>pool_next := Suc k mod n\<rparr>, k mod n)"
    using assms(1) pool3_get [of "pool_ready n\<lparr>pool_next := k mod n\<rparr>"] by (simp add: pool_ready_def mod_Suc_eq)
  with assms(2) show ?thesis by (simp add: tlv_StartAccept_def Let_def)
qed

lemma server_wf_init:
  assumes "0 < n"
  shows "\<exists>sv. tlv_Server n uuid = Inr sv \<and> server_wf n sv"
  using assms tlv_StartAccept_ready [OF assms, of _ 0 uuid]
  by (simp add: tlv_Server_def GetInstance_def singleton_init_def pool3_ctor_ready server_wf_def map_find_def) (simp add: pool_ready_def)

lemma server_wf_accept:
  assumes "0 < n" and wf: "server_wf n sv"
  shows "\<exists>sv'. tlv_HandleAccept n uuid (tv_new sv - 1) err sv = Inr sv' \<and> server_wf n sv' \<and>
     (err = None \<longrightarrow> map_find (ts_uuid (tv_heap sv (tv_new sv - 1))) (tv_sessions sv) = None \<longrightarrow>
        map_find (ts_uuid (tv_heap sv (tv_new sv - 1))) (tv_sessions sv') = Some (tv_new sv - 1) \<and>
        ts_read (tv_heap sv' (tv_new sv - 1)) = Read_Head 4)"
proof -
  let ?p = "tv_new sv - 1"
  define u where "u = ts_uuid (tv_heap sv ?p)"
  define sv1 where "sv1 = (if err = None then sv\<lparr>tv_accepting := None, tv_heap := (tv_heap sv)(?p := tlv_Start (tv_heap sv ?p)),
      tv_sessions := map_insert u ?p (tv_sessions sv)\<rparr> else sv\<lparr>tv_accepting := None\<rparr>)"
  have same: "tv_pool sv1 = tv_pool sv" "tv_new sv1 = tv_new sv" "tv_context sv1 = tv_context sv" by (simp_all add: sv1_def)
  have uuid: "ts_uuid (tv_heap sv1 q) = ts_uuid (tv_heap sv q)" for q by (simp add: sv1_def tlv_Start_def)
  have p: "?p < tv_new sv" using wf by (simp add: server_wf_def)
  have ss: "q < tv_new sv \<and> ts_uuid (tv_heap sv q) = v" if "map_find v (tv_sessions sv1) = Some q" for v q
  proof (cases "map_find v (tv_sessions sv) = Some q")
    case True
    with wf show ?thesis unfolding server_wf_def by blast
  next
    case False
    with that have "v = u \<and> q = ?p" by (auto simp: sv1_def map_find_def map_insert_def split: if_splits option.splits)
    with p show ?thesis by (simp add: u_def)
  qed
  define sv2 where "sv2 = sv1\<lparr>tv_pool := \<lparr>s_flag = True, s_instance = Some (pool_ready n\<lparr>pool_next := Suc (tv_new sv) mod n\<rparr>)\<rparr>,
     tv_heap := (tv_heap sv1)(tv_new sv1 := tlv_Session uuid), tv_context := (tv_context sv1)(tv_new sv1 := tv_new sv mod n),
     tv_new := Suc (tv_new sv1), tv_accepting := Some (tv_new sv1)\<rparr>"
  have "GetInstance (pool3_ctor n) (tv_pool sv1) = (\<lparr>s_flag = True, s_instance = Some (pool_ready n\<lparr>pool_next := tv_new sv mod n\<rparr>)\<rparr>,
      Some (pool_ready n\<lparr>pool_next := tv_new sv mod n\<rparr>))"
    using wf same(1) by (simp add: GetInstance_def server_wf_def)
  from tlv_StartAccept_ready [OF assms(1) this] have "tlv_StartAccept n uuid sv1 = Inr sv2" by (simp add: sv2_def)
  moreover have "tlv_HandleAccept n uuid ?p err sv = tlv_StartAccept n uuid sv1"
    by (cases err) (simp_all add: tlv_HandleAccept_def sv1_def u_def tlv_Start_def Let_def)
  moreover have "server_wf n sv2"
    using wf ss uuid same unfolding server_wf_def sv2_def by (auto simp: less_Suc_eq dest: ss)
  moreover have "map_find u (tv_sessions sv2) = Some ?p \<and> ts_read (tv_heap sv2 ?p) = Read_Head 4"
    if "err = None" "map_find u (tv_sessions sv) = None"
    using that p by (simp add: sv2_def sv1_def map_defs tlv_Start_def HEAD_TOTAL_LEN_def)
  ultimately show ?thesis unfolding u_def by (intro exI [of _ sv2]) simp
qed

lemma server_wf_clear: "server_wf n sv \<Longrightarrow> server_wf n (tlv_ClearSession uuid sv)"
  by (simp add: server_wf_def tlv_ClearSession_def std_map.find_erase)

lemma server_wf_step:
  assumes "server_step n sv sv'" and "0 < n" and "server_wf n sv"
  shows "server_wf n sv'"
  using assms(1)
proof cases
  case (accept p uuid err)
  with assms(3) have "p = tv_new sv - 1" by (simp add: server_wf_def)
  with accept server_wf_accept [OF assms(2,3), of uuid err] show ?thesis by auto
next
  case (clear uuid)
  with assms(3) show ?thesis by (simp add: server_wf_clear)
qed

lemma server_wf_reachable: "(server_step n)\<^sup>*\<^sup>* sv sv' \<Longrightarrow> 0 < n \<Longrightarrow> server_wf n sv \<Longrightarrow> server_wf n sv'"
  by (induction rule: rtranclp_induct) (auto intro: server_wf_step)

text \<open>
  C12. The server stays well-formed whatever its clients do: after its construction over a machine
  with \<open>n\<close> processors, and any sequence of accepts, failed accepts and cleared sessions, an accept is
  pending on a fresh session, the map names every session by its own uuid, the \<open>p\<close>-th session made
  runs on the context \<open>p mod n\<close>, the next accept succeeds, and an accepted session is found in the
  map and waits for its first header.
\<close>

theorem server_well_formed:
  assumes "0 < n" and "tlv_Server n uuid0 = Inr sv0" and "(server_step n)\<^sup>*\<^sup>* sv0 sv"
  shows "\<exists>p sv'. tv_accepting sv = Some p \<and> tv_new sv = Suc p \<and>
     (\<forall>u q. map_find u (tv_sessions sv) = Some q \<longrightarrow> ts_uuid (tv_heap sv q) = u \<and> tv_context sv q = q mod n) \<and>
     tlv_HandleAccept n uuid p err sv = Inr sv' \<and>
     (err = None \<longrightarrow> map_find (ts_uuid (tv_heap sv p)) (tv_sessions sv) = None \<longrightarrow>
        map_find (ts_uuid (tv_heap sv p)) (tv_sessions sv') = Some p \<and> ts_read (tv_heap sv' p) = Read_Head 4)"
proof -
  have wf: "server_wf n sv" using server_wf_reachable [OF assms(3,1)] server_wf_init [OF assms(1), of uuid0] assms(2) by simp
  let ?p = "tv_new sv - 1"
  from server_wf_accept [OF assms(1) wf, of uuid err] obtain sv' where
    sv': "tlv_HandleAccept n uuid ?p err sv = Inr sv'" and "server_wf n sv'" and acc: "err = None \<longrightarrow>
      map_find (ts_uuid (tv_heap sv ?p)) (tv_sessions sv) = None \<longrightarrow>
      map_find (ts_uuid (tv_heap sv ?p)) (tv_sessions sv') = Some ?p \<and> ts_read (tv_heap sv' ?p) = Read_Head 4"
    by (elim exE conjE) (rule that)
  have "tv_accepting sv = Some ?p" "tv_new sv = Suc ?p"
    "\<forall>u q. map_find u (tv_sessions sv) = Some q \<longrightarrow> ts_uuid (tv_heap sv q) = u \<and> tv_context sv q = q mod n"
    using wf unfolding server_wf_def by simp_all
  with sv' acc show ?thesis by (intro exI conjI)
qed

theorem server_well_formed_witness:
  "\<exists>sv0 p sv'. tlv_Server 2 ''a'' = Inr sv0 \<and> tv_accepting sv0 = Some p \<and> tlv_HandleAccept 2 ''b'' p None sv0 = Inr sv' \<and>
     map_find ''a'' (tv_sessions sv') = Some p"
proof -
  obtain sv0 where sv0: "tlv_Server 2 ''a'' = Inr sv0" using server_wf_init [of 2 "''a''"] by auto
  have z: "tv_sessions sv0 = Map.empty" "tv_heap sv0 0 = tlv_Session ''a''" "tv_accepting sv0 = Some 0"
    using sv0 by (auto simp: tlv_Server_def tlv_StartAccept_def GetInstance_def singleton_init_def bindr_eq_Inr Let_def)
  from server_well_formed [OF _ sv0 rtranclp.rtrancl_refl, of "''b''" None] show ?thesis
    using sv0 z by (auto simp: map_find_def tlv_Session_def)
qed

end
