(* ===== verification/Coro_Server.thy ===== *)
theory Coro_Server
  imports Logic_System IO_Pool
begin

text \<open>
  The session of \<open>4. CoroutineAsyncServer\<close> (\<open>src/Session.cpp\<close>). Its sending side and its read
  handlers are copies of those of \<open>3. AsyncServerIOservicepool\<close>, translated here again and proved
  to be the same functions; messages are received by a coroutine instead, which is the subject of
  this theory. The records of sessions and nodes are shared: the classes are the same.
\<close>

section \<open>Sending\<close>

definition coro_Close :: "tlv_session \<Rightarrow> tlv_session" where
  "coro_Close s = s\<lparr>ts_open := False, ts_b_close := True\<rparr>"

definition coro_Send :: "char list \<Rightarrow> int \<Rightarrow> int \<Rightarrow> tlv_session \<Rightarrow> tlv_session res" where
  "coro_Send msg max_len msgid s =
     (let send_que_size = int (length (ts_send_que s)) in
      if send_que_size > MAX_SENDQUE then Inr s
      else
        bindr (SendNode msg max_len msgid) (\<lambda>node.
        let s = s\<lparr>ts_send_que := push_back node (ts_send_que s)\<rparr> in
        if send_que_size > 0 then Inr s
        else
          bindr (front (ts_send_que s)) (\<lambda>msgnode.
          Inr (s\<lparr>ts_writes := ts_writes s @ [take (nat (node_total_len msgnode)) (node_data msgnode)]\<rparr>))))"

text \<open>The overload for strings passes \<open>c_str()\<close> and \<open>length()\<close>, which becomes a \<open>short\<close>.\<close>

definition coro_Send_string :: "string \<Rightarrow> int \<Rightarrow> tlv_session \<Rightarrow> tlv_session res" where
  "coro_Send_string msg msgid s =
     (let send_que_size = int (length (ts_send_que s)) in
      if send_que_size > MAX_SENDQUE then Inr s
      else
        bindr (SendNode (msg @ [NUL]) (to_short (int (length msg))) (to_short msgid)) (\<lambda>node.
        let s = s\<lparr>ts_send_que := push_back node (ts_send_que s)\<rparr> in
        if send_que_size > 0 then Inr s
        else
          bindr (front (ts_send_que s)) (\<lambda>msgnode.
          Inr (s\<lparr>ts_writes := ts_writes s @ [take (nat (node_total_len msgnode)) (node_data msgnode)]\<rparr>))))"

definition coro_HandleWrite :: "asio_error option \<Rightarrow> tlv_session \<Rightarrow> sessions \<Rightarrow> (tlv_session \<times> sessions) res" where
  "coro_HandleWrite err s ss =
     (let s = s\<lparr>ts_writes := tl (ts_writes s)\<rparr> in
      case err of
        None \<Rightarrow>
          bindr (pop_front (ts_send_que s)) (\<lambda>q.
          let s = s\<lparr>ts_send_que := q\<rparr> in
          if q = [] then Inr (s, ss)
          else bindr (front q) (\<lambda>msgnode.
            Inr (s\<lparr>ts_writes := ts_writes s @ [take (nat (node_total_len msgnode)) (node_data msgnode)]\<rparr>, ss)))
      | Some e \<Rightarrow> Inr (coro_Close s, map_erase (ts_uuid s) ss))"

definition coro_HandleReadHead ::
  "asio_error option \<Rightarrow> nat \<Rightarrow> char list \<Rightarrow> tlv_session \<Rightarrow> sessions \<Rightarrow> (tlv_session \<times> sessions) res" where
  "coro_HandleReadHead err bytes_transferred bs s ss =
     (let s = s\<lparr>ts_read := No_Read, ts_recv_head := fill_node bs (ts_recv_head s)\<rparr>;
          closed = (coro_Close s, map_erase (ts_uuid s) ss);
          d = node_data (ts_recv_head s);
          msg_id = short_of (word16 d);
          msg_len = short_of (word16 (drop (nat HEAD_ID_LEN) d)) in
      if err \<noteq> None then Inr closed
      else if int bytes_transferred \<noteq> HEAD_TOTAL_LEN then Inr closed
      else if msg_id \<le> 0 \<or> msg_id > MAX_LENGTH then Inr closed
      else if msg_len \<le> 0 \<or> msg_len > MAX_LENGTH then Inr closed
      else
        bindr (RecvNode msg_len msg_id) (\<lambda>m.
        Inr (s\<lparr>ts_recv_msg := Some m, ts_read := Read_Body (nat (node_total_len m))\<rparr>, ss)))"

definition coro_HandleReadBody ::
  "asio_error option \<Rightarrow> nat \<Rightarrow> char list \<Rightarrow> tlv_session \<Rightarrow> sessions \<Rightarrow> (tlv_session \<times> sessions \<times> tlv_node list) res" where
  "coro_HandleReadBody err bytes_transferred bs s ss =
     (case ts_recv_msg s of
        None \<Rightarrow> Inl Null_Deref
      | Some m \<Rightarrow>
          (let m = fill_tlv bs m;
               s = s\<lparr>ts_read := No_Read, ts_recv_msg := Some m\<rparr> in
           if err \<noteq> None \<or> int bytes_transferred \<noteq> node_total_len m
           then Inr (coro_Close s, map_erase (ts_uuid s) ss, [])
           else
             bindr (store (node_data m) (node_total_len m) NUL) (\<lambda>d.
             let m = m\<lparr>node_cur_len := node_total_len m, node_data := d\<rparr> in
             Inr (s\<lparr>ts_recv_msg := Some m, ts_recv_head := node_clear (ts_recv_head s),
                    ts_read := Read_Head (nat HEAD_TOTAL_LEN)\<rparr>, ss, [m]))))"

section \<open>The receiving coroutine\<close>

text \<open>
  The coroutine is run on \<open>inp\<close>, all that will arrive until the connection ends. \<open>co_await
  async_read\<close> fills its buffer or throws; reading into an empty buffer gives 0 bytes at once.
\<close>

definition co_read :: "nat \<Rightarrow> char list \<Rightarrow> (char list \<times> char list) option" where
  "co_read n inp = (if n \<le> length inp then Some (take n inp, drop n inp) else None)"

definition coro_catch :: "tlv_session \<Rightarrow> sessions \<Rightarrow> tlv_session \<times> sessions" where
  "coro_catch s ss = (coro_Close s, map_erase (ts_uuid s) ss)"

text \<open>
  One turn of the loop, in two parts: the body of a message, and the header before it. The result
  is the session, the map, and \<open>None\<close> if the coroutine is over, or the message posted and the
  input that is left. \<open>ts_open\<close> says whether \<open>Close()\<close> has been called. It does not follow the socket
  to its end: once the session is out of the map, the coroutine is over and no message or write holds
  a pointer to it, the session is destroyed and its socket is closed with it, \<open>Close()\<close> or not.
\<close>

definition coro_body ::
  "int \<Rightarrow> int \<Rightarrow> char list \<Rightarrow> tlv_session \<Rightarrow> sessions \<Rightarrow> ((tlv_session \<times> sessions) \<times> (tlv_node \<times> char list) option) res" where
  "coro_body msg_len msg_id inp s ss =
     (case RecvNode msg_len msg_id of
        Inl e \<Rightarrow> if is_exception e then Inr (coro_catch s ss, None) else Inl e
      | Inr m \<Rightarrow>
          (let s = s\<lparr>ts_recv_msg := Some m\<rparr> in
           case co_read (nat (node_total_len m)) inp of
             None \<Rightarrow> Inr (coro_catch s ss, None)
           | Some (bs, inp) \<Rightarrow>
               (let m = fill_tlv bs m; s = s\<lparr>ts_recv_msg := Some m\<rparr> in
                if length bs = 0 then Inr (coro_catch s ss, None)
                else
                  bindr (store (node_data m) (node_total_len m) NUL) (\<lambda>d.
                  let m = m\<lparr>node_cur_len := node_total_len m, node_data := d\<rparr> in
                  Inr ((s\<lparr>ts_recv_msg := Some m\<rparr>, ss), Some (m, inp))))))"

definition coro_turn ::
  "char list \<Rightarrow> tlv_session \<Rightarrow> sessions \<Rightarrow> ((tlv_session \<times> sessions) \<times> (tlv_node \<times> char list) option) res" where
  "coro_turn inp s ss =
     (let s = s\<lparr>ts_recv_head := node_clear (ts_recv_head s)\<rparr> in
      case co_read (nat HEAD_TOTAL_LEN) inp of
        None \<Rightarrow> Inr (coro_catch s ss, None)
      | Some (bs, inp) \<Rightarrow>
          (let s = s\<lparr>ts_recv_head := fill_node bs (ts_recv_head s)\<rparr> in
           if length bs = 0 then Inr (coro_catch s ss, None)
           else
             (let msg_id = short_of (word16 (node_data (ts_recv_head s))) in
              if msg_id > MAX_LENGTH then Inr ((s, map_erase (ts_uuid s) ss), None)
              else
                (let msg_len = short_of (word16 (drop (nat HEAD_ID_LEN) (node_data (ts_recv_head s)))) in
                 if msg_len > MAX_LENGTH then Inr ((s, map_erase (ts_uuid s) ss), None)
                 else coro_body msg_len msg_id inp s ss))))"

lemma coro_body_consumes: "coro_body l i inp s ss = Inr (r, Some (m, rest)) \<Longrightarrow> length rest \<le> length inp"
  by (auto simp: coro_body_def Let_def co_read_def bindr_eq_Inr split: if_splits sum.splits)

lemma coro_turn_header:
  assumes "4 \<le> length inp"
  shows "coro_turn inp s ss =
     (let s1 = s\<lparr>ts_recv_head := fill_node (take 4 inp) (node_clear (ts_recv_head s))\<rparr>;
          i = short_of (word16 (take 4 inp @ drop 4 (node_data (node_clear (ts_recv_head s)))));
          n = short_of (word16 (drop 2 (take 4 inp @ drop 4 (node_data (node_clear (ts_recv_head s)))))) in
      if 2048 < i \<or> 2048 < n then Inr ((s1, map_erase (ts_uuid s) ss), None)
      else coro_body n i (drop 4 inp) s1 ss)"
proof -
  have l: "length (take 4 inp) = 4" using assms by simp
  have "inp \<noteq> []" using assms by auto
  with assms show ?thesis
    unfolding coro_turn_def co_read_def HEAD_TOTAL_LEN_def HEAD_ID_LEN_def MAX_LENGTH_def Let_def
    by (simp add: fill_node_def l)
qed

lemma coro_turn_consumes:
  assumes "coro_turn inp s ss = Inr (r, Some (m, rest))"
  shows "length rest < length inp"
proof (cases "4 \<le> length inp")
  case True
  from assms have "length rest \<le> length (drop 4 inp)"
    unfolding coro_turn_header [OF True] Let_def by (auto dest: coro_body_consumes split: if_splits)
  with True show ?thesis by simp
next
  case False
  with assms show ?thesis by (simp add: coro_turn_def co_read_def HEAD_TOTAL_LEN_def)
qed

function coro_loop :: "char list \<Rightarrow> tlv_session \<Rightarrow> sessions \<Rightarrow> (tlv_session \<times> sessions \<times> tlv_node list) res" where
  "coro_loop inp s ss =
     (if ts_b_close s then Inr (s, ss, [])
      else
        (case coro_turn inp s ss of
           Inl e \<Rightarrow> Inl e
         | Inr ((s, ss), None) \<Rightarrow> Inr (s, ss, [])
         | Inr ((s, ss), Some (m, inp)) \<Rightarrow>
             bindr (coro_loop inp s ss) (\<lambda>(s, ss, ms). Inr (s, ss, m # ms))))"
  by pat_completeness auto
termination
  by (relation "measure (\<lambda>(inp, s, ss). length inp)") (auto dest: coro_turn_consumes)

declare coro_loop.simps [simp del]

definition coro_Start :: "char list \<Rightarrow> tlv_session \<Rightarrow> sessions \<Rightarrow> (tlv_session \<times> sessions \<times> tlv_node list) res" where
  "coro_Start inp s ss = coro_loop inp (s\<lparr>ts_recv_head := node_clear (ts_recv_head s)\<rparr>) ss"

section \<open>One frame\<close>

lemma tlv_frame_split: "tlv_frame i msg = bytes16 (word_of_int i) @ bytes16 (word_of_int (int (length msg))) @ msg"
  by (simp add: tlv_frame_def)

lemma co_read_append: "length a = n \<Longrightarrow> co_read n (a @ b) = Some (a, b)"
  by (auto simp: co_read_def)

definition valid_message :: "int \<times> string \<Rightarrow> bool" where
  "valid_message = (\<lambda>(i, msg). 0 < i \<and> i \<le> 2048 \<and> 0 < length msg \<and> length msg \<le> 2048)"

lemma fill_received:
  "fill_tlv msg \<lparr>node_cur_len = 0, node_total_len = int (length msg), node_data = replicate (length msg + 1) NUL, node_msg_id = i\<rparr> =
     \<lparr>node_cur_len = 0, node_total_len = int (length msg), node_data = msg @ [NUL], node_msg_id = i\<rparr>"
proof -
  have "drop (length msg) (replicate (length msg + 1) NUL) = [NUL]"
    by (simp only: drop_replicate add_diff_cancel_left') simp
  then show ?thesis by (simp add: fill_tlv_def del: replicate_Suc drop_replicate)
qed

lemma coro_body_message:
  assumes "0 < length msg"
  shows "coro_body (int (length msg)) i (msg @ rest) s ss =
     Inr ((s\<lparr>ts_recv_msg := Some (tlv_message i msg)\<rparr>, ss), Some (tlv_message i msg, rest))"
proof -
  define m where "m = \<lparr>node_cur_len = 0, node_total_len = int (length msg), node_data = replicate (length msg + 1) NUL, node_msg_id = i\<rparr>"
  have rn: "RecvNode (int (length msg)) i = Inr m"
    using RecvNode_ok [of "int (length msg)" i] by (simp add: m_def)
  have b: "co_read (nat (node_total_len m)) (msg @ rest) = Some (msg, rest)"
    using co_read_append [of msg "length msg" rest] by (simp add: m_def)
  have f: "fill_tlv msg m = \<lparr>node_cur_len = 0, node_total_len = int (length msg), node_data = msg @ [NUL], node_msg_id = i\<rparr>"
    unfolding m_def by (rule fill_received)
  have st: "store (msg @ [NUL]) (int (length msg)) NUL = Inr (msg @ [NUL])" by (simp add: store_def)
  show ?thesis unfolding coro_body_def rn using assms by (simp add: b f st tlv_message_def Let_def)
qed

lemma coro_turn_frame:
  assumes "0 < i" and "i \<le> 2048" and "0 < length msg" and "length msg \<le> 2048"
  shows "\<exists>s'. coro_turn (tlv_frame i msg @ rest) s ss = Inr ((s', ss), Some (tlv_message i msg, rest)) \<and>
     ts_uuid s' = ts_uuid s \<and> ts_b_close s' = ts_b_close s \<and> ts_send_que s' = ts_send_que s \<and> ts_writes s' = ts_writes s"
proof -
  define n where "n = int (length msg)"
  define h where "h = bytes16 (word_of_int i) @ bytes16 (word_of_int n)"
  have h: "take 4 (tlv_frame i msg @ rest) = h" "drop 4 (tlv_frame i msg @ rest) = msg @ rest" "4 \<le> length (tlv_frame i msg @ rest)"
    by (simp_all add: tlv_frame_split h_def n_def)
  have d: "short_of (word16 (h @ x)) = i" "short_of (word16 (drop 2 (h @ x))) = n" for x
    using short_of_bytes [of i] short_of_bytes [of n] assms by (simp_all add: h_def n_def)
  have "n \<le> 2048" "\<not> 2048 < n" using assms(4) by (simp_all add: n_def)
  have "coro_turn (tlv_frame i msg @ rest) s ss =
      coro_body n i (msg @ rest) (s\<lparr>ts_recv_head := fill_node h (node_clear (ts_recv_head s))\<rparr>) ss"
    unfolding coro_turn_header [OF h(3)] h(1,2) Let_def d using assms(2) \<open>\<not> 2048 < n\<close> by simp
  then show ?thesis using coro_body_message [OF assms(3)] by (simp add: n_def)
qed

text \<open>What is left of a stream that ends in the middle of a header, or of a valid frame.\<close>

definition cut_off :: "char list \<Rightarrow> bool" where
  "cut_off partial \<longleftrightarrow> length partial < 4 \<or>
     (\<exists>i msg k. valid_message (i, msg) \<and> k < length (tlv_frame i msg) \<and> partial = take k (tlv_frame i msg))"

lemma cut_offE:
  assumes "cut_off partial"
  obtains "length partial < 4"
  | i msg k where "valid_message (i, msg)" and "k < length msg"
    and "partial = bytes16 (word_of_int i) @ bytes16 (word_of_int (int (length msg))) @ take k msg"
proof (cases "length partial < 4")
  case False
  with assms obtain i msg k where m: "valid_message (i, msg)" "k < length (tlv_frame i msg)" "partial = take k (tlv_frame i msg)"
    by (auto simp: cut_off_def)
  with False have k: "4 \<le> k" by simp
  show thesis
  proof (rule that(2) [OF m(1)])
    show "k - 4 < length msg" using m(2) k by (simp add: tlv_frame_split)
    show "partial = bytes16 (word_of_int i) @ bytes16 (word_of_int (int (length msg))) @ take (k - 4) msg"
      using m(3) k by (simp add: tlv_frame_split take_append)
  qed
qed (rule that(1))

lemma coro_turn_cut:
  assumes "cut_off partial"
  shows "\<exists>s'. coro_turn partial s ss = Inr ((s', map_erase (ts_uuid s) ss), None) \<and> ts_b_close s' \<and> \<not> ts_open s'"
  using assms
proof (cases rule: cut_offE)
  case 1
  then show ?thesis by (simp add: coro_turn_def co_read_def HEAD_TOTAL_LEN_def coro_catch_def coro_Close_def)
next
  case (2 i msg k)
  define n where "n = int (length msg)"
  define h where "h = bytes16 (word_of_int i) @ bytes16 (word_of_int n)"
  have v: "0 < i" "i \<le> 2048" "0 \<le> n" "\<not> 2048 < n" "nat n = length msg" using 2(1) by (simp_all add: valid_message_def n_def)
  have p: "take 4 partial = h" "drop 4 partial = take k msg" "4 \<le> length partial" using 2(2,3) by (simp_all add: h_def n_def)
  have d: "short_of (word16 (h @ x)) = i" "short_of (word16 (drop 2 (h @ x))) = n" for x
    using short_of_bytes [of i] short_of_bytes [of n] v by (simp_all add: h_def)
  have "coro_turn partial s ss = coro_body n i (take k msg) (s\<lparr>ts_recv_head := fill_node h (node_clear (ts_recv_head s))\<rparr>) ss"
    unfolding coro_turn_header [OF p(3)] p(1,2) Let_def d using v by simp
  moreover have "co_read (length msg) (take k msg) = None" using 2(2) by (simp add: co_read_def)
  ultimately show ?thesis
    using RecvNode_ok [of n i] v by (simp add: coro_body_def coro_catch_def coro_Close_def)
qed

lemma coro_loop_frames:
  assumes "list_all valid_message ms" and "cut_off partial" and "\<not> ts_b_close s"
  shows "\<exists>s'. coro_loop (concat (map (\<lambda>(i, msg). tlv_frame i msg) ms) @ partial) s ss =
     Inr (s', map_erase (ts_uuid s) ss, map (\<lambda>(i, msg). tlv_message i msg) ms) \<and> ts_b_close s' \<and> \<not> ts_open s'"
  using assms
proof (induction ms arbitrary: s)
  case Nil
  with coro_turn_cut [OF Nil(2), of s ss] show ?case by (auto simp: coro_loop.simps [of partial])
next
  case (Cons a ms)
  obtain i msg where a: "a = (i, msg)" by (cases a)
  let ?rest = "concat (map (\<lambda>(i, msg). tlv_frame i msg) ms) @ partial"
  obtain s1 where s1: "coro_turn (tlv_frame i msg @ ?rest) s ss = Inr ((s1, ss), Some (tlv_message i msg, ?rest))"
    "ts_uuid s1 = ts_uuid s" "ts_b_close s1 = ts_b_close s"
    using coro_turn_frame [of i msg ?rest s ss] Cons.prems(1) by (auto simp: a valid_message_def)
  obtain s' where "coro_loop ?rest s1 ss = Inr (s', map_erase (ts_uuid s1) ss, map (\<lambda>(i, msg). tlv_message i msg) ms)"
    "ts_b_close s'" "\<not> ts_open s'"
    using Cons.IH [of s1] Cons.prems s1(3) by auto
  with s1 Cons.prems(3) show ?case
    by (simp add: a coro_loop.simps [of "tlv_frame i msg @ ?rest"])
qed

section \<open>The handlers of the pooled server on the same input\<close>

text \<open>asio serves the reads the handlers ask for, until the input ends.\<close>

function tlv_drive :: "char list \<Rightarrow> tlv_session \<Rightarrow> sessions \<Rightarrow> (tlv_session \<times> sessions \<times> tlv_node list) res" where
  "tlv_drive inp s ss =
     (case co_read 4 inp of
        None \<Rightarrow> bindr (tlv_HandleReadHead (Some Eof) (length inp) inp s ss) (\<lambda>(s, ss). Inr (s, ss, []))
      | Some (h, inp1) \<Rightarrow>
          bindr (tlv_HandleReadHead None 4 h s ss) (\<lambda>(s, ss).
          case ts_read s of
            Read_Body n \<Rightarrow>
              (case co_read n inp1 of
                 None \<Rightarrow> tlv_HandleReadBody (Some Eof) (length inp1) inp1 s ss
               | Some (b, inp2) \<Rightarrow>
                   bindr (tlv_HandleReadBody None n b s ss) (\<lambda>(s, ss, ms).
                   if ts_read s = No_Read then Inr (s, ss, ms)
                   else bindr (tlv_drive inp2 s ss) (\<lambda>(s, ss, ms'). Inr (s, ss, ms @ ms'))))
          | _ \<Rightarrow> Inr (s, ss, [])))"
  by pat_completeness auto
termination
  by (relation "measure (\<lambda>(inp, s, ss). length inp)") (auto simp: co_read_def split: if_splits)

declare tlv_drive.simps [simp del]

lemma tlv_drive_frame:
  assumes "0 < i" and "i \<le> 2048" and "0 < length msg" and "length msg \<le> 2048"
  shows "\<exists>s'. tlv_drive (tlv_frame i msg @ rest) s ss =
       bindr (tlv_drive rest s' ss) (\<lambda>(s, ss, ms). Inr (s, ss, tlv_message i msg # ms)) \<and> ts_uuid s' = ts_uuid s"
proof -
  define h where "h = bytes16 (word_of_int i) @ bytes16 (word_of_int (int (length msg)))"
  define s1 where "s1 = s\<lparr>ts_recv_head := fill_node h (ts_recv_head s),
      ts_recv_msg := Some \<lparr>node_cur_len = 0, node_total_len = int (length msg), node_data = replicate (length msg + 1) NUL, node_msg_id = i\<rparr>,
      ts_read := Read_Body (length msg)\<rparr>"
  define s2 where "s2 = s1\<lparr>ts_recv_msg := Some (tlv_message i msg), ts_recv_head := node_clear (ts_recv_head s1), ts_read := Read_Head 4\<rparr>"
  have r: "co_read 4 (tlv_frame i msg @ rest) = Some (h, msg @ rest)" "co_read (length msg) (msg @ rest) = Some (msg, rest)"
    using co_read_append [of h 4 "msg @ rest"] by (simp_all add: tlv_frame_split co_read_append h_def)
  have h: "tlv_HandleReadHead None 4 h s ss = Inr (s1, ss)"
    using tlv_read_head [of i "int (length msg)" s ss, OF assms(1,2)] assms(3,4) unfolding s1_def h_def by simp
  have b: "tlv_HandleReadBody None (length msg) msg s1 ss = Inr (s2, ss, [tlv_message i msg])"
    using tlv_read_body [of s1 msg i ss] unfolding s2_def by (simp add: s1_def)
  have t: "ts_read s1 = Read_Body (length msg)" "ts_read s2 = Read_Head 4" "ts_uuid s2 = ts_uuid s" by (simp_all add: s2_def s1_def)
  have "tlv_drive (tlv_frame i msg @ rest) s ss = bindr (tlv_drive rest s2 ss) (\<lambda>(s, ss, ms). Inr (s, ss, tlv_message i msg # ms))"
    unfolding tlv_drive.simps [of "tlv_frame i msg @ rest"] by (simp add: r h b t)
  with t(3) show ?thesis by blast
qed

lemma tlv_drive_cut:
  assumes "cut_off partial"
  shows "\<exists>s'. tlv_drive partial s ss = Inr (s', map_erase (ts_uuid s) ss, []) \<and> ts_b_close s' \<and> \<not> ts_open s'"
  using assms
proof (cases rule: cut_offE)
  case 1
  then show ?thesis
    by (simp add: tlv_drive.simps [of partial] co_read_def tlv_HandleReadHead_def tlv_fail_def tlv_Close_def Let_def)
next
  case (2 i msg k)
  let ?h = "bytes16 (word_of_int i) @ bytes16 (word_of_int (int (length msg)))"
  define s1 where "s1 = s\<lparr>ts_recv_head := fill_node ?h (ts_recv_head s),
      ts_recv_msg := Some \<lparr>node_cur_len = 0, node_total_len = int (length msg), node_data = replicate (length msg + 1) NUL, node_msg_id = i\<rparr>,
      ts_read := Read_Body (length msg)\<rparr>"
  have r: "co_read 4 partial = Some (?h, take k msg)" "co_read (length msg) (take k msg) = None"
    using co_read_append [of ?h 4 "take k msg"] 2(2,3) by (simp_all add: co_read_def)
  have h: "tlv_HandleReadHead None 4 ?h s ss = Inr (s1, ss)"
    using tlv_read_head [of i "int (length msg)" s ss] 2(1) unfolding s1_def by (simp add: valid_message_def)
  have t: "ts_read s1 = Read_Body (length msg)" "ts_uuid s1 = ts_uuid s" "ts_recv_msg s1 \<noteq> None" by (simp_all add: s1_def)
  have "\<exists>s'. tlv_HandleReadBody (Some Eof) (length (take k msg)) (take k msg) s1 ss = Inr (s', map_erase (ts_uuid s) ss, []) \<and>
      ts_b_close s' \<and> \<not> ts_open s'"
    using t(2,3) by (auto simp: tlv_HandleReadBody_def tlv_fail_def tlv_Close_def Let_def)
  then show ?thesis unfolding tlv_drive.simps [of partial] r(1) using h t(1) r(2) by simp
qed

lemma tlv_drive_frames:
  assumes "list_all valid_message ms" and "cut_off partial"
  shows "\<exists>s'. tlv_drive (concat (map (\<lambda>(i, msg). tlv_frame i msg) ms) @ partial) s ss =
     Inr (s', map_erase (ts_uuid s) ss, map (\<lambda>(i, msg). tlv_message i msg) ms) \<and> ts_b_close s' \<and> \<not> ts_open s'"
  using assms
proof (induction ms arbitrary: s)
  case Nil
  with tlv_drive_cut [OF Nil(2), of s ss] show ?case by simp
next
  case (Cons a ms)
  obtain i msg where a: "a = (i, msg)" by (cases a)
  let ?rest = "concat (map (\<lambda>(i, msg). tlv_frame i msg) ms) @ partial"
  obtain s1 where s1: "tlv_drive (tlv_frame i msg @ ?rest) s ss =
      bindr (tlv_drive ?rest s1 ss) (\<lambda>(s, ss, ms). Inr (s, ss, tlv_message i msg # ms))" "ts_uuid s1 = ts_uuid s"
    using tlv_drive_frame [of i msg ?rest s ss] Cons.prems(1) by (auto simp: a valid_message_def)
  obtain s' where "tlv_drive ?rest s1 ss = Inr (s', map_erase (ts_uuid s1) ss, map (\<lambda>(i, msg). tlv_message i msg) ms)"
    "ts_b_close s'" "\<not> ts_open s'"
    using Cons.IH [of s1] Cons.prems by auto
  with s1 show ?case by (simp add: a)
qed

section \<open>Properties\<close>

text \<open>
  C13. On valid frames the coroutine receives what the handlers receive: if the input is a sequence of
  frames with ids and lengths from 1 to 2048 and ends anywhere in the next header or in the next such
  frame, the coroutine of the new server and the handlers of the old one post the same messages in the
  order of the stream, and both end with \<open>Close()\<close> and the session out of the map. On headers
  outside of these bounds they do differ.
\<close>

theorem coro_agrees_with_handlers:
  assumes "list_all valid_message ms" and "cut_off partial" and "\<not> ts_b_close s"
  shows "\<exists>s1 s2. coro_Start (concat (map (\<lambda>(i, msg). tlv_frame i msg) ms) @ partial) s ss =
       Inr (s1, ss(ts_uuid s := None), map (\<lambda>(i, msg). tlv_message i msg) ms) \<and>
     tlv_drive (concat (map (\<lambda>(i, msg). tlv_frame i msg) ms) @ partial) (tlv_Start s) ss =
       Inr (s2, ss(ts_uuid s := None), map (\<lambda>(i, msg). tlv_message i msg) ms) \<and>
     \<not> ts_open s1 \<and> \<not> ts_open s2"
  using coro_loop_frames [OF assms(1,2), of "s\<lparr>ts_recv_head := node_clear (ts_recv_head s)\<rparr>" ss]
    tlv_drive_frames [OF assms(1,2), of "tlv_Start s" ss] assms(3)
  by (auto simp: coro_Start_def tlv_Start_def map_erase_def)

theorem coro_agrees_with_handlers_witness:
  "\<exists>s1 s2. coro_Start (tlv_frame 1001 ''ab'' @ tlv_frame 7 ''c'' @ take 5 (tlv_frame 8 ''de'')) (tlv_Session ''u'') Map.empty =
       Inr (s1, Map.empty, [tlv_message 1001 ''ab'', tlv_message 7 ''c'']) \<and>
     tlv_drive (tlv_frame 1001 ''ab'' @ tlv_frame 7 ''c'' @ take 5 (tlv_frame 8 ''de'')) (tlv_Start (tlv_Session ''u'')) Map.empty =
       Inr (s2, Map.empty, [tlv_message 1001 ''ab'', tlv_message 7 ''c''])"
proof -
  have "cut_off (take 5 (tlv_frame 8 ''de''))"
    unfolding cut_off_def
    by (rule disjI2, rule exI [of _ 8], rule exI [of _ "''de''"], rule exI [of _ 5]) (simp add: valid_message_def tlv_frame_split)
  then show ?thesis
    using coro_agrees_with_handlers [of "[(1001, ''ab''), (7, ''c'')]" "take 5 (tlv_frame 8 ''de'')" "tlv_Session ''u''" Map.empty]
    by (auto simp: valid_message_def tlv_Session_def)
qed

text \<open>
  The copies of the sending side and of the read handlers are faithful: \<open>Send\<close> in both forms,
  \<open>Close\<close>, \<open>HandleWrite\<close>, \<open>HandleReadHead\<close> and \<open>HandleReadBody\<close> of the coroutine server do exactly what
  those of the pooled server do, so that its properties carry over.
\<close>

theorem coro_handlers_equivalent:
  "coro_Send = tlv_Send \<and> coro_Send_string = tlv_Send_string \<and> coro_Close = tlv_Close \<and> coro_HandleWrite = tlv_HandleWrite \<and>
   coro_HandleReadHead = tlv_HandleReadHead \<and> coro_HandleReadBody = tlv_HandleReadBody"
proof (intro conjI ext)
  show "coro_Send msg n i s = tlv_Send msg n i s" for msg n i s
    by (cases "SendNode msg n i"; cases "ts_send_que s")
      (simp_all add: coro_Send_def tlv_Send_def Let_def queue_defs tlv_async_write_def tlv_bytes_def)
  show "coro_Send_string msg i s = tlv_Send_string msg i s" for msg i s
    by (cases "SendNode (msg @ [NUL]) (to_short (int (length msg))) (to_short i)"; cases "ts_send_que s")
      (simp_all add: coro_Send_string_def tlv_Send_string_def tlv_Send_def Let_def queue_defs tlv_async_write_def tlv_bytes_def)
  show "coro_Close s = tlv_Close s" for s by (simp add: coro_Close_def tlv_Close_def)
  show "coro_HandleWrite err s ss = tlv_HandleWrite err s ss" for err s ss
    by (cases err; cases "ts_send_que s")
      (simp_all add: coro_HandleWrite_def tlv_HandleWrite_def Let_def queue_defs tlv_async_write_def tlv_bytes_def
        coro_Close_def tlv_fail_def tlv_Close_def)
  show "coro_HandleReadHead err n bs s ss = tlv_HandleReadHead err n bs s ss" for err n bs s ss
    by (simp add: coro_HandleReadHead_def tlv_HandleReadHead_def Let_def coro_Close_def tlv_fail_def tlv_Close_def)
  show "coro_HandleReadBody err n bs s ss = tlv_HandleReadBody err n bs s ss" for err n bs s ss
    by (cases "ts_recv_msg s")
      (simp_all add: coro_HandleReadBody_def tlv_HandleReadBody_def Let_def coro_Close_def tlv_fail_def tlv_Close_def)
qed

lemma short_of_word_signed:
  assumes "- 32768 \<le> i" and "i \<le> 32767"
  shows "short_of (word16 (bytes16 (word_of_int i) @ r)) = i"
proof -
  have "short_of (word_of_int i) = i"
    unfolding short_of_def using assms by (simp add: sint_sbintrunc' signed_take_bit_int_eq_self)
  then show ?thesis by (simp add: word16_bytes16)
qed

lemma RecvNode_negative: "n < - 1 \<Longrightarrow> RecvNode n i = Inl Bad_Alloc" "RecvNode (- 1) i = Inl Out_Of_Bounds"
  by (simp_all add: RecvNode_def tlv_msg_node_def new_chars_def store_def)

lemma coro_turn_bytes:
  assumes "- 32768 \<le> i" and "i \<le> 32767" and "- 32768 \<le> n" and "n \<le> 32767"
  shows "coro_turn (bytes16 (word_of_int i) @ bytes16 (word_of_int n) @ rest) s ss =
     (let s1 = s\<lparr>ts_recv_head := fill_node (bytes16 (word_of_int i) @ bytes16 (word_of_int n)) (node_clear (ts_recv_head s))\<rparr> in
      if 2048 < i \<or> 2048 < n then Inr ((s1, map_erase (ts_uuid s) ss), None) else coro_body n i rest s1 ss)"
proof -
  let ?i = "bytes16 (word_of_int i)" and ?n = "bytes16 (word_of_int n)"
  have h: "4 \<le> length (?i @ ?n @ rest)" "take 4 (?i @ ?n @ rest) = ?i @ ?n" "drop 4 (?i @ ?n @ rest) = rest" by simp_all
  have d: "short_of (word16 ((?i @ ?n) @ x)) = i" "short_of (word16 (drop 2 ((?i @ ?n) @ x))) = n" for x
    using short_of_word_signed assms by simp_all
  show ?thesis unfolding coro_turn_header [OF h(1)] h(2,3) d by (simp only: Let_def)
qed

lemma tlv_drive_refused:
  assumes "- 32768 \<le> i" and "i \<le> 32767" and "- 32768 \<le> n" and "n \<le> 32767" and "i \<le> 0 \<or> 2048 < i \<or> n \<le> 0 \<or> 2048 < n"
  shows "\<exists>s'. tlv_drive (bytes16 (word_of_int i) @ bytes16 (word_of_int n) @ rest) s ss = Inr (s', map_erase (ts_uuid s) ss, []) \<and> \<not> ts_open s'"
proof -
  let ?i = "bytes16 (word_of_int i)" and ?n = "bytes16 (word_of_int n)"
  have r: "co_read 4 (?i @ ?n @ rest) = Some (?i @ ?n, rest)" using co_read_append [of "?i @ ?n" 4 rest] by simp
  have d: "short_of (word16 ((?i @ ?n) @ x)) = i" "short_of (word16 (?n @ x)) = n" for x
    using short_of_word_signed assms by simp_all
  have "\<exists>s'. tlv_HandleReadHead None 4 (?i @ ?n) s ss = Inr (s', map_erase (ts_uuid s) ss) \<and> \<not> ts_open s' \<and> ts_read s' = No_Read"
    using assms(5) unfolding tlv_HandleReadHead_def Let_def HEAD_TOTAL_LEN_def HEAD_ID_LEN_def MAX_LENGTH_def fill_node_def
    by (auto simp: d tlv_fail_def tlv_Close_def simp del: append_assoc)
  then show ?thesis unfolding tlv_drive.simps [of "?i @ ?n @ rest"] r by fastforce
qed

text \<open>
  C28. What the two servers do with a header whose id or length is not from 1 to 2048. The handlers
  refuse every one of them: they close the session, take it out of the map and post nothing. The
  coroutine, too, ends and posts nothing if the id or the length is above 2048 (then without a call of
  \<open>Close()\<close>), if the length is 0, or below -1, where the allocation throws. A length of -1 stores
  outside of the node's empty array. And if only the id is 0 or negative, the message is posted.
\<close>

theorem coro_bad_header:
  fixes rest :: "char list"
  assumes "- 32768 \<le> i" and "i \<le> 32767" and "- 32768 \<le> n" and "n \<le> 32767" and "\<not> ts_b_close s"
    and "i \<le> 0 \<or> 2048 < i \<or> n \<le> 0 \<or> 2048 < n"
  defines "inp \<equiv> bytes16 (word_of_int i) @ bytes16 (word_of_int n) @ rest"
  shows "(\<exists>s'. tlv_drive inp (tlv_Start s) ss = Inr (s', ss(ts_uuid s := None), []) \<and> \<not> ts_open s') \<and>
     (if 2048 < i \<or> 2048 < n then \<exists>s'. coro_Start inp s ss = Inr (s', ss(ts_uuid s := None), [])
      else if n = 0 \<or> n < - 1 then \<exists>s'. coro_Start inp s ss = Inr (s', ss(ts_uuid s := None), []) \<and> \<not> ts_open s'
      else if n = - 1 then coro_Start inp s ss = Inl Out_Of_Bounds
      else n \<le> int (length rest) \<longrightarrow>
        (\<exists>s'. coro_turn inp s ss = Inr ((s', ss), Some (tlv_message i (take (nat n) rest), drop (nat n) rest))))"
proof -
  define s0 where "s0 = s\<lparr>ts_recv_head := node_clear (ts_recv_head s)\<rparr>"
  define s1 where "s1 = s0\<lparr>ts_recv_head := fill_node (bytes16 (word_of_int i) @ bytes16 (word_of_int n)) (node_clear (ts_recv_head s0))\<rparr>"
  have s: "\<not> ts_b_close s0" "ts_uuid s0 = ts_uuid s" "ts_uuid s1 = ts_uuid s"
    using assms(5) by (simp_all add: s0_def s1_def)
  have t: "coro_turn inp s0 ss = (if 2048 < i \<or> 2048 < n then Inr ((s1, map_erase (ts_uuid s) ss), None) else coro_body n i rest s1 ss)"
    using coro_turn_bytes [OF assms(1-4), of rest s0 ss] s(2) by (simp add: Let_def s1_def inp_def)
  have l: "coro_Start inp s ss = (case coro_turn inp s0 ss of Inl e \<Rightarrow> Inl e | Inr ((s, ss), None) \<Rightarrow> Inr (s, ss, [])
      | Inr ((s, ss), Some (m, inp)) \<Rightarrow> bindr (coro_loop inp s ss) (\<lambda>(s, ss, ms). Inr (s, ss, m # ms)))"
    unfolding coro_Start_def coro_loop.simps [of inp] s0_def [symmetric] using s(1) by simp
  have b: "\<exists>s2. coro_body n i rest s1 ss = Inr ((s2, map_erase (ts_uuid s) ss), None) \<and> \<not> ts_open s2" if "n = 0 \<or> n < - 1"
    using that RecvNode_ok [of 0 i] s
    by (auto simp: coro_body_def RecvNode_negative is_exception_def coro_catch_def coro_Close_def co_read_def Let_def)
  have m1: "coro_body (- 1) i rest s1 ss = Inl Out_Of_Bounds"
    by (simp add: coro_body_def RecvNode_negative is_exception_def)
  have p: "\<exists>s'. coro_turn inp s ss = Inr ((s', ss), Some (tlv_message i (take (nat n) rest), drop (nat n) rest))"
    if n: "0 < n" "n \<le> 2048" "i \<le> 2048" "n \<le> int (length rest)"
  proof -
    have len: "int (length (take (nat n) rest)) = n" "0 < length (take (nat n) rest)" using n by simp_all
    obtain s2 where "coro_turn inp s ss = coro_body n i (take (nat n) rest @ drop (nat n) rest) s2 ss"
      using coro_turn_bytes [OF assms(1-4), of rest s ss] n by (auto simp: Let_def inp_def)
    with coro_body_message [OF len(2), of i "drop (nat n) rest" s2 ss] show ?thesis unfolding len(1) by auto
  qed
  have "\<exists>s'. tlv_drive inp (tlv_Start s) ss = Inr (s', ss(ts_uuid s := None), []) \<and> \<not> ts_open s'"
    using tlv_drive_refused [OF assms(1-4,6), of rest "tlv_Start s" ss] by (simp add: inp_def tlv_Start_def map_erase_def)
  then show ?thesis using t l b m1 p by (auto simp: map_erase_def)
qed

theorem coro_bad_header_witness:
  "coro_Start (bytes16 (word_of_int 1001) @ bytes16 (word_of_int (- 1)) @ []) (tlv_Session ''u'') Map.empty = Inl Out_Of_Bounds \<and>
   (\<exists>s'. coro_turn (bytes16 (word_of_int (- 5)) @ bytes16 (word_of_int 2) @ ''ab'') (tlv_Session ''u'') Map.empty =
     Inr ((s', Map.empty), Some (tlv_message (- 5) ''ab'', [])))"
  using coro_bad_header [of 1001 "- 1" "tlv_Session ''u''" "[]" Map.empty]
    coro_bad_header [of "- 5" 2 "tlv_Session ''u''" "''ab''" Map.empty] by (simp add: tlv_Session_def)

end
