(* ===== verification/Clients.thy ===== *)
theory Clients
  imports Coro_Server
begin

text \<open>
  The programs that talk to the servers: the client of the echo server (\<open>2. AsyncServer/src/syncclient.cpp\<close>),
  the client of the servers with message ids (\<open>3. AsyncServerIOservicepool/src/JsonClient.cpp\<close>), and
  the session loop of the thread-per-client server (\<open>2. AsyncServer/src/syncserver.cpp\<close>). What a client
  writes is fed to the models of the servers.
\<close>

section \<open>The client of the echo server\<close>

definition CLIENT_MAX_LENGTH :: int where "CLIENT_MAX_LENGTH = 1024"

text \<open>
  \<open>getline\<close> keeps at most 1023 characters of the line and \<open>strlen\<close> stops at the first NUL; the
  arrays have 1024 bytes. The result is what is written to the socket, or \<open>None\<close> for \<open>message too long\<close>.
\<close>

definition sync_client_send :: "string \<Rightarrow> char list option res" where
  "sync_client_send line =
     (let request = takeWhile (\<lambda>c. c \<noteq> NUL) (take (nat CLIENT_MAX_LENGTH - 1) line);
          request_length = int (length request) in
      if request_length > 65535 then Inr None
      else
        (let request_len_net = bytes16 (word_of_int request_length);
             send_data = replicate (nat CLIENT_MAX_LENGTH) NUL in
         bindr (memcpy send_data 0 request_len_net HEAD_SIZE) (\<lambda>send_data.
         bindr (memcpy send_data 2 (request @ [NUL]) request_length) (\<lambda>send_data.
         Inr (Some (take (nat (request_length + 2)) send_data))))))"

text \<open>
  The reply: a read fills its buffer from what arrives or throws (\<open>None\<close>). \<open>buffer(msg, msglen)\<close>
  reaches beyond \<open>msg\<close> when the server announces more than 1024 bytes.
\<close>

definition sync_client_receive :: "char list \<Rightarrow> string option res" where
  "sync_client_receive inp =
     (case co_read (nat HEAD_SIZE) inp of
        None \<Rightarrow> Inr None
      | Some (reply_head, inp) \<Rightarrow>
          (let msglen = uint (word16 reply_head) in
           case co_read (nat msglen) inp of
             None \<Rightarrow> Inr None
           | Some (bs, inp) \<Rightarrow>
               bindr (memcpy (replicate (nat CLIENT_MAX_LENGTH) NUL) 0 bs msglen) (\<lambda>msg.
               Inr (Some (take (nat msglen) msg)))))"

section \<open>The client with message ids\<close>

definition HEAD_TOTAL :: int where "HEAD_TOTAL = 4"

text \<open>One round of the loop up to the write: \<open>None\<close> for a line that is skipped.\<close>

definition json_client_send :: "'j json_lib \<Rightarrow> string \<Rightarrow> char list option res" where
  "json_client_send js user_input =
     (if user_input = [] then Inr None
      else
        bindr (throws (json_set js ''id'' (json_int js 1001) (json_null js))) (\<lambda>req_root.
        bindr (throws (json_set js ''data'' (json_string js user_input) req_root)) (\<lambda>req_root.
        let request = json_styled js req_root;
            request_length = int (length request) in
        if request_length > MAX_LENGTH - HEAD_TOTAL then Inr None
        else
          (let send_data = replicate (nat MAX_LENGTH) NUL in
           bindr (memcpy send_data 0 (bytes16 (word_of_int 1001)) HEAD_ID_LEN) (\<lambda>send_data.
           bindr (memcpy send_data 2 (bytes16 (word_of_int request_length)) HEAD_ID_LEN) (\<lambda>send_data.
           bindr (memcpy send_data HEAD_TOTAL (request @ [NUL]) request_length) (\<lambda>send_data.
           Inr (Some (take (nat (request_length + HEAD_TOTAL)) send_data)))))))))"

text \<open>The reply: \<open>None\<close> for a failed read or a length that is refused, and otherwise its id and text.\<close>

definition json_client_receive :: "char list \<Rightarrow> (int \<times> string) option res" where
  "json_client_receive inp =
     (case co_read (nat HEAD_TOTAL) inp of
        None \<Rightarrow> Inr None
      | Some (reply_head, inp) \<Rightarrow>
          (let resp_msgid = uint (word16 reply_head);
               msglen = uint (word16 (drop 2 reply_head)) in
           if msglen = 0 \<or> msglen > MAX_LENGTH then Inr None
           else
             (case co_read (nat msglen) inp of
                None \<Rightarrow> Inr None
              | Some (bs, inp) \<Rightarrow>
                  bindr (memcpy (replicate (nat MAX_LENGTH) NUL) 0 bs msglen) (\<lambda>msg.
                  Inr (Some (resp_msgid, take (nat msglen) msg))))))"

section \<open>The thread per client\<close>

text \<open>
  One entry per turn of the loop: the bytes \<open>read_some\<close> returned and whether the write back
  succeeds, or the error it returned. The result: the bytes written back.
\<close>

datatype sync_turn = Got "char list" bool | Failed asio_error

fun sync_session :: "sync_turn list \<Rightarrow> char list" where
  "sync_session [] = []"
| "sync_session (Failed e # ts) = []"
| "sync_session (Got bs True # ts) = bs @ sync_session ts"
| "sync_session (Got bs False # ts) = []"

lemma sync_session_echo: "sync_session (map (\<lambda>bs. Got bs True) bss @ Failed e # ts) = concat bss"
  by (induction bss) simp_all

section \<open>Framing\<close>

lemma takeWhile_noNUL: "NUL \<notin> set line \<Longrightarrow> takeWhile (\<lambda>c. c \<noteq> NUL) line = line"
  by (induction line) auto

lemma word16_pair: "word16 (bytes16 w) = w" "word16 (bytes16 w @ r) = w"
  using word16_bytes16 [of w "[]"] word16_bytes16 [of w r] by simp_all

lemma uint_length16: "n \<le> 65535 \<Longrightarrow> uint (word_of_int (int n) :: 16 word) = int n"
  unfolding uint_word_of_int by (simp add: take_bit_int_eq_self)

lemma sync_client_send_frame:
  assumes "length line \<le> 1022" and "NUL \<notin> set line"
  shows "sync_client_send line = Inr (Some (async_frame line))"
proof -
  let ?n = "int (length line)"
  let ?h = "bytes16 (word_of_int ?n)" and ?d = "replicate 1024 NUL"
  have 0: "takeWhile (\<lambda>c. c \<noteq> NUL) (take (1024 - 1) line) = line"
    using assms by (simp add: CLIENT_MAX_LENGTH_def takeWhile_noNUL)
  have 1: "memcpy ?d 0 ?h HEAD_SIZE = Inr (?h @ drop 2 ?d)" by (simp add: memcpy_def HEAD_SIZE_def)
  have 2: "memcpy (?h @ drop 2 ?d) 2 (line @ [NUL]) ?n = Inr (?h @ line @ drop (length line) (drop 2 ?d))"
    using assms(1) by (simp add: memcpy_def del: replicate_Suc drop_replicate)
  have 3: "take (nat (?n + 2)) (?h @ line @ drop (length line) (drop 2 ?d)) = ?h @ line"
    by (simp add: nat_add_distrib del: replicate_Suc drop_replicate)
  have 4: "nat CLIENT_MAX_LENGTH = 1024" by (simp add: CLIENT_MAX_LENGTH_def)
  have "\<not> ?n > 65535" using assms(1) by simp
  then show ?thesis
    unfolding sync_client_send_def Let_def 0 4 by (simp only: 1 2 3 if_False bindr_simps async_frame_def)
qed

lemma sync_client_receive_frame:
  assumes "length msg \<le> 1024"
  shows "sync_client_receive (async_frame msg @ rest) = Inr (Some msg)"
proof -
  let ?n = "int (length msg)"
  let ?h = "bytes16 (word_of_int ?n)"
  have 1: "co_read (nat HEAD_SIZE) (async_frame msg @ rest) = Some (?h, msg @ rest)"
    using co_read_append [of ?h 2 "msg @ rest"] by (simp add: HEAD_SIZE_def async_frame_def)
  have 2: "uint (word16 ?h) = ?n" unfolding word16_pair using assms by (simp only: uint_length16)
  have 3: "co_read (nat ?n) (msg @ rest) = Some (msg, rest)" by (simp add: co_read_append)
  have 4: "memcpy (replicate (nat CLIENT_MAX_LENGTH) NUL) 0 msg ?n = Inr (msg @ drop (length msg) (replicate 1024 NUL))"
    using assms by (simp add: memcpy_def CLIENT_MAX_LENGTH_def del: drop_replicate)
  show ?thesis unfolding sync_client_receive_def 1 option.case prod.case Let_def 2 3 4 by simp
qed

lemma json_client_receive_frame:
  assumes "0 < length t" and "length t \<le> 2048" and "0 \<le> i" and "i \<le> 65535"
  shows "json_client_receive (tlv_frame i t @ rest) = Inr (Some (i, t))"
proof -
  let ?n = "int (length t)"
  let ?h = "bytes16 (word_of_int i) @ bytes16 (word_of_int ?n)"
  have 1: "co_read (nat HEAD_TOTAL) (tlv_frame i t @ rest) = Some (?h, t @ rest)"
    using co_read_append [of ?h 4 "t @ rest"] by (simp add: HEAD_TOTAL_def tlv_frame_split)
  have 2: "uint (word16 (drop 2 ?h)) = ?n"
  proof -
    have "drop 2 ?h = bytes16 (word_of_int ?n)" by simp
    then show ?thesis using assms(2) by (simp only: word16_pair uint_length16)
  qed
  have 5: "uint (word16 ?h) = i" unfolding word16_pair uint_word_of_int using assms(3,4) by (simp add: take_bit_int_eq_self)
  have 3: "co_read (nat ?n) (t @ rest) = Some (t, rest)" by (simp add: co_read_append)
  have 4: "memcpy (replicate (nat MAX_LENGTH) NUL) 0 t ?n = Inr (t @ drop (length t) (replicate 2048 NUL))"
    using assms by (simp add: memcpy_def MAX_LENGTH_def del: drop_replicate)
  have "\<not> (?n = 0 \<or> ?n > MAX_LENGTH)" using assms(1,2) by (simp add: MAX_LENGTH_def)
  then show ?thesis unfolding json_client_receive_def 1 option.case prod.case Let_def 2 3 4 5 by simp
qed

lemma json_client_send_frame:
  assumes "json_set js ''id'' (json_int js 1001) (json_null js) = Some o1"
    and "json_set js ''data'' (json_string js line) o1 = Some o2" and "line \<noteq> []" and "length (json_styled js o2) \<le> 2044"
  shows "json_client_send js line = Inr (Some (tlv_frame 1001 (json_styled js o2)))"
proof -
  define t where "t = json_styled js o2"
  let ?n = "int (length t)"
  define a where "a = bytes16 (word_of_int 1001)"
  define b where "b = bytes16 (word_of_int ?n)"
  let ?d = "replicate 2048 NUL"
  have l: "length a = 2" "length b = 2" by (simp_all add: a_def b_def)
  have 1: "memcpy ?d 0 a HEAD_ID_LEN = Inr (a @ drop 2 ?d)" using l by (simp add: memcpy_def HEAD_ID_LEN_def)
  have 2: "memcpy (a @ drop 2 ?d) 2 b HEAD_ID_LEN = Inr (a @ b @ drop 4 ?d)" using l by (simp add: memcpy_def HEAD_ID_LEN_def)
  have 3: "memcpy (a @ b @ drop 4 ?d) HEAD_TOTAL (t @ [NUL]) ?n = Inr (a @ b @ t @ drop (length t) (drop 4 ?d))"
    using assms(4) l by (simp add: memcpy_def HEAD_TOTAL_def t_def del: replicate_Suc drop_replicate)
  have 4: "take (nat (?n + HEAD_TOTAL)) (a @ b @ t @ drop (length t) (drop 4 ?d)) = a @ b @ t"
    using l by (simp add: HEAD_TOTAL_def nat_add_distrib del: replicate_Suc drop_replicate)
  have 5: "nat MAX_LENGTH = 2048" by (simp add: MAX_LENGTH_def)
  have "\<not> ?n > MAX_LENGTH - HEAD_TOTAL" using assms(4) by (simp add: MAX_LENGTH_def HEAD_TOTAL_def t_def)
  moreover have "tlv_frame 1001 t = a @ b @ t" by (simp only: tlv_frame_split a_def b_def)
  ultimately show ?thesis
    unfolding json_client_send_def Let_def assms(1,2) throws_simps bindr_simps t_def [symmetric] 5 a_def [symmetric] b_def [symmetric]
    using assms(3) by (simp only: 1 2 3 4 if_False bindr_simps)
qed

section \<open>Properties\<close>

text \<open>
  C35. The echo client and the echo server fit together: a line of up to 1022 characters is written as
  one frame, the handlers of a fresh session on the server read that frame and queue it back, and the
  client reads the same line from the reply.
\<close>

theorem echo_client_server:
  assumes "0 < length line" and "length line \<le> 1022" and "NUL \<notin> set line"
  shows "\<exists>bs s1 s2. sync_client_send line = Inr (Some bs) \<and>
     async_handle_read_head None 2 (take 2 bs) (async_Start (async_Session uuid)) ss = Inr (s1, ss) \<and>
     as_read s1 = Read_Body (length line) \<and>
     async_handle_read_body None (length line) (drop 2 bs) s1 ss = Inr (s2, ss) \<and>
     as_writes s2 = [bs] \<and> sync_client_receive bs = Inr (Some line)"
proof -
  let ?s = "async_Start (async_Session uuid)"
  have s: "async_inv ?s" "async_admits ?s" "async_queue ?s = []" "length (node_data (as_recv_head ?s)) = 3"
    by (simp_all add: async_Start_def async_Session_def async_inv_def async_queue_def async_admits_def MAX_SENDQUEUE_SIZE_def
        node_clear_def HEAD_SIZE_def)
  have f: "take 2 (async_frame line) = bytes16 (word_of_int (int (length line)))" "drop 2 (async_frame line) = line"
    by (simp_all add: async_frame_def)
  have "length line \<le> 2048" using assms(2) by simp
  from async_echo_message [OF s(1,2) assms(1) this s(4), of ss] obtain s1 s2 where
    h: "async_handle_read_head None 2 (take 2 (async_frame line)) ?s ss = Inr (s1, ss)" "as_read s1 = Read_Body (length line)"
      "async_handle_read_body None (length line) (drop 2 (async_frame line)) s1 ss = Inr (s2, ss)"
      "async_queue s2 = [async_frame line]" "async_inv s2"
    unfolding f s(3) by auto
  have "as_writes s2 = [async_frame line]" using h(4,5) by (simp add: async_inv_def)
  moreover have "sync_client_receive (async_frame line) = Inr (Some line)"
    using sync_client_receive_frame [of line "[]"] assms(2) by simp
  ultimately show ?thesis using h sync_client_send_frame [OF assms(2,3)] by blast
qed

theorem echo_client_server_witness:
  "\<exists>bs s1 s2. sync_client_send ''hello'' = Inr (Some bs) \<and>
     async_handle_read_head None 2 (take 2 bs) (async_Start (async_Session ''u'')) Map.empty = Inr (s1, Map.empty) \<and>
     async_handle_read_body None 5 (drop 2 bs) s1 Map.empty = Inr (s2, Map.empty) \<and>
     as_writes s2 = [bs] \<and> sync_client_receive bs = Inr (Some ''hello'')"
  using echo_client_server [of "''hello''" "''u''" Map.empty] by (auto simp: eval_nat_numeral)

text \<open>
  The client of the echo server writes outside its array for the longest line it accepts: a line
  of 1023 characters or more is copied behind the two bytes of its length into 1024 bytes. A reply
  that announces more than 1024 bytes is read outside of the array for the answer.
\<close>

theorem echo_client_overflows:
  assumes "1023 \<le> length line" and "NUL \<notin> set line" and "1024 < length msg" and "length msg \<le> 65535"
  shows "sync_client_send line = Inl Out_Of_Bounds \<and> sync_client_receive (async_frame msg) = Inl Out_Of_Bounds"
proof
  define r where "r = take 1023 line"
  have r: "length r = 1023" "NUL \<notin> set r" using assms(1,2) by (auto simp: r_def dest: in_set_takeD)
  have "takeWhile (\<lambda>c. c \<noteq> NUL) (take (nat CLIENT_MAX_LENGTH - 1) line) = r"
    using takeWhile_noNUL [OF r(2)] by (simp add: CLIENT_MAX_LENGTH_def r_def)
  then show "sync_client_send line = Inl Out_Of_Bounds"
    unfolding sync_client_send_def Let_def using r(1) by (simp add: memcpy_def HEAD_SIZE_def CLIENT_MAX_LENGTH_def)
next
  let ?n = "int (length msg)"
  have 1: "co_read (nat HEAD_SIZE) (async_frame msg) = Some (bytes16 (word_of_int ?n), msg)"
    using co_read_append [of "bytes16 (word_of_int ?n)" 2 msg] by (simp add: HEAD_SIZE_def async_frame_def)
  have 2: "uint (word16 (bytes16 (word_of_int ?n))) = ?n" unfolding word16_pair using assms(4) by (simp only: uint_length16)
  have 3: "co_read (nat ?n) msg = Some (msg, [])" using co_read_append [of msg "length msg" "[]"] by simp
  show "sync_client_receive (async_frame msg) = Inl Out_Of_Bounds"
    unfolding sync_client_receive_def 1 option.case prod.case Let_def 2 3
    using assms(3) by (simp add: memcpy_def CLIENT_MAX_LENGTH_def)
qed

theorem echo_client_overflows_witness:
  "sync_client_send (replicate 1023 (CHR ''a'')) = Inl Out_Of_Bounds \<and>
   sync_client_receive (async_frame (replicate 2048 (CHR ''b''))) = Inl Out_Of_Bounds"
  by (rule echo_client_overflows) simp_all

text \<open>One round between the client and the server; the hypotheses are what the JSON library says of the objects.\<close>

lemma json_round:
  assumes "line \<noteq> []" and "json_set js ''id'' (json_int js 1001) (json_null js) = Some o1"
    and "json_set js ''data'' (json_string js line) o1 = Some o2"
    and "0 < length (json_styled js o2)" and "length (json_styled js o2) \<le> 2044"
    and "json_parse js (json_styled js o2) = Some o2"
    and "json_at js ''id'' o2 = Some (o2, vi)" and "json_asInt js vi = Some 1001"
    and "json_at js ''data'' o2 = Some (o2, vd)" and "json_asString js vd = Some line"
    and "json_set js ''data'' (json_string js (''server has received msg, msg data is '' @ line)) o2 = Some o3"
    and "json_at js ''id'' o3 = Some (o3, vi)"
    and "0 < length (json_styled js o3)" and "length (json_styled js o3) \<le> 2048"
  shows "json_client_send js line = Inr (Some (tlv_frame 1001 (json_styled js o2))) \<and>
     (\<exists>s1. coro_Start (tlv_frame 1001 (json_styled js o2)) (tlv_Session uuid) ss = Inr (s1, ss(uuid := None), [tlv_message 1001 (json_styled js o2)])) \<and>
     (\<exists>s2. run_callback (RegisterCallBacks js Map.empty) \<lparr>ln_session = uuid, ln_recvnode = tlv_message 1001 (json_styled js o2)\<rparr> tlv_Session =
        Inr (tlv_Session(uuid := s2)) \<and> ts_writes s2 = [tlv_frame 1001 (json_styled js o3)])"
proof -
  define t where "t = json_styled js o2"
  have v: "list_all valid_message [(1001, t)]" using assms(4,5) by (simp add: valid_message_def t_def)
  have send: "json_client_send js line = Inr (Some (tlv_frame 1001 t))"
    unfolding t_def using json_client_send_frame [OF assms(2,3,1,5)] .
  have start: "\<exists>s1. coro_Start (tlv_frame 1001 t) (tlv_Session uuid) ss = Inr (s1, ss(uuid := None), [tlv_message 1001 t])"
    using coro_loop_frames [OF v, of "[]" "(tlv_Session uuid)\<lparr>ts_recv_head := node_clear (ts_recv_head (tlv_Session uuid))\<rparr>" ss]
    by (auto simp: coro_Start_def tlv_Session_def map_erase_def cut_off_def)
  let ?s = "tlv_Session uuid"
  have z: "tlv_inv ?s" "tlv_queue ?s = []" "tlv_admits ?s"
    by (simp_all add: tlv_inv_def tlv_queue_def tlv_Session_def tlv_admits_def MAX_SENDQUE_def)
  have "length (json_styled js o3) \<le> 32763" using assms(14) by simp
  from Send_string_reply [OF z(1) this, of 1001] obtain s2 where
    s2: "tlv_Send_string (json_styled js o3) 1001 ?s = Inr s2" "tlv_inv s2" "tlv_queue s2 = [tlv_frame 1001 (json_styled js o3)]"
    using z by auto
  have "HelloWordCallBack js MSG_HELLO_WORLD t ?s = Inr s2"
    unfolding HelloWordCallBack_def t_def assms(6) using s2(1) assms(7-12) by simp
  then have cb: "run_callback (RegisterCallBacks js Map.empty) \<lparr>ln_session = uuid, ln_recvnode = tlv_message 1001 t\<rparr> tlv_Session =
      Inr (tlv_Session(uuid := s2))"
    using run_hello [of "\<lparr>ln_session = uuid, ln_recvnode = tlv_message 1001 t\<rparr>" js Map.empty tlv_Session]
    by (simp add: MSG_HELLO_WORLD_def)
  have w: "ts_writes s2 = [tlv_frame 1001 (json_styled js o3)]" using s2(2,3) by (simp add: tlv_inv_def)
  from send start cb w show ?thesis unfolding t_def by blast
qed

text \<open>
  The JSON client and the servers fit together: what the client writes for a line is received by
  the coroutine server as one message with the id 1001 and the JSON text, the logic layer answers it
  with the object in which the line is prefixed, and the client reads that answer back, as long as
  it has at most 2048 bytes. The hypotheses are what the JSON library says of the objects.
\<close>

theorem json_client_server:
  assumes "line \<noteq> []" and "json_set js ''id'' (json_int js 1001) (json_null js) = Some o1"
    and "json_set js ''data'' (json_string js line) o1 = Some o2"
    and "0 < length (json_styled js o2)" and "length (json_styled js o2) \<le> 2044"
    and "json_parse js (json_styled js o2) = Some o2"
    and "json_at js ''id'' o2 = Some (o2, vi)" and "json_asInt js vi = Some 1001"
    and "json_at js ''data'' o2 = Some (o2, vd)" and "json_asString js vd = Some line"
    and "json_set js ''data'' (json_string js (''server has received msg, msg data is '' @ line)) o2 = Some o3"
    and "json_at js ''id'' o3 = Some (o3, vi)"
    and "0 < length (json_styled js o3)" and "length (json_styled js o3) \<le> 2048"
  shows "\<exists>bs s1 s2 m. json_client_send js line = Inr (Some bs) \<and>
     coro_Start bs (tlv_Session uuid) ss = Inr (s1, ss(uuid := None), [m]) \<and>
     run_callback (RegisterCallBacks js Map.empty) \<lparr>ln_session = uuid, ln_recvnode = m\<rparr> tlv_Session = Inr (tlv_Session(uuid := s2)) \<and>
     length (ts_writes s2) = 1 \<and>
     json_client_receive (hd (ts_writes s2)) = Inr (Some (1001, json_styled js o3))"
proof -
  have "json_client_receive (tlv_frame 1001 (json_styled js o3)) = Inr (Some (1001, json_styled js o3))"
    using json_client_receive_frame [OF assms(13,14), of 1001 "[]"] by simp
  with json_round [OF assms, of uuid ss] show ?thesis by fastforce
qed

theorem json_client_server_witness:
  "\<exists>js :: jval json_lib. \<exists>bs s1 s2 m. json_client_send js ''hi'' = Inr (Some bs) \<and>
     coro_Start bs (tlv_Session ''u'') Map.empty = Inr (s1, Map.empty(''u'' := None), [m]) \<and>
     run_callback (RegisterCallBacks js Map.empty) \<lparr>ln_session = ''u'', ln_recvnode = m\<rparr> tlv_Session = Inr (tlv_Session(''u'' := s2)) \<and>
     length (ts_writes s2) = 1 \<and>
     json_client_receive (hd (ts_writes s2)) = Inr (Some (1001, ''server has received msg, msg data is hi''))"
proof -
  let ?js = "example_json\<lparr>json_parse := \<lambda>t. Some (J_Obj [(''id'', J_Int 1001), (''data'', J_Str t)])\<rparr>"
  let ?o3 = "J_Obj [(''id'', J_Int 1001), (''data'', J_Str ''server has received msg, msg data is hi'')]"
  have "\<exists>bs s1 s2 m. json_client_send ?js ''hi'' = Inr (Some bs) \<and>
     coro_Start bs (tlv_Session ''u'') Map.empty = Inr (s1, Map.empty(''u'' := None), [m]) \<and>
     run_callback (RegisterCallBacks ?js Map.empty) \<lparr>ln_session = ''u'', ln_recvnode = m\<rparr> tlv_Session = Inr (tlv_Session(''u'' := s2)) \<and>
     length (ts_writes s2) = 1 \<and> json_client_receive (hd (ts_writes s2)) = Inr (Some (1001, json_styled ?js ?o3))"
    by (rule json_client_server [where ?o1.0 = "J_Obj [(''id'', J_Int 1001)]" and ?o2.0 = "J_Obj [(''id'', J_Int 1001), (''data'', J_Str ''hi'')]"
          and vi = "J_Int 1001" and vd = "J_Str ''hi''"]) (simp_all add: example_json_def)
  moreover have "json_styled ?js ?o3 = ''server has received msg, msg data is hi''" by (simp add: example_json_def)
  ultimately show ?thesis by (intro exI [of _ ?js]) (simp only:)
qed

section \<open>The thread-per-client server\<close>

text \<open>
  \<open>server\<close> and \<open>main\<close> of \<open>2. AsyncServer/src/syncserver.cpp\<close>. The acceptor is opened, then
  connections are accepted until \<open>accept\<close> throws: there is no other way out of the loop. The events are the results of
  \<open>accept\<close>, each with what its client then does; where they end, the server still waits. The
  set of threads is global; destroying it destroys \<open>std::thread\<close> objects, and one
  that is still joinable ends the program with \<open>std::terminate\<close>.
\<close>

datatype accept_event = Accepted "sync_turn list" | Accept_Throws

record sync_server =
  sy_joinable :: "bool list"
  sy_echoed :: "char list list"

datatype sync_result = Waiting sync_server | Exit_Code int sync_server | Terminated sync_server

fun sync_server_loop :: "accept_event list \<Rightarrow> sync_server \<Rightarrow> bool \<times> sync_server" where
  "sync_server_loop [] sv = (False, sv)"
| "sync_server_loop (Accept_Throws # es) sv = (True, sv)"
| "sync_server_loop (Accepted ts # es) sv =
     sync_server_loop es (sv\<lparr>sy_joinable := sy_joinable sv @ [True], sy_echoed := sy_echoed sv @ [sync_session ts]\<rparr>)"

text \<open>\<open>main\<close>: \<open>open_ok\<close> says whether the acceptor could be opened on the port.\<close>

definition sync_server_main :: "bool \<Rightarrow> accept_event list \<Rightarrow> sync_result" where
  "sync_server_main open_ok es =
     (let (thrown, sv) = (if open_ok then sync_server_loop es \<lparr>sy_joinable = [], sy_echoed = []\<rparr>
                          else (True, \<lparr>sy_joinable = [], sy_echoed = []\<rparr>)) in
      if thrown then (if True \<in> set (sy_joinable sv) then Terminated sv else Exit_Code 0 sv)
      else Waiting sv)"

lemma sync_server_loop_accepts:
  "sync_server_loop (map Accepted tss @ es) sv =
     sync_server_loop es (sv\<lparr>sy_joinable := sy_joinable sv @ replicate (length tss) True, sy_echoed := sy_echoed sv @ map sync_session tss\<rparr>)"
proof (induction tss arbitrary: sv)
  case (Cons ts tss)
  then show ?case by (simp add: replicate_append_same [symmetric])
qed simp

text \<open>
  The threads of the thread-per-client server are never joined: every client accepted is served by a
  thread of its own that echoes what it reads, but the loop over the threads is not reached. When
  \<open>accept\<close> fails after at least one client, the program ends in
  \<open>std::terminate\<close>, even if all clients are done; with none it returns 0.
\<close>

theorem sync_server_terminates_process:
  "sync_server_main True (map Accepted tss @ Accept_Throws # es) =
     (if tss = [] then Exit_Code 0 \<lparr>sy_joinable = [], sy_echoed = []\<rparr>
      else Terminated \<lparr>sy_joinable = replicate (length tss) True, sy_echoed = map sync_session tss\<rparr>) \<and>
   sync_server_main True (map Accepted tss) = Waiting \<lparr>sy_joinable = replicate (length tss) True, sy_echoed = map sync_session tss\<rparr>"
proof -
  let ?sv = "\<lparr>sy_joinable = replicate (length tss) True, sy_echoed = map sync_session tss\<rparr>"
  have "sync_server_loop (map Accepted tss) \<lparr>sy_joinable = [], sy_echoed = []\<rparr> = (False, ?sv)"
    "sync_server_loop (map Accepted tss @ Accept_Throws # es) \<lparr>sy_joinable = [], sy_echoed = []\<rparr> = (True, ?sv)"
    using sync_server_loop_accepts [of tss "[]" "\<lparr>sy_joinable = [], sy_echoed = []\<rparr>"]
      sync_server_loop_accepts [of tss "Accept_Throws # es" "\<lparr>sy_joinable = [], sy_echoed = []\<rparr>"] by simp_all
  then show ?thesis by (simp add: sync_server_main_def)
qed

end
