(* ===== verification/Beast_Http.thy ===== *)
theory Beast_Http
  imports Logic_System Http_Response
begin

text \<open>
  The HTTP server of \<open>5. HTTPserver\<close> (\<open>src/beast_http.cpp\<close>): one request per connection, answered
  from a small table, under a deadline of 60 seconds. Parsing and serialising messages is Beast's;
  a request and a response are records of what the program reads and sets. A response starts with
  the defaults of Beast: version 1.1, status 200, no fields, an empty body.
\<close>

section \<open>Requests, responses, connections\<close>

datatype verb = Verb_get | Verb_post | Verb_other string

record http_request =
  rq_version :: nat
  rq_method :: verb
  rq_target :: string
  rq_body :: string

record http_response =
  rp_version :: nat
  rp_keep_alive :: bool
  rp_result :: nat
  rp_fields :: "string \<rightharpoonup> string"
  rp_content_length :: "nat option"
  rp_body :: string

definition new_response :: http_response where
  "new_response = \<lparr>rp_version = 11, rp_keep_alive = True, rp_result = 200, rp_fields = Map.empty, rp_content_length = None, rp_body = []\<rparr>"

record beast_connection =
  bc_open :: bool
  bc_reading :: bool
  bc_timer :: bool
  bc_shutdown :: bool
  bc_request :: http_request
  bc_response :: http_response
  bc_writes :: "http_response list"

definition http_connection :: "http_request \<Rightarrow> beast_connection" where
  "http_connection req = \<lparr>bc_open = True, bc_reading = False, bc_timer = False, bc_shutdown = False, bc_request = req,
     bc_response = new_response, bc_writes = []\<rparr>"

definition set_field :: "string \<Rightarrow> string \<Rightarrow> http_response \<Rightarrow> http_response" where
  "set_field k v r = r\<lparr>rp_fields := map_assign k v (rp_fields r)\<rparr>"

definition add_body :: "string \<Rightarrow> http_response \<Rightarrow> http_response" where
  "add_body t r = r\<lparr>rp_body := rp_body r @ t\<rparr>"

section \<open>The program\<close>

text \<open>The counter is a \<open>size_t\<close>; it is passed around here.\<close>

definition request_count :: "nat \<Rightarrow> nat \<times> nat" where
  "request_count count = (let count = (count + 1) mod 2 ^ 64 in (count, count))"

definition count_page :: "string \<Rightarrow> string" where
  "count_page n = ''<html>'' @ [LF] @ ''<head><title>Request count</title></head>'' @ [LF] @ ''<body>'' @ [LF] @
     ''<h1>Request count</h1>'' @ [LF] @ ''<p>There have been '' @ n @ '' requests so far.</p>'' @ [LF] @
     ''</body>'' @ [LF] @ ''</html>'' @ [LF]"

definition http_create_response :: "int \<Rightarrow> http_request \<Rightarrow> http_response \<Rightarrow> nat \<Rightarrow> http_response \<times> nat" where
  "http_create_response now req r count =
     (if rq_target req = ''/count'' then
        (let r = set_field ''Content-Type'' ''text/html'' r;
             (n, count) = request_count count
         in (add_body (count_page (show_nat n)) r, count))
      else if rq_target req = ''/time'' then
        (let r = set_field ''Content-Type'' ''text/html'' r
         in (add_body (count_page (show_int now)) r, count))
      else
        (let r = r\<lparr>rp_result := 404\<rparr>;
             r = set_field ''Content-Type'' ''text/plain'' r
         in (add_body (''File not found'' @ CRLF) r, count)))"

text \<open>No code calls \<open>create_post_response\<close>; the JSON library is the argument it is for the logic layer.\<close>

definition http_create_post_response :: "'j json_lib \<Rightarrow> http_request \<Rightarrow> http_response \<Rightarrow> http_response res" where
  "http_create_post_response js req r =
     (if rq_target req = ''/email'' then
        (let body_str = rq_body req;
             r = set_field ''Content-Type'' ''text/json'' r in
         case json_parse js body_str of
           None \<Rightarrow>
             bindr (throws (json_set js ''error'' (json_int js 1001) (json_null js))) (\<lambda>root.
             Inr (add_body (json_styled js root) r))
         | Some src_root \<Rightarrow>
             bindr (throws (json_at js ''email'' src_root)) (\<lambda>(src_root, v).
             bindr (throws (json_asString js v)) (\<lambda>email.
             bindr (throws (json_set js ''error'' (json_int js 0) (json_null js))) (\<lambda>root.
             bindr (throws (json_at js ''email'' src_root)) (\<lambda>(src_root, v).
             bindr (throws (json_set js ''email'' v root)) (\<lambda>root.
             bindr (throws (json_set js ''msg'' (json_string js ''recevie email post success'') root)) (\<lambda>root.
             Inr (add_body (json_styled js root) r))))))))
      else
        (let r = r\<lparr>rp_result := 404\<rparr>;
             r = set_field ''Content-Type'' ''text/plain'' r
         in Inr (add_body (''File not found'' @ CRLF) r)))"

definition http_write_response :: "beast_connection \<Rightarrow> beast_connection" where
  "http_write_response c =
     (let c = c\<lparr>bc_response := (bc_response c)\<lparr>rp_content_length := Some (length (rp_body (bc_response c)))\<rparr>\<rparr>
      in c\<lparr>bc_writes := bc_writes c @ [bc_response c]\<rparr>)"

definition http_process_request :: "int \<Rightarrow> beast_connection \<Rightarrow> nat \<Rightarrow> beast_connection \<times> nat" where
  "http_process_request now c count =
     (let req = bc_request c;
          r = (bc_response c)\<lparr>rp_version := rq_version req, rp_keep_alive := False\<rparr>;
          (r, count) =
            (case rq_method req of
               Verb_get \<Rightarrow>
                 (let r = r\<lparr>rp_result := 200\<rparr>;
                      r = set_field ''Server'' ''Beast'' r
                  in http_create_response now req r count)
             | Verb_post \<Rightarrow> (r, count)
             | Verb_other m \<Rightarrow>
                 (let r = r\<lparr>rp_result := 400\<rparr>;
                      r = set_field ''Content-Type'' ''text/plain'' r
                  in (add_body (''Invalid request-method: '' @ [CHR 0x27] @ m @ [CHR 0x27]) r, count)))
      in (http_write_response (c\<lparr>bc_response := r\<rparr>), count))"

text \<open>The handlers of the read, of the write and of the timer; cancelling the timer makes its handler see an error.\<close>

definition http_on_read :: "asio_error option \<Rightarrow> int \<Rightarrow> beast_connection \<Rightarrow> nat \<Rightarrow> beast_connection \<times> nat" where
  "http_on_read ec now c count =
     (let c = c\<lparr>bc_reading := False\<rparr> in
      if ec = None then http_process_request now c count else (c, count))"

definition http_on_written :: "beast_connection \<Rightarrow> beast_connection" where
  "http_on_written c = c\<lparr>bc_shutdown := True, bc_timer := False\<rparr>"

definition http_on_deadline :: "asio_error option \<Rightarrow> beast_connection \<Rightarrow> beast_connection" where
  "http_on_deadline ec c = (if ec = None then c\<lparr>bc_open := False\<rparr> else c)"

definition http_start :: "beast_connection \<Rightarrow> beast_connection" where
  "http_start c = c\<lparr>bc_reading := True, bc_timer := True\<rparr>"

text \<open>
  Clients one after the other: each is accepted, its request is read, processed at the given time
  and answered; the responses put on the wire, in order.
\<close>

fun http_server :: "(int \<times> http_request) list \<Rightarrow> nat \<Rightarrow> http_response list \<times> nat" where
  "http_server [] count = ([], count)"
| "http_server ((now, req) # rest) count =
     (let c = http_start (http_connection req);
          (c, count) = http_on_read None now c count;
          (rs, count) = http_server rest count
      in (bc_writes c @ rs, count))"

section \<open>What is answered\<close>

definition is_count :: "int \<times> http_request \<Rightarrow> bool" where
  "is_count = (\<lambda>(_, req). rq_method req = Verb_get \<and> rq_target req = ''/count'')"

definition answer_status :: "http_request \<Rightarrow> nat" where
  "answer_status req =
     (case rq_method req of
        Verb_get \<Rightarrow> if rq_target req = ''/count'' \<or> rq_target req = ''/time'' then 200 else 404
      | Verb_post \<Rightarrow> 200
      | Verb_other _ \<Rightarrow> 400)"

definition answer_body :: "int \<Rightarrow> http_request \<Rightarrow> nat \<Rightarrow> string" where
  "answer_body now req n =
     (case rq_method req of
        Verb_get \<Rightarrow>
          if rq_target req = ''/count'' then count_page (show_nat n)
          else if rq_target req = ''/time'' then count_page (show_int now)
          else ''File not found'' @ CRLF
      | Verb_post \<Rightarrow> []
      | Verb_other m \<Rightarrow> ''Invalid request-method: '' @ [CHR 0x27] @ m @ [CHR 0x27])"

definition answers :: "int \<times> http_request \<Rightarrow> nat \<Rightarrow> http_response \<Rightarrow> bool" where
  "answers = (\<lambda>(now, req) n r. rp_version r = rq_version req \<and> \<not> rp_keep_alive r \<and> rp_result r = answer_status req \<and>
     rp_body r = answer_body now req n \<and> rp_content_length r = Some (length (answer_body now req n)))"

lemmas http_defs = http_on_read_def http_process_request_def http_write_response_def http_create_response_def http_start_def
  http_connection_def new_response_def set_field_def add_body_def request_count_def is_count_def answers_def answer_status_def
  answer_body_def Let_def

lemma http_on_read_fresh:
  fixes now :: int and req :: http_request
  assumes "count + 1 < 2 ^ 64"
  defines "x \<equiv> http_on_read None now (http_start (http_connection req)) count"
  shows "bc_writes (fst x) = [bc_response (fst x)]" and "snd x = (if is_count (now, req) then count + 1 else count)"
    and "answers (now, req) (count + 1) (bc_response (fst x))"
proof -
  have m: "Suc count mod 18446744073709551616 = Suc count" using assms(1) by simp
  show "bc_writes (fst x) = [bc_response (fst x)]"
    by (cases "rq_method req") (simp_all add: x_def http_defs)
  show "snd x = (if is_count (now, req) then count + 1 else count)"
    using m by (cases "rq_method req") (simp_all add: x_def http_defs)
  show "answers (now, req) (count + 1) (bc_response (fst x))"
    using m by (cases "rq_method req") (simp_all add: x_def http_defs)
qed

lemma http_server_answers:
  assumes "count + length reqs < 2 ^ 64"
  shows "\<exists>rs. http_server reqs count = (rs, count + count_if is_count reqs) \<and>
     list_all2 (\<lambda>(q, n) r. answers q n r) (zip reqs (map (\<lambda>i. count + count_if is_count (take i reqs) + 1) [0..<length reqs])) rs"
  using assms
proof (induction reqs arbitrary: count)
  case (Cons q reqs)
  obtain now req where q: "q = (now, req)" by (cases q)
  define k where "k = (if is_count q then count + 1 else count)"
  have c: "count + 1 < 2 ^ 64" using Cons.prems by simp
  define x where "x = http_on_read None now (http_start (http_connection req)) count"
  note r = http_on_read_fresh [OF c, of now req, folded x_def, folded q, folded k_def]
  obtain rs where rs: "http_server reqs k = (rs, k + count_if is_count reqs)"
    "list_all2 (\<lambda>(q, n) r. answers q n r) (zip reqs (map (\<lambda>i. k + count_if is_count (take i reqs) + 1) [0..<length reqs])) rs"
  proof -
    have "k + length reqs < 2 ^ 64" using Cons.prems unfolding k_def by (simp split: if_splits)
    from Cons.IH [OF this] show thesis by (elim exE conjE) (rule that)
  qed
  have u: "[0..<length (q # reqs)] = 0 # map Suc [0..<length reqs]" by (simp only: list.size(4) One_nat_def add_Suc_right add_0_right upt_Suc_map)
  have "count + count_if is_count (take (Suc i) (q # reqs)) = k + count_if is_count (take i reqs)" for i by (simp add: k_def)
  then have "map (\<lambda>i. count + count_if is_count (take i (q # reqs)) + 1) [0..<length (q # reqs)] =
      (count + 1) # map (\<lambda>i. k + count_if is_count (take i reqs) + 1) [0..<length reqs]"
    unfolding u by (simp add: comp_def del: take_Suc_Cons)
  moreover have "http_server (q # reqs) count = (bc_response (fst x) # rs, count + count_if is_count (q # reqs))"
  proof -
    have "x = (fst x, k)" using r(2) by (metis prod.collapse)
    then have "http_server (q # reqs) count = (bc_writes (fst x) @ rs, k + count_if is_count reqs)"
      unfolding q http_server.simps Let_def x_def [symmetric] by (metis (no_types, lifting) rs(1) split_conv)
    then show ?thesis by (simp add: r(1) k_def)
  qed
  ultimately show ?case using r(3) rs(2) by simp
qed simp

section \<open>Properties\<close>

text \<open>
  The server answers every request from its table: for any sequence of requests there is one
  response each, in order, with the version of the request, no keep-alive, the right status, body
  and content length; the \<open>n\<close>-th GET of \<open>/count\<close> since the start says \<open>n\<close>, and nothing else is
  counted.
\<close>

theorem http_answers:
  assumes "length reqs < 2 ^ 64"
  shows "\<exists>rs. http_server reqs 0 = (rs, count_if is_count reqs) \<and> length rs = length reqs \<and>
     (\<forall>i < length reqs. answers (reqs ! i) (count_if is_count (take i reqs) + 1) (rs ! i))"
proof -
  from http_server_answers [of 0 reqs] assms obtain rs where
    rs: "http_server reqs 0 = (rs, count_if is_count reqs)"
      "list_all2 (\<lambda>(q, n) r. answers q n r) (zip reqs (map (\<lambda>i. count_if is_count (take i reqs) + 1) [0..<length reqs])) rs" by auto
  then have "length rs = length reqs" by (auto dest: list_all2_lengthD)
  moreover have "answers (reqs ! i) (count_if is_count (take i reqs) + 1) (rs ! i)" if "i < length reqs" for i
    using list_all2_nthD [OF rs(2), of i] that by simp
  ultimately show ?thesis using rs(1) by blast
qed

theorem http_answers_witness:
  "\<exists>rs. http_server [(0, \<lparr>rq_version = 11, rq_method = Verb_get, rq_target = ''/count'', rq_body = []\<rparr>),
      (5, \<lparr>rq_version = 10, rq_method = Verb_post, rq_target = ''/email'', rq_body = ''{}''\<rparr>)] 0 = (rs, 1) \<and> length rs = 2"
proof -
  let ?reqs = "[(0 :: int, \<lparr>rq_version = 11, rq_method = Verb_get, rq_target = ''/count'', rq_body = []\<rparr>),
      (5, \<lparr>rq_version = 10, rq_method = Verb_post, rq_target = ''/email'', rq_body = ''{}''\<rparr>)]"
  have "\<exists>rs. http_server ?reqs 0 = (rs, count_if is_count ?reqs) \<and> length rs = length ?reqs \<and>
     (\<forall>i < length ?reqs. answers (?reqs ! i) (count_if is_count (take i ?reqs) + 1) (rs ! i))"
    by (rule http_answers) simp
  moreover have "count_if is_count ?reqs = 1" "length ?reqs = 2" by (simp_all add: is_count_def)
  ultimately show ?thesis by (elim exE conjE) (intro exI conjI, simp_all only:)
qed

text \<open>
  A POST is never routed: whatever its target and body, the answer is the default response, status
  200 with no field and an empty body, while the routine for posts would have refused an unknown
  target and answered \<open>/email\<close> with a JSON object.
\<close>

theorem http_post_not_routed:
  assumes "rq_method req = Verb_post" and "rq_target req \<noteq> ''/email''"
  shows "\<exists>c. http_on_read None now (http_start (http_connection req)) count = (c, count) \<and>
     bc_writes c = [\<lparr>rp_version = rq_version req, rp_keep_alive = False, rp_result = 200, rp_fields = Map.empty,
        rp_content_length = Some 0, rp_body = []\<rparr>] \<and>
     (\<exists>r. http_create_post_response js req new_response = Inr r \<and> rp_result r = 404)"
  using assms
  by (simp add: http_on_read_def http_process_request_def http_write_response_def http_start_def http_connection_def
      new_response_def http_create_post_response_def set_field_def add_body_def Let_def)

theorem http_post_not_routed_witness:
  "\<exists>c. http_on_read None 0 (http_start (http_connection \<lparr>rq_version = 11, rq_method = Verb_post, rq_target = ''/x'', rq_body = []\<rparr>)) 3 = (c, 3)"
  using http_post_not_routed [of "\<lparr>rq_version = 11, rq_method = Verb_post, rq_target = ''/x'', rq_body = []\<rparr>" 0 3 example_json] by auto

end
