(* ===== verification/Web_Socket.thy ===== *)
theory Web_Socket
  imports Async_Server
begin

text \<open>
  The WebSocket echo server of \<open>6. WebSocketServer\<close> (\<open>Connection.cpp\<close>, \<open>ConnectionMgr.cpp\<close>,
  \<open>Server.cpp\<close>): every message is put into the send queue of its connection and written back. The
  WebSocket protocol is Beast's: a read delivers one whole message and whether it was text, a write
  sends one whole message in the mode the stream is in when the write is started. The string a
  write is given is kept by value.
\<close>

section \<open>Connections and their manager\<close>

record ws_connection =
  wc_uuid :: string
  wc_recv_buffer :: string
  wc_send_que :: "string list"
  wc_text :: bool
  wc_reading :: bool
  wc_writes :: "(string \<times> bool) list"

definition ws_Connection :: "string \<Rightarrow> ws_connection" where
  "ws_Connection uuid = \<lparr>wc_uuid = uuid, wc_recv_buffer = [], wc_send_que = [], wc_text = True, wc_reading = False, wc_writes = []\<rparr>"

definition AddConnection :: "nat \<Rightarrow> string \<Rightarrow> sessions \<Rightarrow> sessions" where
  "AddConnection p uuid cons = map_assign uuid p cons"

definition RmvConnection :: "string \<Rightarrow> sessions \<Rightarrow> sessions" where
  "RmvConnection uuid cons = map_erase uuid cons"

text \<open>
  \<open>SendCallBack\<close> starts a write; \<open>ws_on_written\<close> is the handler it passes. The write keeps its message
  by value here. In the program it points into the parameter \<open>msg\<close>, which is gone when \<open>SendCallBack\<close>
  returns: this theory is about writes that have taken their bytes by then, and \<open>Buffer_Lifetime\<close>
  treats the pointer and what becomes of the other writes.
\<close>

definition ws_SendCallBack :: "string \<Rightarrow> ws_connection \<Rightarrow> ws_connection" where
  "ws_SendCallBack msg c = c\<lparr>wc_writes := wc_writes c @ [(msg, wc_text c)]\<rparr>"

definition ws_AsyncSend :: "string \<Rightarrow> ws_connection \<Rightarrow> ws_connection" where
  "ws_AsyncSend msg c =
     (let que_len = length (wc_send_que c);
          c = c\<lparr>wc_send_que := push_back msg (wc_send_que c)\<rparr> in
      if que_len > 0 then c else ws_SendCallBack msg c)"

definition ws_on_written :: "asio_error option \<Rightarrow> ws_connection \<Rightarrow> sessions \<Rightarrow> (ws_connection \<times> sessions) res" where
  "ws_on_written err c cons =
     (let c = c\<lparr>wc_writes := tl (wc_writes c)\<rparr> in
      if err \<noteq> None then Inr (c, RmvConnection (wc_uuid c) cons)
      else
        bindr (pop_front (wc_send_que c)) (\<lambda>q.
        let c = c\<lparr>wc_send_que := q\<rparr> in
        if q = [] then Inr (c, cons)
        else bindr (front q) (\<lambda>send_msg. Inr (ws_SendCallBack send_msg c, cons))))"

text \<open>\<open>Start\<close> starts a read; \<open>ws_on_read\<close> is the handler, with the message the stream has appended to the buffer.\<close>

definition ws_Start :: "ws_connection \<Rightarrow> ws_connection" where
  "ws_Start c = c\<lparr>wc_reading := True\<rparr>"

definition ws_on_read ::
  "asio_error option \<Rightarrow> string \<Rightarrow> bool \<Rightarrow> ws_connection \<Rightarrow> sessions \<Rightarrow> ws_connection \<times> sessions" where
  "ws_on_read err msg got_text c cons =
     (let c = c\<lparr>wc_reading := False\<rparr> in
      if err \<noteq> None then (c, RmvConnection (wc_uuid c) cons)
      else
        (let c = c\<lparr>wc_recv_buffer := wc_recv_buffer c @ msg\<rparr>;
             c = c\<lparr>wc_text := got_text\<rparr>;
             recv_data = wc_recv_buffer c;
             c = c\<lparr>wc_recv_buffer := []\<rparr>
         in (ws_Start (ws_AsyncSend recv_data c), cons)))"

text \<open>The handler of the WebSocket handshake of the connection under the pointer \<open>p\<close>.\<close>

definition ws_on_handshake :: "asio_error option \<Rightarrow> nat \<Rightarrow> ws_connection \<Rightarrow> sessions \<Rightarrow> ws_connection \<times> sessions" where
  "ws_on_handshake err p c cons =
     (if err = None then (ws_Start c, AddConnection p (wc_uuid c) cons) else (c, cons))"

section \<open>The server\<close>

record ws_server =
  ws_conns :: "nat \<Rightarrow> ws_connection"
  ws_new :: nat
  ws_accepting :: "nat option"
  ws_handshakes :: "nat list"

definition ws_StartAccept :: "string \<Rightarrow> ws_server \<Rightarrow> ws_server" where
  "ws_StartAccept uuid sv =
     sv\<lparr>ws_conns := (ws_conns sv)(ws_new sv := ws_Connection uuid), ws_accepting := Some (ws_new sv), ws_new := Suc (ws_new sv)\<rparr>"

definition ws_on_accept :: "asio_error option \<Rightarrow> string \<Rightarrow> nat \<Rightarrow> ws_server \<Rightarrow> ws_server" where
  "ws_on_accept err next_uuid p sv =
     (let sv = (if err = None then sv\<lparr>ws_handshakes := ws_handshakes sv @ [p]\<rparr> else sv)
      in ws_StartAccept next_uuid sv)"

section \<open>The send queue\<close>

definition ws_queue :: "ws_connection \<Rightarrow> string list" where
  "ws_queue c = wc_send_que c"

definition ws_inflight :: "ws_connection \<Rightarrow> string list" where
  "ws_inflight c = map fst (wc_writes c)"

definition ws_inv :: "ws_connection \<Rightarrow> bool" where
  "ws_inv c \<longleftrightarrow> ws_inflight c = take 1 (wc_send_que c) \<and> wc_recv_buffer c = []"

text \<open>A message arrives, in text or binary mode, and is echoed; a write completes.\<close>

definition ws_receive :: "string \<times> bool \<Rightarrow> ws_connection \<Rightarrow> ws_connection res" where
  "ws_receive = (\<lambda>(msg, got_text) c. Inr (fst (ws_on_read None msg got_text c Map.empty)))"

definition ws_write_done :: "ws_connection \<Rightarrow> ws_connection res" where
  "ws_write_done c = bindr (ws_on_written None c Map.empty) (\<lambda>(c, _). Inr c)"

lemma ws_read_ok:
  assumes "ws_inv c"
  shows "ws_inv (fst (ws_on_read None msg t c cons))" and "wc_send_que (fst (ws_on_read None msg t c cons)) = wc_send_que c @ [msg]"
    and "wc_reading (fst (ws_on_read None msg t c cons))"
  using assms
  by (cases "wc_send_que c";
      simp add: ws_on_read_def Let_def ws_AsyncSend_def ws_Start_def ws_SendCallBack_def push_back_def ws_inv_def ws_inflight_def)+

lemma ws_written_ok:
  assumes "ws_inv c" and "wc_send_que c \<noteq> []"
  shows "\<exists>c'. ws_write_done c = Inr c' \<and> ws_inv c' \<and> wc_send_que c' = tl (wc_send_que c)"
proof -
  from assms obtain m q t where "wc_send_que c = m # q" "wc_writes c = [(m, t)]"
    by (cases "wc_send_que c") (auto simp: ws_inv_def ws_inflight_def map_eq_Cons_conv)
  with assms(1) show ?thesis
    by (cases q) (simp_all add: ws_write_done_def ws_on_written_def Let_def queue_defs ws_SendCallBack_def ws_inv_def ws_inflight_def)
qed

interpretation ws_echo: send_queue ws_queue ws_inflight fst "\<lambda>_. True" ws_inv "\<lambda>_. True" ws_receive ws_write_done
proof unfold_locales
  show "ws_inflight c = take 1 (ws_queue c)" if "ws_inv c" for c using that by (simp add: ws_inv_def ws_queue_def)
  show "\<exists>c'. ws_receive m c = Inr c' \<and> ws_inv c' \<and> ws_queue c' = (if True then ws_queue c @ [fst m] else ws_queue c)"
    if "ws_inv c" for c m using ws_read_ok [OF that] by (simp add: ws_receive_def ws_queue_def split: prod.split)
  show "\<exists>c'. ws_write_done c = Inr c' \<and> ws_inv c' \<and> ws_queue c' = tl (ws_queue c)" if "ws_inv c" "ws_queue c \<noteq> []" for c
    using ws_written_ok [OF that(1)] that(2) by (simp add: ws_queue_def)
qed

section \<open>Properties\<close>

text \<open>
  The WebSocket server echoes every message once and in order, if every write has taken its bytes
  when \<open>async_write\<close> returns: for any interleaving of arriving messages and completed writes on a
  connection, no handler faults, the messages received are those echoed followed by those waiting,
  and one write is in flight at a time.
\<close>

theorem ws_echoes_in_order:
  "\<exists>r. run_sends ws_queue ws_inflight fst ws_receive ws_write_done es (run_start (ws_Connection uuid)) = Inr r \<and>
     run_accepted r = run_delivered r @ wc_send_que (run_state r) \<and>
     map fst (wc_writes (run_state r)) = take 1 (wc_send_que (run_state r))"
proof -
  have "ws_inv (ws_Connection uuid)" "ws_queue (ws_Connection uuid) = []"
    by (simp_all add: ws_inv_def ws_queue_def ws_inflight_def ws_Connection_def)
  moreover have "calls_valid (\<lambda>_. True) es" by (simp add: calls_valid_def)
  ultimately show ?thesis using ws_echo.sends_in_order [of "ws_Connection uuid" es] by (simp add: ws_queue_def ws_inflight_def)
qed

text \<open>
  An error ends a connection: after a failed read or write it is no longer known to the manager,
  no other connection is affected, no new read and no new write is started, and the messages that
  were waiting stay unsent.
\<close>

theorem ws_error_removes:
  assumes "err \<noteq> None"
  shows "ws_on_read err msg t c cons = (c\<lparr>wc_reading := False\<rparr>, cons(wc_uuid c := None)) \<and>
     ws_on_written err c cons = Inr (c\<lparr>wc_writes := tl (wc_writes c)\<rparr>, cons(wc_uuid c := None)) \<and>
     (\<forall>p q. map_find (wc_uuid c) cons = None \<longrightarrow>
        map_find q (snd (ws_on_read err msg t c (snd (ws_on_handshake None p c cons)))) = map_find q cons)"
proof -
  have "map_find q (RmvConnection (wc_uuid c) (AddConnection p (wc_uuid c) cons)) = map_find q cons"
    if "map_find (wc_uuid c) cons = None" for p q
    using std_map_assign.insert_erase [OF that] by (simp add: RmvConnection_def AddConnection_def)
  with assms show ?thesis
    by (simp add: ws_on_read_def ws_on_written_def ws_on_handshake_def Let_def) (simp add: RmvConnection_def map_erase_def)
qed

theorem ws_error_removes_witness:
  "ws_on_read (Some Eof) [] True (ws_Connection ''u'') [''u'' \<mapsto> 1] = ((ws_Connection ''u'')\<lparr>wc_reading := False\<rparr>, Map.empty)"
  using ws_error_removes [of "Some Eof" "[]" True "ws_Connection ''u''" "[''u'' \<mapsto> 1]"] by (simp add: ws_Connection_def)

text \<open>
  The mode of the echo is that of the last message received, not its own: a text message that
  waits in the queue is echoed as a binary message when a binary message arrives before its turn.
\<close>

theorem ws_queued_mode_changes:
  "\<exists>c1 c2 c3 c4. ws_receive (a, True) (ws_Connection uuid) = Inr c1 \<and> ws_receive (b, True) c1 = Inr c2 \<and>
     ws_receive (d, False) c2 = Inr c3 \<and> wc_writes c3 = [(a, True)] \<and> ws_write_done c3 = Inr c4 \<and> wc_writes c4 = [(b, False)]"
  by (simp add: ws_receive_def ws_on_read_def ws_AsyncSend_def ws_SendCallBack_def ws_Start_def ws_Connection_def
      ws_write_done_def ws_on_written_def queue_defs Let_def)

end
