(* ===== verification/Session_Safety.thy ===== *)
theory Session_Safety
  imports Tlv_Server
begin

text \<open>
  Sessions under any network input. A session is driven by completions (of its reads and writes,
  with or without errors, with any bytes) and by the calls of other threads; the locale
  \<open>reactor\<close> says what it takes for no sequence of such events to lead to a fault, and is interpreted on
  the session of the echo server and on the session of the pooled server.
\<close>

section \<open>Reactors\<close>

fun react_all :: "('e \<Rightarrow> 's \<Rightarrow> 's res) \<Rightarrow> 'e list \<Rightarrow> 's \<Rightarrow> 's res" where
  "react_all react [] s = Inr s"
| "react_all react (e # es) s = bindr (react e s) (react_all react es)"

locale reactor =
  fixes react :: "'e \<Rightarrow> 's \<Rightarrow> 's res"
    and inv :: "'s \<Rightarrow> bool"
    and admissible :: "'e \<Rightarrow> bool"
  assumes react_ok: "inv s \<Longrightarrow> admissible e \<Longrightarrow> \<exists>s'. react e s = Inr s' \<and> inv s'"
begin

lemma run_ok:
  assumes "inv s" and "list_all admissible es"
  shows "\<exists>s'. react_all react es s = Inr s' \<and> inv s'"
  using assms
proof (induction es arbitrary: s)
  case (Cons e es)
  then obtain s1 where "react e s = Inr s1" "inv s1" using react_ok [of s e] by auto
  with Cons show ?case by simp
qed simp

end

section \<open>The session with message ids\<close>

text \<open>
  The events: a read of asio completes, with the bytes it has stored; the write in flight
  completes; the logic thread sends an answer. A successful read has filled its buffer, a failed
  one has stored no more than fits. Events that cannot happen (no read is waited for, no write is
  in flight) are skipped. The state has the map of the server and the messages posted so far.
\<close>

datatype tlv_event = Tlv_Read "asio_error option" "char list" | Tlv_Written "asio_error option" | Tlv_Answer string int

type_synonym tlv_state = "tlv_session \<times> sessions \<times> tlv_node list"

definition read_fits :: "asio_error option \<Rightarrow> char list \<Rightarrow> nat \<Rightarrow> bool" where
  "read_fits err bs n \<longleftrightarrow> length bs \<le> n \<and> (err = None \<longrightarrow> length bs = n)"

fun tlv_react :: "tlv_event \<Rightarrow> tlv_state \<Rightarrow> tlv_state res" where
  "tlv_react (Tlv_Read err bs) (s, ss, posted) =
     (case ts_read s of
        No_Read \<Rightarrow> Inr (s, ss, posted)
      | Read_Head n \<Rightarrow>
          if read_fits err bs n then bindr (tlv_HandleReadHead err (length bs) bs s ss) (\<lambda>(s, ss). Inr (s, ss, posted))
          else Inr (s, ss, posted)
      | Read_Body n \<Rightarrow>
          if read_fits err bs n
          then bindr (tlv_HandleReadBody err (length bs) bs s ss) (\<lambda>(s, ss, ms). Inr (s, ss, posted @ ms))
          else Inr (s, ss, posted))"
| "tlv_react (Tlv_Written err) (s, ss, posted) =
     (if ts_writes s = [] then Inr (s, ss, posted)
      else bindr (tlv_HandleWrite err s ss) (\<lambda>(s, ss). Inr (s, ss, posted)))"
| "tlv_react (Tlv_Answer msg msgid) (s, ss, posted) =
     bindr (tlv_Send_string msg msgid s) (\<lambda>s. Inr (s, ss, posted))"

definition well_formed_message :: "tlv_node \<Rightarrow> bool" where
  "well_formed_message m \<longleftrightarrow> 0 < node_msg_id m \<and> node_msg_id m \<le> 2048 \<and> 0 < node_total_len m \<and> node_total_len m \<le> 2048 \<and>
     node_cur_len m = node_total_len m \<and> length (node_data m) = nat (node_total_len m) + 1 \<and> last (node_data m) = NUL"

text \<open>The reading side: the buffers are as large as the reads they were given to.\<close>

definition tlv_reading :: "tlv_session \<Rightarrow> bool" where
  "tlv_reading s \<longleftrightarrow> node_total_len (ts_recv_head s) = 4 \<and> length (node_data (ts_recv_head s)) = 5 \<and>
     (case ts_read s of
        No_Read \<Rightarrow> True
      | Read_Head n \<Rightarrow> n = 4
      | Read_Body n \<Rightarrow>
          \<exists>m. ts_recv_msg s = Some m \<and> node_total_len m = int n \<and> 0 < n \<and> n \<le> 2048 \<and>
              length (node_data m) = n + 1 \<and> 0 < node_msg_id m \<and> node_msg_id m \<le> 2048)"

text \<open>The writing side: a write in flight is of the first node of the queue.\<close>

definition tlv_writing :: "tlv_session \<Rightarrow> bool" where
  "tlv_writing s \<longleftrightarrow> ts_writes s = [] \<or> (ts_send_que s \<noteq> [] \<and> ts_writes s = [tlv_bytes (hd (ts_send_que s))])"

definition tlv_ok :: "tlv_state \<Rightarrow> bool" where
  "tlv_ok = (\<lambda>(s, ss, posted). tlv_reading s \<and> tlv_writing s \<and> list_all well_formed_message posted)"

definition tlv_admissible :: "tlv_event \<Rightarrow> bool" where
  "tlv_admissible e = (case e of Tlv_Answer msg _ \<Rightarrow> length msg \<le> 32763 | _ \<Rightarrow> True)"

lemma fill_node_length: "length bs \<le> length (node_data m) \<Longrightarrow> length (node_data (fill_node bs m)) = length (node_data m)"
  by (simp add: fill_node_def)

lemma fill_tlv_length: "length bs \<le> length (node_data m) \<Longrightarrow> length (node_data (fill_tlv bs m)) = length (node_data m)"
  by (simp add: fill_tlv_def)

lemma fill_fields [simp]:
  "node_total_len (fill_node bs m) = node_total_len m" "node_total_len (fill_tlv bs n) = node_total_len n"
  "node_msg_id (fill_tlv bs n) = node_msg_id n"
  by (simp_all add: fill_node_def fill_tlv_def)

lemma node_clear_length: "node_total_len m = 4 \<Longrightarrow> length (node_data m) = 5 \<Longrightarrow> length (node_data (node_clear m)) = 5"
  by (simp add: node_clear_def)

lemma tlv_fail_fields:
  "ts_read (fst (tlv_fail s ss)) = ts_read s" "ts_recv_head (fst (tlv_fail s ss)) = ts_recv_head s"
  "ts_send_que (fst (tlv_fail s ss)) = ts_send_que s" "ts_writes (fst (tlv_fail s ss)) = ts_writes s"
  by (simp_all add: tlv_fail_def tlv_Close_def)

lemma tlv_head_ok:
  assumes "tlv_reading s" and "ts_read s = Read_Head n" and "read_fits err bs n"
  shows "\<exists>s' ss'. tlv_HandleReadHead err (length bs) bs s ss = Inr (s', ss') \<and> tlv_reading s' \<and>
     ts_send_que s' = ts_send_que s \<and> ts_writes s' = ts_writes s"
proof -
  define s1 where "s1 = s\<lparr>ts_read := No_Read, ts_recv_head := fill_node bs (ts_recv_head s)\<rparr>"
  define i where "i = short_of (word16 (node_data (ts_recv_head s1)))"
  define l where "l = short_of (word16 (drop 2 (node_data (ts_recv_head s1))))"
  have n: "n = 4" "length bs \<le> 4" using assms by (simp_all add: tlv_reading_def read_fits_def)
  have h: "node_total_len (ts_recv_head s1) = 4" "length (node_data (ts_recv_head s1)) = 5"
    using assms(1) n(2) by (simp_all add: s1_def tlv_reading_def fill_node_length)
  obtain s2 ss2 where f: "tlv_fail s1 ss = (s2, ss2)" by (cases "tlv_fail s1 ss")
  have f2: "tlv_reading s2" "ts_send_que s2 = ts_send_que s" "ts_writes s2 = ts_writes s"
    using h tlv_fail_fields [of s1 ss] f by (simp_all add: tlv_reading_def s1_def)
  have eq: "tlv_HandleReadHead err (length bs) bs s ss =
      (if err \<noteq> None \<or> length bs \<noteq> 4 \<or> i \<le> 0 \<or> 2048 < i \<or> l \<le> 0 \<or> 2048 < l then Inr (s2, ss2)
       else bindr (RecvNode l i) (\<lambda>m. Inr (s1\<lparr>ts_recv_msg := Some m, ts_read := Read_Body (nat (node_total_len m))\<rparr>, ss)))"
    by (simp add: tlv_HandleReadHead_def Let_def const_defs f i_def l_def flip: s1_def)
  show ?thesis
  proof (cases "err \<noteq> None \<or> length bs \<noteq> 4 \<or> i \<le> 0 \<or> 2048 < i \<or> l \<le> 0 \<or> 2048 < l")
    case True
    with eq f2 show ?thesis by simp
  next
    case False
    then have r: "0 < i" "i \<le> 2048" "0 < l" "l \<le> 2048" by auto
    define m where "m = \<lparr>node_cur_len = 0, node_total_len = l, node_data = replicate (nat l + 1) NUL, node_msg_id = i\<rparr>"
    have "RecvNode l i = Inr m" using RecvNode_ok [of l i] r(3) by (simp add: m_def)
    with eq False have "tlv_HandleReadHead err (length bs) bs s ss =
        Inr (s1\<lparr>ts_recv_msg := Some m, ts_read := Read_Body (nat l)\<rparr>, ss)" by (simp add: m_def)
    moreover have "tlv_reading (s1\<lparr>ts_recv_msg := Some m, ts_read := Read_Body (nat l)\<rparr>)"
      using h r by (simp add: tlv_reading_def m_def)
    ultimately show ?thesis by (simp add: s1_def)
  qed
qed

lemma tlv_body_ok:
  assumes "tlv_reading s" and "ts_read s = Read_Body n" and "read_fits err bs n"
  shows "\<exists>s' ss' ms. tlv_HandleReadBody err (length bs) bs s ss = Inr (s', ss', ms) \<and> tlv_reading s' \<and>
     list_all well_formed_message ms \<and> ts_send_que s' = ts_send_que s \<and> ts_writes s' = ts_writes s"
proof -
  obtain m0 where m0: "ts_recv_msg s = Some m0" "node_total_len m0 = int n" "0 < n" "n \<le> 2048"
    "length (node_data m0) = n + 1" "0 < node_msg_id m0" "node_msg_id m0 \<le> 2048"
    using assms(1,2) by (auto simp: tlv_reading_def)
  have h: "node_total_len (ts_recv_head s) = 4" "length (node_data (ts_recv_head s)) = 5"
    using assms(1) by (simp_all add: tlv_reading_def)
  define m where "m = fill_tlv bs m0"
  define s1 where "s1 = s\<lparr>ts_read := No_Read, ts_recv_msg := Some m\<rparr>"
  have m: "node_total_len m = int n" "length (node_data m) = n + 1" "node_msg_id m = node_msg_id m0"
    using m0 assms(3) by (simp_all add: m_def fill_tlv_length read_fits_def)
  obtain s2 ss2 where f: "tlv_fail s1 ss = (s2, ss2)" by (cases "tlv_fail s1 ss")
  have f2: "tlv_reading s2" "ts_send_que s2 = ts_send_que s" "ts_writes s2 = ts_writes s"
    using h tlv_fail_fields [of s1 ss] f by (simp_all add: tlv_reading_def s1_def)
  define m1 where "m1 = m\<lparr>node_cur_len := int n, node_data := (node_data m)[n := NUL]\<rparr>"
  define s3 where "s3 = s1\<lparr>ts_recv_msg := Some m1, ts_recv_head := node_clear (ts_recv_head s1), ts_read := Read_Head 4\<rparr>"
  have st: "store (node_data m) (int n) NUL = Inr ((node_data m)[n := NUL])" using m(2) by (simp add: store_def)
  have eq: "tlv_HandleReadBody err (length bs) bs s ss =
      (if err \<noteq> None \<or> length bs \<noteq> n then Inr (s2, ss2, []) else Inr (s3, ss, [m1]))"
    using m0(1) m(1) st f
    by (simp add: tlv_HandleReadBody_def Let_def const_defs m1_def s3_def flip: m_def s1_def)
  have "last ((node_data m)[n := NUL]) = NUL" 
  proof -
    have "(node_data m)[n := NUL] \<noteq> []" using m(2) by auto
    then show ?thesis using m(2) by (simp add: last_conv_nth)
  qed
  then have "well_formed_message m1" using m0 m by (simp add: well_formed_message_def m1_def)
  moreover have "tlv_reading s3" using h node_clear_length [of "ts_recv_head s"] by (simp add: tlv_reading_def s3_def s1_def node_clear_def)
  ultimately show ?thesis using eq f2 by (auto simp: s3_def s1_def)
qed

lemma tlv_reading_upd [simp]:
  "tlv_reading (s\<lparr>ts_writes := w\<rparr>) = tlv_reading s" "tlv_reading (s\<lparr>ts_send_que := q\<rparr>) = tlv_reading s"
  "tlv_reading (s\<lparr>ts_open := b\<rparr>) = tlv_reading s" "tlv_reading (s\<lparr>ts_b_close := b\<rparr>) = tlv_reading s"
  by (simp_all add: tlv_reading_def split: pending_read.split)

lemma tlv_write_ok:
  assumes "tlv_writing s" and "ts_writes s \<noteq> []"
  shows "\<exists>s' ss'. tlv_HandleWrite err s ss = Inr (s', ss') \<and> tlv_writing s' \<and> tlv_reading s' = tlv_reading s"
proof -
  from assms obtain m q where q: "ts_send_que s = m # q" "ts_writes s = [tlv_bytes m]"
    by (cases "ts_send_que s") (auto simp: tlv_writing_def)
  show ?thesis
  proof (cases err)
    case None
    with q show ?thesis
      by (cases q) (simp_all add: tlv_HandleWrite_def Let_def queue_defs tlv_async_write_def tlv_writing_def)
  next
    case (Some e)
    with q show ?thesis by (simp add: tlv_HandleWrite_def tlv_fail_def tlv_Close_def tlv_writing_def)
  qed
qed

lemma tlv_answer_ok:
  assumes "tlv_writing s" and "length msg \<le> 32763"
  shows "\<exists>s'. tlv_Send_string msg i s = Inr s' \<and> tlv_writing s' \<and> tlv_reading s' = tlv_reading s"
proof -
  obtain m where m: "SendNode (msg @ [NUL]) (to_short (int (length msg))) (to_short i) = Inr m"
    using SendNode_string [OF assms(2)] by metis
  show ?thesis
  proof (cases "tlv_admits s")
    case False
    with assms(1) show ?thesis by (simp add: tlv_Send_string_def tlv_Send_def tlv_admits_def Let_def)
  next
    case True
    show ?thesis
    proof (cases "ts_send_que s")
      case Nil
      with True m assms(1) show ?thesis
        by (simp add: tlv_Send_string_def tlv_Send_def tlv_admits_def Let_def queue_defs tlv_async_write_def tlv_writing_def)
    next
      case (Cons n q)
      with True m assms(1) show ?thesis
        by (simp add: tlv_Send_string_def tlv_Send_def tlv_admits_def Let_def queue_defs tlv_writing_def)
    qed
  qed
qed

lemma tlv_writing_cong: "ts_send_que s' = ts_send_que s \<Longrightarrow> ts_writes s' = ts_writes s \<Longrightarrow> tlv_writing s' = tlv_writing s"
  by (simp add: tlv_writing_def)

lemma tlv_react_ok:
  assumes "tlv_ok st" and "tlv_admissible e"
  shows "\<exists>st'. tlv_react e st = Inr st' \<and> tlv_ok st'"
proof -
  obtain s ss posted where st: "st = (s, ss, posted)" by (cases st)
  have ok: "tlv_reading s" "tlv_writing s" "list_all well_formed_message posted" using assms(1) by (simp_all add: tlv_ok_def st)
  show ?thesis
  proof (cases e)
    case (Tlv_Read err bs)
    show ?thesis
    proof (cases "ts_read s")
      case No_Read
      with Tlv_Read ok show ?thesis by (simp add: st tlv_ok_def)
    next
      case (Read_Head n)
      show ?thesis
      proof (cases "read_fits err bs n")
        case True
        from tlv_head_ok [OF ok(1) Read_Head True] obtain s' ss' where
          h: "tlv_HandleReadHead err (length bs) bs s ss = Inr (s', ss')" "tlv_reading s'"
            "ts_send_que s' = ts_send_que s" "ts_writes s' = ts_writes s" by blast
        have "tlv_react e st = Inr (s', ss', posted)" using h(1) Tlv_Read Read_Head True by (simp add: st)
        with h ok tlv_writing_cong [OF h(3,4)] show ?thesis by (simp add: tlv_ok_def)
      qed (use Tlv_Read Read_Head ok in \<open>simp add: st tlv_ok_def\<close>)
    next
      case (Read_Body n)
      show ?thesis
      proof (cases "read_fits err bs n")
        case True
        from tlv_body_ok [OF ok(1) Read_Body True] obtain s' ss' ms where
          h: "tlv_HandleReadBody err (length bs) bs s ss = Inr (s', ss', ms)" "tlv_reading s'" "list_all well_formed_message ms"
            "ts_send_que s' = ts_send_que s" "ts_writes s' = ts_writes s" by blast
        have "tlv_react e st = Inr (s', ss', posted @ ms)" using h(1) Tlv_Read Read_Body True by (simp add: st)
        with h ok tlv_writing_cong [OF h(4,5)] show ?thesis by (simp add: tlv_ok_def)
      qed (use Tlv_Read Read_Body ok in \<open>simp add: st tlv_ok_def\<close>)
    qed
  next
    case (Tlv_Written err)
    show ?thesis
    proof (cases "ts_writes s = []")
      case False
      from tlv_write_ok [OF ok(2) this] obtain s' ss' where
        h: "tlv_HandleWrite err s ss = Inr (s', ss')" "tlv_writing s'" "tlv_reading s' = tlv_reading s" by blast
      have "tlv_react e st = Inr (s', ss', posted)" using h(1) Tlv_Written False by (simp add: st)
      with h ok show ?thesis by (simp add: tlv_ok_def)
    qed (use Tlv_Written ok in \<open>simp add: st tlv_ok_def\<close>)
  next
    case (Tlv_Answer msg i)
    with assms(2) have "length msg \<le> 32763" by (simp add: tlv_admissible_def)
    from tlv_answer_ok [OF ok(2) this] obtain s' where
      h: "tlv_Send_string msg i s = Inr s'" "tlv_writing s'" "tlv_reading s' = tlv_reading s" by blast
    have "tlv_react e st = Inr (s', ss, posted)" using h(1) Tlv_Answer by (simp add: st)
    with h ok show ?thesis by (simp add: tlv_ok_def)
  qed
qed

interpretation tlv_reactor: reactor tlv_react tlv_ok tlv_admissible
  by unfold_locales (rule tlv_react_ok)

lemma tlv_ok_start: "tlv_ok (tlv_Start (tlv_Session uuid), ss, [])"
  by (simp add: tlv_ok_def tlv_reading_def tlv_writing_def tlv_Start_def tlv_Session_def HEAD_TOTAL_LEN_def node_clear_def)


section \<open>The echo session\<close>

datatype async_event = Async_Read "asio_error option" "char list" | Async_Written "asio_error option"

fun async_react :: "async_event \<Rightarrow> async_session \<times> sessions \<Rightarrow> (async_session \<times> sessions) res" where
  "async_react (Async_Read err bs) (s, ss) =
     (case as_read s of
        No_Read \<Rightarrow> Inr (s, ss)
      | Read_Head n \<Rightarrow> if read_fits err bs n then async_handle_read_head err (length bs) bs s ss else Inr (s, ss)
      | Read_Body n \<Rightarrow> if read_fits err bs n then async_handle_read_body err (length bs) bs s ss else Inr (s, ss))"
| "async_react (Async_Written err) (s, ss) =
     (if as_writes s = [] then Inr (s, ss) else async_handle_write err s ss)"

definition async_reading :: "async_session \<Rightarrow> bool" where
  "async_reading s \<longleftrightarrow> node_total_len (as_recv_head s) = 2 \<and> length (node_data (as_recv_head s)) = 3 \<and>
     (case as_read s of
        No_Read \<Rightarrow> True
      | Read_Head n \<Rightarrow> n = 2
      | Read_Body n \<Rightarrow>
          \<exists>m. as_recv_msg s = Some m \<and> node_total_len m = int n \<and> 0 < n \<and> n \<le> 2048 \<and> length (node_data m) = n + 1)"

text \<open>
  The writing side: the write in flight is of the first node of the queue, which never has more
  than 1001 nodes.
\<close>

definition async_writing :: "async_session \<Rightarrow> bool" where
  "async_writing s \<longleftrightarrow> length (as_send_que s) \<le> 1001 \<and>
     (as_writes s = [] \<or> (as_send_que s \<noteq> [] \<and> as_writes s = [node_bytes (hd (as_send_que s))]))"

definition async_ok :: "async_session \<times> sessions \<Rightarrow> bool" where
  "async_ok = (\<lambda>(s, ss). async_reading s \<and> async_writing s)"

lemma async_writing_cong:
  "as_send_que s' = as_send_que s \<Longrightarrow> as_writes s' = as_writes s \<Longrightarrow> async_writing s' = async_writing s"
  by (simp add: async_writing_def)

lemma async_reading_upd [simp]:
  "async_reading (s\<lparr>as_writes := w\<rparr>) = async_reading s"
  "async_reading (s\<lparr>as_send_que := q\<rparr>) = async_reading s"
  "async_reading (async_write m s) = async_reading s"
  by (simp_all add: async_reading_def async_write_def split: pending_read.split)

lemma async_head_ok:
  assumes "async_reading s" and "as_read s = Read_Head n" and "read_fits err bs n"
  shows "\<exists>s' ss'. async_handle_read_head err (length bs) bs s ss = Inr (s', ss') \<and> async_reading s' \<and>
     as_send_que s' = as_send_que s \<and> as_writes s' = as_writes s"
proof -
  from assms have n: "n = 2" and h: "node_total_len (as_recv_head s) = 2" "length (node_data (as_recv_head s)) = 3" by (simp_all add: async_reading_def)
  from assms(3) n h have f: "node_total_len (fill_node bs (as_recv_head s)) = 2" "length (node_data (fill_node bs (as_recv_head s))) = 3"
    by (simp_all add: fill_node_def read_fits_def)
  define v where "v = uint (word16 (node_data (fill_node bs (as_recv_head s))))"
  define s1 where "s1 = s\<lparr>as_read := No_Read, as_recv_head := fill_node bs (as_recv_head s)\<rparr>"
  show ?thesis
  proof (cases "err = None \<and> length bs = 2 \<and> 0 < v \<and> v \<le> 2048")
    case True
    define m where "m = \<lparr>node_cur_len = 0, node_total_len = v, node_data = replicate (nat v + 1) NUL\<rparr>"
    define s2 where "s2 = s1\<lparr>as_recv_msg := Some m, as_read := Read_Body (nat v)\<rparr>"
    have "async_recv_node v = Inr m" using True by (simp add: async_recv_node_def new_chars_def m_def nat_add_distrib)
    then have "async_handle_read_head err (length bs) bs s ss = Inr (s2, ss)"
      using True by (simp add: async_handle_read_head_def Let_def HEAD_SIZE_def max_length_def s2_def s1_def flip: v_def)
    moreover have "async_reading s2" using True f by (simp add: async_reading_def s2_def s1_def m_def nat_le_iff)
    ultimately show ?thesis by (intro exI [of _ s2] exI [of _ ss]) (simp add: s2_def s1_def)
  next
    case False
    then have "async_handle_read_head err (length bs) bs s ss = Inr (s1, async_ClearSession (as_uuid s) ss)"
      by (auto simp: async_handle_read_head_def Let_def HEAD_SIZE_def max_length_def s1_def simp flip: v_def)
    moreover have "async_reading s1" using f by (simp add: async_reading_def s1_def)
    ultimately show ?thesis by (intro exI [of _ s1] exI) (simp add: s1_def)
  qed
qed

lemma async_Send_writing:
  assumes "async_writing s" and "k \<le> length msg"
  shows "\<exists>s'. async_Send msg (int k) s = Inr s' \<and> async_writing s' \<and> as_recv_head s' = as_recv_head s"
proof -
  obtain m where m: "async_send_node msg (int k) = Inr m" using async_send_node_frame [OF assms(2)] by blast
  show ?thesis
  proof (cases "as_send_que s")
    case Nil
    with m assms(1) show ?thesis
      by (simp add: async_Send_def Let_def queue_defs async_write_def async_writing_def MAX_SENDQUEUE_SIZE_def)
  next
    case (Cons a q)
    with m assms(1) show ?thesis
      by (simp add: async_Send_def Let_def queue_defs async_writing_def MAX_SENDQUEUE_SIZE_def)
  qed
qed

lemma async_body_ok:
  assumes "async_reading s" and "async_writing s" and "as_read s = Read_Body n" and "read_fits err bs n"
  shows "\<exists>s' ss'. async_handle_read_body err (length bs) bs s ss = Inr (s', ss') \<and> async_reading s' \<and> async_writing s'"
proof -
  from assms obtain m0 where m0: "as_recv_msg s = Some m0" "node_total_len m0 = int n" "0 < n" "n \<le> 2048"
    "length (node_data m0) = n + 1" by (auto simp: async_reading_def)
  have h: "node_total_len (as_recv_head s) = 2" "length (node_data (as_recv_head s)) = 3" using assms(1) by (simp_all add: async_reading_def)
  define m where "m = fill_node bs m0"
  have m: "node_total_len m = int n" "length (node_data m) = n + 1"
    using m0 assms(4) by (simp_all add: m_def fill_node_def read_fits_def)
  define s1 where "s1 = s\<lparr>as_read := No_Read, as_recv_msg := Some m\<rparr>"
  have s1: "async_reading s1" "async_writing s1"
    using h assms(2) by (simp_all add: s1_def async_reading_def async_writing_def)
  show ?thesis
  proof (cases "err = None \<and> length bs = n")
    case False
    then have "async_handle_read_body err (length bs) bs s ss = Inr (s1, async_ClearSession (as_uuid s1) ss)"
      using m0(1) m(1) by (auto simp: async_handle_read_body_def Let_def s1_def simp flip: m_def)
    with s1 show ?thesis by blast
  next
    case True
    define d where "d = (node_data m)[n := NUL]"
    define s2 where "s2 = s1\<lparr>as_recv_msg := Some (m\<lparr>node_cur_len := int n, node_data := d\<rparr>)\<rparr>"
    have st: "store (node_data m) (int n) NUL = Inr d" using m(2) by (simp add: store_def d_def)
    have "async_writing s2" using s1(2) by (simp add: s2_def async_writing_def)
    moreover have "n \<le> length d" using m(2) by (simp add: d_def)
    ultimately obtain s3 where s3: "async_Send d (int n) s2 = Inr s3" "async_writing s3" "as_recv_head s3 = as_recv_head s2"
      using async_Send_writing by blast
    define s4 where "s4 = s3\<lparr>as_recv_head := node_clear (as_recv_head s3), as_read := Read_Head 2\<rparr>"
    have "async_handle_read_body err (length bs) bs s ss = Inr (s4, ss)"
      using True m0(1) m(1) st s3(1)
      by (simp add: async_handle_read_body_def Let_def s4_def s2_def s1_def HEAD_SIZE_def flip: m_def)
    moreover have "async_reading s4" using s3(3) h by (simp add: s4_def s2_def s1_def async_reading_def node_clear_def)
    moreover have "async_writing s4" using s3(2) by (simp add: s4_def async_writing_def)
    ultimately show ?thesis by blast
  qed
qed

lemma async_handle_write_ok:
  assumes "async_writing s" and "as_writes s \<noteq> []"
  shows "\<exists>s' ss'. async_handle_write err s ss = Inr (s', ss') \<and> async_writing s' \<and> async_reading s' = async_reading s"
proof -
  from assms obtain m q where q: "as_send_que s = m # q" "as_writes s = [node_bytes m]"
    by (cases "as_send_que s") (auto simp: async_writing_def)
  have len: "length q \<le> 1000" using assms(1) q(1) by (simp add: async_writing_def)
  show ?thesis
  proof (cases "err = None")
    case True
    then show ?thesis using q len
      by (cases q) (simp_all add: async_handle_write_def Let_def queue_defs async_writing_def, simp_all add: async_write_def)
  next
    case False
    then have "(err = None) = False" by simp
    then show ?thesis using q len by (simp add: async_handle_write_def Let_def async_writing_def del: not_None_eq)
  qed
qed

lemma async_react_ok:
  assumes "async_ok st" and "True"
  shows "\<exists>st'. async_react e st = Inr st' \<and> async_ok st'"
proof -
  obtain s ss where st: "st = (s, ss)" by (cases st)
  with assms have ok: "async_reading s" "async_writing s" by (simp_all add: async_ok_def)
  show ?thesis
  proof (cases e)
    case (Async_Read err bs)
    show ?thesis
    proof (cases "as_read s")
      case No_Read
      with Async_Read ok show ?thesis by (simp add: st async_ok_def)
    next
      case (Read_Head n)
      show ?thesis
      proof (cases "read_fits err bs n")
        case True
        from async_head_ok [OF ok(1) Read_Head True] obtain s' ss' where
          h: "async_handle_read_head err (length bs) bs s ss = Inr (s', ss')" "async_reading s'"
            "as_send_que s' = as_send_que s" "as_writes s' = as_writes s" by blast
        with Async_Read Read_Head True ok async_writing_cong [OF h(3,4)] show ?thesis by (simp add: st async_ok_def)
      qed (use Async_Read Read_Head ok in \<open>simp add: st async_ok_def\<close>)
    next
      case (Read_Body n)
      show ?thesis
      proof (cases "read_fits err bs n")
        case True
        from async_body_ok [OF ok Read_Body True] obtain s' ss' where
          "async_handle_read_body err (length bs) bs s ss = Inr (s', ss')" "async_reading s'" "async_writing s'" by blast
        with Async_Read Read_Body True show ?thesis by (simp add: st async_ok_def)
      qed (use Async_Read Read_Body ok in \<open>simp add: st async_ok_def\<close>)
    qed
  next
    case (Async_Written err)
    show ?thesis
    proof (cases "as_writes s = []")
      case False
      from async_handle_write_ok [OF ok(2) this] obtain s' ss' where
        "async_handle_write err s ss = Inr (s', ss')" "async_writing s'" "async_reading s' = async_reading s" by blast
      with Async_Written False ok(1) show ?thesis by (simp add: st async_ok_def)
    qed (use Async_Written ok in \<open>simp add: st async_ok_def\<close>)
  qed
qed

interpretation async_reactor: reactor async_react async_ok "\<lambda>_. True"
  by unfold_locales (rule async_react_ok)

lemma async_ok_start: "async_ok (async_Start (async_Session uuid), ss)"
  by (simp add: async_ok_def async_reading_def async_writing_def async_Start_def async_Session_def HEAD_SIZE_def node_clear_def)

section \<open>Properties\<close>

text \<open>
  C4. A session of the pooled server survives any peer: whatever bytes arrive, whichever reads and
  writes fail, and however the answers of the logic thread (of at most 32763 characters) fall
  between, no handler faults (no access outside a node, no null message, no empty queue popped),
  at most one write is in flight and it is of the first node of the queue, and
  every message handed to the logic layer has an id and a length between 1 and 2048 and ends
  with a zero byte.
\<close>

theorem tlv_session_safe:
  assumes "list_all tlv_admissible es"
  shows "\<exists>s ss' posted. react_all tlv_react es (tlv_Start (tlv_Session uuid), ss, []) = Inr (s, ss', posted) \<and>
     tlv_reading s \<and> list_all well_formed_message posted \<and>
     (ts_writes s = [] \<or> (ts_send_que s \<noteq> [] \<and> ts_writes s = [tlv_bytes (hd (ts_send_que s))]))"
  using tlv_reactor.run_ok [OF tlv_ok_start [of uuid ss] assms] by (auto simp: tlv_ok_def tlv_writing_def)

theorem tlv_session_safe_witness:
  "\<exists>s ss' posted. react_all tlv_react
       [Tlv_Read None [CHR 0x03, CHR 0xE9, CHR 0x00, CHR 0x02], Tlv_Answer ''ok'' 1001, Tlv_Read None ''hi'',
        Tlv_Written None, Tlv_Read (Some Eof) [CHR 0x03]] (tlv_Start (tlv_Session ''u''), Map.empty, []) = Inr (s, ss', posted) \<and>
     tlv_reading s \<and> list_all well_formed_message posted"
  using tlv_session_safe [of "[Tlv_Read None [CHR 0x03, CHR 0xE9, CHR 0x00, CHR 0x02], Tlv_Answer ''ok'' 1001, Tlv_Read None ''hi'',
        Tlv_Written None, Tlv_Read (Some Eof) [CHR 0x03]]" "''u''" Map.empty]
  by (auto simp: tlv_admissible_def)

text \<open>
  C17. A session of the echo server survives any peer: whatever bytes arrive and whichever reads and
  writes fail, no handler faults, at most one write is in flight and it is of the first node of the
  queue, and the queue never has more than 1001 nodes.
\<close>

theorem async_session_safe:
  "\<exists>s ss'. react_all async_react es (async_Start (async_Session uuid), ss) = Inr (s, ss') \<and>
     async_reading s \<and> length (as_send_que s) \<le> 1001 \<and>
     (as_writes s = [] \<or> (as_send_que s \<noteq> [] \<and> as_writes s = [node_bytes (hd (as_send_que s))]))"
  using async_reactor.run_ok [OF async_ok_start, of es uuid ss] by (auto simp: async_ok_def async_writing_def list_all_iff)

end
