(* ===== verification/Webbench.thy ===== *)
theory Webbench
  imports Http_Parse_Correct
begin

text \<open>
  The load generator (\<open>1. Proactor/webbench-1.5/webbench.c\<close>, \<open>socket.c\<close>): its options, the request
  it builds for a URL, the connection it opens, the loop of a client process, and the parent that
  forks the clients and adds up their counts. The globals are a record. The results of
  \<open>getopt_long\<close> and of the system calls are arguments; the arrays \<open>host\<close>,
  \<open>request\<close> and \<open>tmp\<close> have the sizes of the source, and a copy that leaves them is a fault. Messages to
  the terminal are left out.
\<close>

section \<open>Globals\<close>

abbreviation "MAXHOSTNAMELEN \<equiv> (64 :: nat)"
abbreviation "REQUEST_SIZE \<equiv> (2048 :: nat)"
abbreviation (input) "METHOD_GET \<equiv> (0 :: int)"
abbreviation (input) "METHOD_HEAD \<equiv> (1 :: int)"
abbreviation (input) "METHOD_OPTIONS \<equiv> (2 :: int)"
abbreviation (input) "METHOD_TRACE \<equiv> (3 :: int)"

record webbench =
  wb_timerexpired :: int
  wb_speed :: int
  wb_failed :: int
  wb_bytes :: int
  wb_http10 :: int
  wb_method :: int
  wb_clients :: int
  wb_force :: int
  wb_force_reload :: int
  wb_proxyport :: int
  wb_proxyhost :: "string option"
  wb_benchtime :: int
  wb_host :: cbuf
  wb_request :: cbuf

definition wb_globals :: webbench where
  "wb_globals = \<lparr>wb_timerexpired = 0, wb_speed = 0, wb_failed = 0, wb_bytes = 0, wb_http10 = 1, wb_method = METHOD_GET,
     wb_clients = 1, wb_force = 0, wb_force_reload = 0, wb_proxyport = 80, wb_proxyhost = None, wb_benchtime = 30,
     wb_host = zero_buf, wb_request = zero_buf\<rparr>"

definition alarm_handler :: "webbench \<Rightarrow> webbench" where
  "alarm_handler w = w\<lparr>wb_timerexpired := 1\<rparr>"

text \<open>A part of the program ends the process with a code, or goes on.\<close>

datatype 'a outcome = Exits int | Runs 'a

section \<open>String functions\<close>

fun strstr :: "string \<Rightarrow> string \<Rightarrow> nat option" where
  "strstr [] sub = (if sub = [] then Some 0 else None)"
| "strstr (c # s) sub = (if take (length sub) (c # s) = sub then Some 0 else map_option Suc (strstr s sub))"

definition strrchr :: "string \<Rightarrow> char \<Rightarrow> nat option" where
  "strrchr s ch = map_option (\<lambda>k. length s - Suc k) (find_in [ch] (rev s))"

definition strcspn :: "string \<Rightarrow> string \<Rightarrow> nat" where
  "strcspn s reject = length (takeWhile (\<lambda>c. c \<notin> set reject) s)"

definition atoi :: "string \<Rightarrow> int" where
  "atoi s = to_int32 (atol_value s)"

text \<open>\<open>strcpy\<close>, \<open>strcat\<close> and \<open>strncpy\<close> into an array of \<open>n\<close> bytes.\<close>

definition strcpy :: "nat \<Rightarrow> cbuf \<Rightarrow> string \<Rightarrow> cbuf res" where
  "strcpy n b s = (if length s < n then Inr (blit b 0 (s @ [NUL])) else Inl Out_Of_Bounds)"

definition strcat_at :: "nat \<Rightarrow> cbuf \<Rightarrow> nat \<Rightarrow> string \<Rightarrow> cbuf res" where
  "strcat_at n b i s =
     bindr (strlen_at n b i) (\<lambda>l.
     if i + l + length s < n then Inr (blit b (i + l) (s @ [NUL])) else Inl Out_Of_Bounds)"

definition strcat :: "nat \<Rightarrow> cbuf \<Rightarrow> string \<Rightarrow> cbuf res" where
  "strcat n b s = strcat_at n b 0 s"

definition strncpy :: "nat \<Rightarrow> cbuf \<Rightarrow> string \<Rightarrow> nat \<Rightarrow> cbuf res" where
  "strncpy n b s k =
     (if k \<le> n then Inr (blit b 0 (take k s @ replicate (k - length s) NUL)) else Inl Out_Of_Bounds)"

text \<open>The string in an array, as a call that is given the array reads it.\<close>

definition cstring :: "nat \<Rightarrow> cbuf \<Rightarrow> string res" where
  "cstring n b = bindr (strlen_at n b 0) (\<lambda>l. Inr (slice b 0 l))"

section \<open>Building the request\<close>

text \<open>The protocol version the other options force.\<close>

definition wb_version :: "webbench \<Rightarrow> int" where
  "wb_version w =
     (let v = wb_http10 w;
          v = (if wb_force_reload w \<noteq> 0 \<and> wb_proxyhost w \<noteq> None \<and> v < 1 then 1 else v);
          v = (if wb_method w = METHOD_HEAD \<and> v < 1 then 1 else v);
          v = (if wb_method w = METHOD_OPTIONS \<and> v < 2 then 2 else v);
          v = (if wb_method w = METHOD_TRACE \<and> v < 2 then 2 else v)
      in v)"

definition wb_method_name :: "int \<Rightarrow> string" where
  "wb_method_name m =
     (if m = METHOD_HEAD then ''HEAD'' else if m = METHOD_OPTIONS then ''OPTIONS''
      else if m = METHOD_TRACE then ''TRACE'' else ''GET'')"

text \<open>The host and the port of the URL behind \<open>://\<close>, into \<open>host\<close> and \<open>proxyport\<close>.\<close>

definition wb_split_host :: "string \<Rightarrow> webbench \<Rightarrow> webbench res" where
  "wb_split_host rest w =
     (case (find_in [CHR '':''] rest, find_in [CHR ''/''] rest) of
        (Some co, Some sl) \<Rightarrow>
          if co < sl then
            bindr (strncpy MAXHOSTNAMELEN (wb_host w) rest co) (\<lambda>h.
            bindr (strncpy 10 zero_buf (drop (co + 1) rest) (sl - co - 1)) (\<lambda>tmp.
            bindr (atol 10 tmp 0) (\<lambda>v.
            let port = to_int32 v in
            Inr (w\<lparr>wb_host := h, wb_proxyport := (if port = 0 then 80 else port)\<rparr>))))
          else bindr (strncpy MAXHOSTNAMELEN (wb_host w) rest (strcspn rest ''/'')) (\<lambda>h. Inr (w\<lparr>wb_host := h\<rparr>))
      | _ \<Rightarrow> bindr (strncpy MAXHOSTNAMELEN (wb_host w) rest (strcspn rest ''/'')) (\<lambda>h. Inr (w\<lparr>wb_host := h\<rparr>)))"

text \<open>What follows the URL on the request line, and the headers.\<close>

definition wb_finish_request :: "webbench \<Rightarrow> cbuf \<Rightarrow> cbuf res" where
  "wb_finish_request w r =
     (let N = REQUEST_SIZE; v = wb_http10 w in
      bindr (if v = 1 then strcat N r '' HTTP/1.0'' else if v = 2 then strcat N r '' HTTP/1.1'' else Inr r) (\<lambda>r.
      bindr (strcat N r CRLF) (\<lambda>r.
      bindr (if 0 < v then strcat N r (''User-Agent: WebBench 1.5'' @ CRLF) else Inr r) (\<lambda>r.
      bindr (if wb_proxyhost w = None \<and> 0 < v then
               bindr (strcat N r ''Host: '') (\<lambda>r.
               bindr (cstring MAXHOSTNAMELEN (wb_host w)) (\<lambda>h.
               bindr (strcat N r h) (\<lambda>r. strcat N r CRLF)))
             else Inr r) (\<lambda>r.
      bindr (if wb_force_reload w \<noteq> 0 \<and> wb_proxyhost w \<noteq> None then strcat N r (''Pragma: no-cache'' @ CRLF) else Inr r) (\<lambda>r.
      bindr (if 1 < v then strcat N r (''Connection: close'' @ CRLF) else Inr r) (\<lambda>r.
      if 0 < v then strcat N r CRLF else Inr r)))))))"

definition build_request :: "string \<Rightarrow> webbench \<Rightarrow> webbench outcome res" where
  "build_request url w =
     (let w = w\<lparr>wb_host := zero_buf, wb_request := zero_buf, wb_http10 := wb_version w\<rparr>; N = REQUEST_SIZE in
      bindr (strcpy N (wb_request w) (wb_method_name (wb_method w))) (\<lambda>r.
      bindr (strcat N r '' '') (\<lambda>r.
      case strstr url ''://'' of
        None \<Rightarrow> Inr (Exits 2)
      | Some k \<Rightarrow>
          if 1500 < length url then Inr (Exits 2)
          else if wb_proxyhost w = None \<and> \<not> ci_prefix ''http://'' url then Inr (Exits 2)
          else
            (let rest = drop (k + 3) url in
             if find_in [CHR ''/''] rest = None then Inr (Exits 2)
             else
               bindr (if wb_proxyhost w = None then
                        bindr (wb_split_host rest w) (\<lambda>w.
                        bindr (strlen_at N r 0) (\<lambda>l.
                        bindr (strcat_at N r l (drop (strcspn rest ''/'') rest)) (\<lambda>r. Inr (w, r))))
                      else bindr (strcat N r url) (\<lambda>r. Inr (w, r))) (\<lambda>(w, r).
               bindr (wb_finish_request w r) (\<lambda>r.
               Inr (Runs (w\<lparr>wb_request := r\<rparr>))))))))"

section \<open>Options\<close>

text \<open>
  What \<open>getopt_long\<close> returns: 0 where it has stored a value for a long option (\<open>--force\<close>,
  \<open>--reload\<close>, and a method), or a character with its argument. The first
  operand, if any, is the URL.
\<close>

datatype wb_option = Stored_Force | Stored_Reload | Stored_Method int | Opt char | Opt_Arg char string

definition wb_proxy_option :: "string \<Rightarrow> webbench \<Rightarrow> webbench outcome" where
  "wb_proxy_option optarg w =
     (case strrchr optarg (CHR '':'') of
        None \<Rightarrow> Runs (w\<lparr>wb_proxyhost := Some optarg\<rparr>)
      | Some k \<Rightarrow>
          if k = 0 then Exits 2
          else if k = length optarg - 1 then Exits 2
          else Runs (w\<lparr>wb_proxyhost := Some (take k optarg), wb_proxyport := atoi (drop (k + 1) optarg)\<rparr>))"

fun wb_option_step :: "wb_option \<Rightarrow> webbench \<Rightarrow> webbench outcome" where
  "wb_option_step Stored_Force w = Runs (w\<lparr>wb_force := 1\<rparr>)"
| "wb_option_step Stored_Reload w = Runs (w\<lparr>wb_force_reload := 1\<rparr>)"
| "wb_option_step (Stored_Method m) w = Runs (w\<lparr>wb_method := m\<rparr>)"
| "wb_option_step (Opt c) w =
     (if c = CHR ''f'' then Runs (w\<lparr>wb_force := 1\<rparr>)
      else if c = CHR ''r'' then Runs (w\<lparr>wb_force_reload := 1\<rparr>)
      else if c = CHR ''9'' then Runs (w\<lparr>wb_http10 := 0\<rparr>)
      else if c = CHR ''1'' then Runs (w\<lparr>wb_http10 := 1\<rparr>)
      else if c = CHR ''2'' then Runs (w\<lparr>wb_http10 := 2\<rparr>)
      else if c = CHR ''V'' then Exits 0
      else if c = CHR '':'' \<or> c = CHR ''h'' \<or> c = CHR ''?'' then Exits 2
      else Runs w)"
| "wb_option_step (Opt_Arg c optarg) w =
     (if c = CHR ''t'' then Runs (w\<lparr>wb_benchtime := atoi optarg\<rparr>)
      else if c = CHR ''p'' then wb_proxy_option optarg w
      else if c = CHR ''c'' then Runs (w\<lparr>wb_clients := atoi optarg\<rparr>)
      else Runs w)"

fun wb_options :: "wb_option list \<Rightarrow> webbench \<Rightarrow> webbench outcome" where
  "wb_options [] w = Runs w"
| "wb_options (x # xs) w = (case wb_option_step x w of Exits rc \<Rightarrow> Exits rc | Runs w \<Rightarrow> wb_options xs w)"

section \<open>Connections\<close>

text \<open>
  The network as \<open>Socket\<close> sees it: the address of a host name written in dotted form
  (\<open>inet_addr\<close>) or resolved (\<open>gethostbyname\<close>), the descriptor \<open>socket\<close> returns
  and the result of \<open>connect\<close>. The list holds the descriptors the process has open.
\<close>

record resolver =
  net_inet_addr :: "string \<Rightarrow> 32 word"
  net_gethostbyname :: "string \<Rightarrow> 32 word option"

definition INADDR_NONE :: "32 word" where "INADDR_NONE = 0xffffffff"

definition Socket :: "resolver \<Rightarrow> int \<Rightarrow> (sockaddr_in \<Rightarrow> int) \<Rightarrow> string \<Rightarrow> int \<Rightarrow> int list \<Rightarrow> int \<times> int list" where
  "Socket net sock connect host clientPort fds =
     (case (if net_inet_addr net host \<noteq> INADDR_NONE then Some (net_inet_addr net host) else net_gethostbyname net host) of
        None \<Rightarrow> (-1, fds)
      | Some inaddr \<Rightarrow>
          (let ad = \<lparr>sin_port = word_of_int clientPort, sin_addr = inaddr\<rparr> in
           if sock < 0 then (sock, fds)
           else if connect ad < 0 then (-1, fds @ [sock])
           else (sock, fds @ [sock])))"

definition wb_close :: "int \<Rightarrow> int list \<Rightarrow> int list" where
  "wb_close s fds = remove1 s fds"

section \<open>A client process\<close>

text \<open>
  One turn of the loop of \<open>benchcore\<close>: what \<open>socket\<close>, \<open>connect\<close>, \<open>write\<close>, \<open>shutdown\<close>, each \<open>read\<close> and \<open>close\<close>
  return. Where the list of reads ends the alarm goes off, and the next look at
  \<open>timerexpired\<close> sees it.
\<close>

record attempt =
  at_socket :: int
  at_connect :: int
  at_write :: int
  at_shutdown :: int
  at_reads :: "int list"
  at_close :: int

definition wb_fail :: "webbench \<Rightarrow> webbench res" where
  "wb_fail w = bindr (add_int (wb_failed w) 1) (\<lambda>f. Inr (w\<lparr>wb_failed := f\<rparr>))"

text \<open>The loop over \<open>read\<close>: the result says whether it was left by the \<open>goto\<close>.\<close>

fun read_reply :: "int list \<Rightarrow> webbench \<Rightarrow> (bool \<times> webbench) res" where
  "read_reply [] w = Inr (False, alarm_handler w)"
| "read_reply (i # rs) w =
     (if i < 0 then bindr (wb_fail w) (\<lambda>w. Inr (True, w))
      else if i = 0 then Inr (False, w)
      else bindr (add_int (wb_bytes w) i) (\<lambda>b. read_reply rs (w\<lparr>wb_bytes := b\<rparr>)))"

definition bench_attempt ::
  "resolver \<Rightarrow> string \<Rightarrow> int \<Rightarrow> string \<Rightarrow> attempt \<Rightarrow> webbench \<times> int list \<Rightarrow> (webbench \<times> int list) res" where
  "bench_attempt net host port req a = (\<lambda>(w, fds).
     (let rlen = int (length req);
          (s, fds) = Socket net (at_socket a) (\<lambda>_. at_connect a) host port fds in
      if s < 0 then bindr (wb_fail w) (\<lambda>w. Inr (w, fds))
      else if rlen \<noteq> at_write a then bindr (wb_fail w) (\<lambda>w. Inr (w, wb_close s fds))
      else if wb_http10 w = 0 \<and> at_shutdown a \<noteq> 0 then bindr (wb_fail w) (\<lambda>w. Inr (w, wb_close s fds))
      else
        bindr (if wb_force w = 0 then read_reply (at_reads a) w else Inr (False, w)) (\<lambda>(again, w).
        let fds = wb_close s fds in
        if again then Inr (w, fds)
        else if at_close a \<noteq> 0 then bindr (wb_fail w) (\<lambda>w. Inr (w, fds))
        else bindr (add_int (wb_speed w) 1) (\<lambda>v. Inr (w\<lparr>wb_speed := v\<rparr>, fds)))))"

definition bench_expired :: "webbench \<Rightarrow> webbench" where
  "bench_expired w = (if 0 < wb_failed w then w\<lparr>wb_failed := wb_failed w - 1\<rparr> else w)"

text \<open>The alarm goes off at the latest where the list of turns ends.\<close>

fun benchcore_loop :: "resolver \<Rightarrow> string \<Rightarrow> int \<Rightarrow> string \<Rightarrow> attempt list \<Rightarrow> webbench \<times> int list \<Rightarrow> (webbench \<times> int list) res" where
  "benchcore_loop net host port req [] (w, fds) = Inr (bench_expired (alarm_handler w), fds)"
| "benchcore_loop net host port req (a # as) (w, fds) =
     (if wb_timerexpired w \<noteq> 0 then Inr (bench_expired w, fds)
      else bindr (bench_attempt net host port req a (w, fds)) (benchcore_loop net host port req as))"

definition benchcore ::
  "resolver \<Rightarrow> string \<Rightarrow> int \<Rightarrow> string \<Rightarrow> int \<Rightarrow> attempt list \<Rightarrow> webbench \<times> int list \<Rightarrow> (webbench \<times> int list) outcome res" where
  "benchcore net host port req sigaction turns st =
     (if sigaction \<noteq> 0 then Inr (Exits 3)
      else bindr (benchcore_loop net host port req turns st) (\<lambda>st. Inr (Runs st)))"

section \<open>The parent\<close>

text \<open>
  The fork loop: what each call of \<open>fork\<close> returns in this process. The loop ends in a child (0), on
  a failure, or after the last client; the result is \<open>i\<close> and the last \<open>pid\<close>.
\<close>

function fork_loop :: "int \<Rightarrow> (int \<Rightarrow> int) \<Rightarrow> int \<Rightarrow> int \<Rightarrow> int \<times> int" where
  "fork_loop clients fork i pid =
     (if i < clients then (if fork i \<le> 0 then (i, fork i) else fork_loop clients fork (i + 1) (fork i)) else (i, pid))"
  by pat_completeness auto
termination
  by (relation "measure (\<lambda>(clients, fork, i, pid). nat (clients - i))") auto

declare fork_loop.simps [simp del]

text \<open>
  The parent's loop: each element is what one \<open>fscanf\<close> converts (none where the pipe is at its
  end), \<open>i\<close> and \<open>k\<close> the variables it stores into. Fewer than two numbers end the loop.
\<close>

fun collect :: "int list list \<Rightarrow> int \<Rightarrow> int \<Rightarrow> webbench \<Rightarrow> (int \<times> webbench) res" where
  "collect [] i k w = Inr (i, w)"
| "collect (xs # xss) i k w =
     (let i = (case xs of [] \<Rightarrow> i | x # _ \<Rightarrow> x) in
      if length xs < 2 then Inr (i, w)
      else
        (let j = xs ! 1; k = (if length xs < 3 then k else xs ! 2) in
         bindr (add_int (wb_speed w) i) (\<lambda>sp.
         bindr (add_int (wb_failed w) j) (\<lambda>fa.
         bindr (add_int (wb_bytes w) k) (\<lambda>by.
         bindr (add_int (wb_clients w) (- 1)) (\<lambda>cl.
         let w = w\<lparr>wb_speed := sp, wb_failed := fa, wb_bytes := by, wb_clients := cl\<rparr> in
         if cl = 0 then Inr (i, w) else collect xss i k w))))))"

text \<open>
  The world of \<open>bench\<close>: the first connection, \<open>pipe\<close>, \<open>fork\<close>, \<open>sigaction\<close>, \<open>fdopen\<close>, what the pipe delivers to the
  parent, what \<open>k\<close> held before, and the turns of the loop in a child.
\<close>

record bench_env =
  be_net :: resolver
  be_socket :: int
  be_connect :: int
  be_pipe :: int
  be_fork :: "int \<Rightarrow> int"
  be_sigaction :: int
  be_fdopen :: bool
  be_scans :: "int list list"
  be_k :: int
  be_turns :: "attempt list"

text \<open>The exit code, the globals, and the line a child writes into the pipe.\<close>

type_synonym bench_result = "int \<times> webbench \<times> (int \<times> int \<times> int) option"

definition bench :: "bench_env \<Rightarrow> webbench \<Rightarrow> bench_result res" where
  "bench env w =
     bindr (case wb_proxyhost w of None \<Rightarrow> cstring MAXHOSTNAMELEN (wb_host w) | Some p \<Rightarrow> Inr p) (\<lambda>target.
     let (s, fds) = Socket (be_net env) (be_socket env) (\<lambda>_. be_connect env) target (wb_proxyport w) [] in
     if s < 0 then Inr (1, w, None)
     else if be_pipe env \<noteq> 0 then Inr (3, w, None)
     else
       (let (i, pid) = fork_loop (wb_clients w) (be_fork env) 0 0 in
        if pid < 0 then Inr (3, w, None)
        else if pid = 0 then
          bindr (cstring REQUEST_SIZE (wb_request w)) (\<lambda>req.
          bindr (benchcore (be_net env) target (wb_proxyport w) req (be_sigaction env) (be_turns env) (w, wb_close s fds))
            (\<lambda>out. case out of
               Exits rc \<Rightarrow> Inr (rc, w, None)
             | Runs (w, _) \<Rightarrow>
                 if \<not> be_fdopen env then Inr (3, w, None)
                 else Inr (0, w, Some (wb_speed w, wb_failed w, wb_bytes w))))
        else if \<not> be_fdopen env then Inr (3, w, None)
        else
          bindr (collect (be_scans env) i (be_k env) (w\<lparr>wb_speed := 0, wb_failed := 0, wb_bytes := 0\<rparr>)) (\<lambda>(i, w).
          Inr (i, w, None))))"

definition wb_main :: "bench_env \<Rightarrow> nat \<Rightarrow> wb_option list \<Rightarrow> string option \<Rightarrow> bench_result res" where
  "wb_main env argc opts url =
     (if argc = 1 then Inr (2, wb_globals, None)
      else
        (case wb_options opts wb_globals of
           Exits rc \<Rightarrow> Inr (rc, wb_globals, None)
         | Runs w \<Rightarrow>
             (case url of
                None \<Rightarrow> Inr (2, w, None)
              | Some u \<Rightarrow>
                  (let w = (if wb_clients w = 0 then w\<lparr>wb_clients := 1\<rparr> else w);
                       w = (if wb_benchtime w = 0 then w\<lparr>wb_benchtime := 60\<rparr> else w) in
                   bindr (build_request u w) (\<lambda>out.
                   case out of
                     Exits rc \<Rightarrow> Inr (rc, w, None)
                   | Runs w \<Rightarrow> bench env w)))))"

section \<open>Strings in the request buffer\<close>

lemma strcat_at_cstr:
  assumes "cstr_at b 0 s" and "NUL \<notin> set t" and "length s + length t < n" and "i = 0 \<or> i = length s"
  shows "wp (\<lambda>b'. cstr_at b' 0 (s @ t)) (strcat_at n b i t)"
proof -
  have nul: "b (length s) = NUL" using assms(1) cstr_at_end [of b 0 s] by simp
  have l: "strlen_at n b i = Inr (length s - i)"
  proof (cases "i = 0")
    case True
    with assms(1,3) show ?thesis by (simp add: cstr_simps)
  next
    case False
    with assms(4) have "i = length s" by simp
    with nul assms(3) show ?thesis using strlen_at_cstr [of b i "[]" n] by (simp add: cstr_at_Nil)
  qed
  let ?b = "blit b (length s) (t @ [NUL])"
  have "cstr_at ?b (length s) t"
    using assms(2) by (auto simp: cstr_at_def blit_def nth_append)
  then have "cstr_at ?b 0 (s @ t)"
    unfolding cstr_at_append using assms(1) by (auto simp: cstr_at_def buf_simps)
  with l assms(3,4) show ?thesis by (auto simp: strcat_at_def)
qed

lemma strcat_step:
  assumes "cstr_at b 0 s" and "NUL \<notin> set t" and "length s + length t < n"
    and "\<And>b'. cstr_at b' 0 (s @ t) \<Longrightarrow> wp Q (f b')"
  shows "wp Q (bindr (strcat n b t) f)"
proof (rule wp_bindI)
  show "wp (\<lambda>b'. cstr_at b' 0 (s @ t)) (strcat n b t)"
    unfolding strcat_def by (rule strcat_at_cstr [OF assms(1-3)]) simp
qed (rule assms(4))

lemma strcat_if_step:
  assumes "cstr_at b 0 s" and "NUL \<notin> set t" and "c \<Longrightarrow> length s + length t < n"
    and "\<And>b'. cstr_at b' 0 (s @ (if c then t else [])) \<Longrightarrow> wp Q (f b')"
  shows "wp Q (bindr (if c then strcat n b t else Inr b) f)"
proof (cases c)
  case True
  with assms show ?thesis unfolding if_P [OF True] by (intro strcat_step [OF assms(1,2)]) simp_all
next
  case False
  with assms show ?thesis by simp
qed

lemma strncpy_cstr:
  assumes "NUL \<notin> set s" and "k \<le> length s" and "k < n"
  shows "\<exists>b. strncpy n zero_buf s k = Inr b \<and> cstr_at b 0 (take k s)"
proof -
  have "NUL \<notin> set (take k s)" using assms(1) by (meson in_set_takeD)
  then have "cstr_at (blit zero_buf 0 (take k s)) 0 (take k s)"
    by (intro cstr_at_blit) (simp_all add: zero_buf_def)
  then show ?thesis using assms by (simp add: strncpy_def)
qed

lemma cstring_cstr: "cstr_at b 0 s \<Longrightarrow> length s < n \<Longrightarrow> cstring n b = Inr s"
  using slice_cstr [of b 0 s "length s"] by (simp add: cstring_def cstr_simps)

text \<open>What \<open>build_request\<close> appends to the method and the URL.\<close>

definition wb_tail :: "webbench \<Rightarrow> string \<Rightarrow> string" where
  "wb_tail w h =
     (let v = wb_http10 w in
      (if v = 1 then '' HTTP/1.0'' else if v = 2 then '' HTTP/1.1'' else []) @ CRLF @
      (if 0 < v then ''User-Agent: WebBench 1.5'' @ CRLF else []) @
      (if wb_proxyhost w = None \<and> 0 < v then ''Host: '' @ h @ CRLF else []) @
      (if wb_force_reload w \<noteq> 0 \<and> wb_proxyhost w \<noteq> None then ''Pragma: no-cache'' @ CRLF else []) @
      (if 1 < v then ''Connection: close'' @ CRLF else []) @
      (if 0 < v then CRLF else []))"

lemma wb_finish_request_text:
  assumes r: "cstr_at r 0 s" and s: "length s \<le> 1600"
    and h: "wb_proxyhost w = None \<Longrightarrow> cstr_at (wb_host w) 0 h \<and> length h < MAXHOSTNAMELEN"
  shows "wp (\<lambda>r'. cstr_at r' 0 (s @ wb_tail w h)) (wb_finish_request w r)"
proof -
  let ?v = "wb_http10 w"
  define s1 where "s1 = s @ (if ?v = 1 then '' HTTP/1.0'' else if ?v = 2 then '' HTTP/1.1'' else [])"
  define s2 where "s2 = s1 @ CRLF"
  define s3 where "s3 = s2 @ (if 0 < ?v then ''User-Agent: WebBench 1.5'' @ CRLF else [])"
  define s4 where "s4 = s3 @ (if wb_proxyhost w = None \<and> 0 < ?v then ''Host: '' @ h @ CRLF else [])"
  define s5 where "s5 = s4 @ (if wb_force_reload w \<noteq> 0 \<and> wb_proxyhost w \<noteq> None then ''Pragma: no-cache'' @ CRLF else [])"
  define s6 where "s6 = s5 @ (if 1 < ?v then ''Connection: close'' @ CRLF else [])"
  have l1: "length s1 \<le> 1609" using s by (simp add: s1_def)
  then have l2: "length s2 \<le> 1611" by (simp add: s2_def)
  then have l3: "length s3 \<le> 1637" by (simp add: s3_def)
  then have l4: "length s4 \<le> 1708" using h by (cases "wb_proxyhost w") (simp_all add: s4_def)
  then have l5: "length s5 \<le> 1726" by (simp add: s5_def)
  then have l6: "length s6 \<le> 1745" by (simp add: s6_def)
  have host: "wp (\<lambda>r'. cstr_at r' 0 s4)
      (if wb_proxyhost w = None \<and> 0 < ?v then
         bindr (strcat REQUEST_SIZE r3 ''Host: '') (\<lambda>r. bindr (cstring MAXHOSTNAMELEN (wb_host w)) (\<lambda>h.
         bindr (strcat REQUEST_SIZE r h) (\<lambda>r. strcat REQUEST_SIZE r CRLF)))
       else Inr r3)" if r3: "cstr_at r3 0 s3" for r3
  proof (cases "wb_proxyhost w = None \<and> 0 < ?v")
    case True
    with h have h': "cstr_at (wb_host w) 0 h" "length h < 64" by simp_all
    have "wp (\<lambda>r'. cstr_at r' 0 (((s3 @ ''Host: '') @ h) @ CRLF)) (bindr (strcat REQUEST_SIZE r3 ''Host: '') (\<lambda>r.
        bindr (strcat REQUEST_SIZE r h) (\<lambda>r. strcat REQUEST_SIZE r CRLF)))"
      by (rule strcat_step [OF r3], simp, use l3 in simp, rule strcat_step, assumption,
          use h' in \<open>simp add: cstr_at_def\<close>, use l3 h' in simp, unfold strcat_def, rule strcat_at_cstr)
        (use l3 h' in simp_all)
    with True h' show ?thesis by (simp add: cstring_cstr s4_def)
  next
    case False
    then show ?thesis unfolding s4_def if_not_P [OF False] using r3 by simp
  qed
  have tail: "s @ wb_tail w h = s6 @ (if 0 < ?v then CRLF else [])"
    by (simp add: s6_def s5_def s4_def s3_def s2_def s1_def wb_tail_def Let_def)
  have fin: "wp (\<lambda>r'. cstr_at r' 0 (s @ wb_tail w h)) (if 0 < ?v then strcat REQUEST_SIZE r6 CRLF else Inr r6)"
    if "cstr_at r6 0 s6" for r6
    using strcat_at_cstr [OF that, of CRLF 2048 0] l6 that unfolding tail by (simp add: strcat_def)
  have ver: "wp (\<lambda>r'. cstr_at r' 0 s1)
      (if ?v = 1 then strcat REQUEST_SIZE r '' HTTP/1.0'' else if ?v = 2 then strcat REQUEST_SIZE r '' HTTP/1.1'' else Inr r)"
    using strcat_at_cstr [OF r, of "'' HTTP/1.0''" 2048 0] strcat_at_cstr [OF r, of "'' HTTP/1.1''" 2048 0] r s
    by (simp add: strcat_def s1_def)
  show ?thesis
    unfolding wb_finish_request_def Let_def
    apply (rule wp_bindI [OF ver])
    apply (rule strcat_step, assumption, simp, use l1 in simp, fold s2_def)
    apply (rule strcat_if_step, assumption, simp, use l2 in simp, fold s3_def)
    apply (rule wp_bindI [OF host], assumption)
    apply (rule strcat_if_step, assumption, simp, use l4 in simp, fold s5_def)
    apply (rule strcat_if_step, assumption, simp, use l5 in simp, fold s6_def)
    apply (rule fin, assumption)
    done
qed

section \<open>The request for a URL\<close>

lemma find_in_first: "ch \<notin> set a \<Longrightarrow> find_in [ch] (a @ ch # b) = Some (length a)"
proof -
  assume "ch \<notin> set a"
  then have "takeWhile (\<lambda>c. c \<noteq> ch) (a @ ch # b) = a" by (subst takeWhile_append2) auto
  then show ?thesis by (simp add: find_in_def Let_def)
qed

lemma find_in_None: "find_in [ch] s = None \<longleftrightarrow> ch \<notin> set s"
proof (cases "ch \<in> set s")
  case True
  then obtain a b where "s = a @ ch # b" "ch \<notin> set a" by (meson split_list_first)
  with True show ?thesis by (simp add: find_in_first)
next
  case False
  then have "length (takeWhile (\<lambda>c. c \<noteq> ch) s) = length s" by (induction s) auto
  with False show ?thesis by (simp add: find_in_def Let_def)
qed

lemma strcspn_first: "ch \<notin> set a \<Longrightarrow> strcspn (a @ ch # b) [ch] = length a"
proof -
  assume "ch \<notin> set a"
  then have "takeWhile (\<lambda>c. c \<noteq> ch) (a @ ch # b) = a" by (subst takeWhile_append2) auto
  then show ?thesis by (simp add: strcspn_def)
qed

text \<open>A URL taken apart: the scheme, the host, a colon and a port if there is one, the path.\<close>

definition http_url :: "string \<Rightarrow> string \<Rightarrow> string \<Rightarrow> string \<Rightarrow> bool" where
  "http_url pre h port path \<longleftrightarrow> ci_eq pre ''http://'' \<and> NUL \<notin> set (pre @ h @ port @ path) \<and>
     CHR ''/'' \<notin> set h \<and> CHR '':'' \<notin> set h \<and> CHR ''/'' \<notin> set port \<and>
     (port = [] \<or> hd port = CHR '':'') \<and> path \<noteq> [] \<and> hd path = CHR ''/''"

lemma tolower_colon: "tolower c = CHR '':'' \<longleftrightarrow> c = CHR '':''"
proof
  assume h: "tolower c = CHR '':''"
  show "c = CHR '':''"
  proof (cases "65 \<le> (of_char c :: nat) \<and> (of_char c :: nat) \<le> 90")
    case True
    then have "(of_char (tolower c) :: nat) = of_char c + 32" by (simp add: tolower_def)
    with h True show ?thesis by simp
  next
    case False
    with h show ?thesis by (simp add: tolower_def Let_def split: if_splits)
  qed
qed (simp add: tolower_def)

lemma tolower_slash: "tolower c = CHR ''/'' \<longleftrightarrow> c = CHR ''/''"
proof
  assume h: "tolower c = CHR ''/''"
  show "c = CHR ''/''"
  proof (cases "65 \<le> (of_char c :: nat) \<and> (of_char c :: nat) \<le> 90")
    case True
    then have "(of_char (tolower c) :: nat) = of_char c + 32" by (simp add: tolower_def)
    with h True show ?thesis by simp
  next
    case False
    with h show ?thesis by (simp add: tolower_def Let_def split: if_splits)
  qed
qed (simp add: tolower_def)

lemma tolower_consts [simp]:
  "tolower (CHR '':'') = CHR '':''" "tolower (CHR ''/'') = CHR ''/''" "tolower (CHR ''h'') = CHR ''h''"
  "tolower (CHR ''t'') = CHR ''t''" "tolower (CHR ''p'') = CHR ''p''"
  by (simp_all add: tolower_def)

lemma strstr_http:
  assumes "ci_eq pre ''http://''"
  shows "strstr (pre @ s) ''://'' = Some 4" and "length pre = 7"
proof -
  have "length (map tolower pre) = length (map tolower ''http://'')" using assms unfolding ci_eq_def by (rule arg_cong)
  then show l: "length pre = 7" by simp
  then obtain a b c d e f g where p: "pre = [a, b, c, d, e, f, g]"
    by (auto simp: numeral_eq_Suc length_Suc_conv)
  from assms have lows: "tolower a = CHR ''h''" "tolower b = CHR ''t''" "tolower c = CHR ''t''" "tolower d = CHR ''p''"
    and efg: "e = CHR '':''" "f = CHR ''/''" "g = CHR ''/''"
    by (simp_all add: p tolower_colon tolower_slash)
  have "a \<noteq> CHR '':''" "b \<noteq> CHR '':''" "c \<noteq> CHR '':''" "d \<noteq> CHR '':''"
    using lows by auto
  then show "strstr (pre @ s) ''://'' = Some 4" by (simp add: p efg)
qed

lemma url_parts:
  assumes "NUL \<notin> set url" and "ci_prefix ''http://'' url" and "CHR ''/'' \<in> set (drop 7 url)"
  obtains pre h port path where "url = pre @ h @ port @ path" and "http_url pre h port path"
proof -
  define au where "au = takeWhile (\<lambda>c. c \<noteq> CHR ''/'') (drop 7 url)"
  define path where "path = dropWhile (\<lambda>c. c \<noteq> CHR ''/'') (drop 7 url)"
  define h where "h = takeWhile (\<lambda>c. c \<noteq> CHR '':'') au"
  define port where "port = dropWhile (\<lambda>c. c \<noteq> CHR '':'') au"
  have au: "au = h @ port" by (simp add: h_def port_def)
  have url: "url = take 7 url @ h @ port @ path"
    using append_take_drop_id [of 7 url] takeWhile_dropWhile_id [of "\<lambda>c. c \<noteq> CHR ''/''" "drop 7 url"]
    by (simp add: au_def [symmetric] path_def [symmetric] au)
  have path: "path \<noteq> []" "hd path = CHR ''/''"
    using assms(3) hd_dropWhile [of "\<lambda>c. c \<noteq> CHR ''/''" "drop 7 url"] by (auto simp: path_def)
  have "CHR ''/'' \<notin> set au" by (auto simp: au_def dest: set_takeWhileD)
  then have sl: "CHR ''/'' \<notin> set h" "CHR ''/'' \<notin> set port" by (simp_all add: au)
  have co: "CHR '':'' \<notin> set h" by (auto simp: h_def dest: set_takeWhileD)
  have po: "port = [] \<or> hd port = CHR '':''"
    using hd_dropWhile [of "\<lambda>c. c \<noteq> CHR '':''" au] by (auto simp: port_def)
  have "ci_eq (take 7 url) ''http://''" using assms(2) by (simp add: ci_prefix_def numeral_eq_Suc)
  with sl co po path assms(1) url have "http_url (take 7 url) h port path" unfolding http_url_def by metis
  with url show thesis by (rule that)
qed

definition wb_port :: "string \<Rightarrow> webbench \<Rightarrow> int" where
  "wb_port port w = (if port = [] then wb_proxyport w else if atoi (tl port) = 0 then 80 else atoi (tl port))"

lemma wb_split_host_parts:
  assumes u: "http_url pre h port path" and z: "wb_host w = zero_buf" and lim: "length h < MAXHOSTNAMELEN" "length port \<le> 10"
  shows "\<exists>hb. wb_split_host (h @ port @ path) w = Inr (w\<lparr>wb_host := hb, wb_proxyport := wb_port port w\<rparr>) \<and> cstr_at hb 0 h"
proof -
  from u obtain p where p: "path = CHR ''/'' # p" by (cases path) (auto simp: http_url_def)
  from u have n: "NUL \<notin> set (h @ port @ path)" "CHR ''/'' \<notin> set (h @ port)" "CHR '':'' \<notin> set h" by (auto simp: http_url_def)
  have sl: "find_in [CHR ''/''] (h @ port @ path) = Some (length h + length port)"
    using find_in_first [OF n(2), of p] by (simp add: p)
  obtain hb where hb: "strncpy 64 zero_buf (h @ port @ path) (length h) = Inr hb" "cstr_at hb 0 h"
    using strncpy_cstr [OF n(1), of "length h" 64] lim(1) by auto
  show ?thesis
  proof (cases port)
    case Nil
    have cs: "strcspn (h @ path) ''/'' = length h" using strcspn_first [of "CHR ''/''" h p] n(2) by (simp add: p)
    have co: "\<not> co < length h" if "find_in [CHR '':''] (h @ path) = Some co" for co
    proof -
      have "takeWhile (\<lambda>c. c \<noteq> CHR '':'') (h @ path) = h @ takeWhile (\<lambda>c. c \<noteq> CHR '':'') path"
        by (rule takeWhile_append2) (use n(3) in auto)
      with that show ?thesis by (simp add: find_in_def Let_def split: if_splits)
    qed
    have "wb_split_host (h @ path) w = bindr (strncpy 64 (wb_host w) (h @ path) (length h)) (\<lambda>hb. Inr (w\<lparr>wb_host := hb\<rparr>))"
    proof (cases "find_in [CHR '':''] (h @ path)")
      case None
      with cs show ?thesis by (simp add: wb_split_host_def)
    next
      case (Some k)
      with co [OF Some] sl cs Nil show ?thesis by (simp add: wb_split_host_def)
    qed
    with hb z Nil show ?thesis by (intro exI [of _ hb]) (simp add: wb_port_def)
  next
    case (Cons c ds)
    with u have c: "c = CHR '':''" by (simp add: http_url_def)
    have co: "find_in [CHR '':''] (h @ port @ path) = Some (length h)"
      using find_in_first [OF n(3), of "ds @ path"] by (simp add: Cons c)
    have d: "NUL \<notin> set (ds @ path)" using n(1) by (simp add: Cons)
    obtain tmp where tmp: "strncpy 10 zero_buf (ds @ path) (length ds) = Inr tmp" "cstr_at tmp 0 ds"
      using strncpy_cstr [OF d, of "length ds" 10] lim(2) by (auto simp: Cons)
    have "atol 10 tmp 0 = Inr (atol_value ds)" using atol_cstr [OF tmp(2)] lim(2) by (simp add: Cons)
    with hb sl co z tmp(1) show ?thesis by (intro exI [of _ hb]) (simp add: wb_split_host_def Cons c wb_port_def atoi_def Let_def)
  qed
qed

definition wb_adjusted :: "webbench \<Rightarrow> webbench" where
  "wb_adjusted w = w\<lparr>wb_host := zero_buf, wb_request := zero_buf, wb_http10 := wb_version w\<rparr>"

lemma wb_adjusted_fields [simp]:
  "wb_host (wb_adjusted w) = zero_buf" "wb_request (wb_adjusted w) = zero_buf" "wb_http10 (wb_adjusted w) = wb_version w"
  "wb_proxyhost (wb_adjusted w) = wb_proxyhost w" "wb_proxyport (wb_adjusted w) = wb_proxyport w"
  "wb_method (wb_adjusted w) = wb_method w" "wb_clients (wb_adjusted w) = wb_clients w"
  by (simp_all add: wb_adjusted_def)

definition wb_begin :: "webbench \<Rightarrow> string" where
  "wb_begin w = wb_method_name (wb_method w) @ '' ''"

lemma wb_begin_facts: "NUL \<notin> set (wb_begin w)" "length (wb_begin w) \<le> 8"
  by (simp_all add: wb_begin_def wb_method_name_def)

lemma wb_begin_ok:
  obtains r where "bindr (strcpy REQUEST_SIZE zero_buf (wb_method_name (wb_method w))) (\<lambda>r. strcat REQUEST_SIZE r '' '') = Inr r"
    and "cstr_at r 0 (wb_begin w)"
proof -
  let ?m = "wb_method_name (wb_method w)"
  have m: "NUL \<notin> set ?m" "length ?m \<le> 7" by (simp_all add: wb_method_name_def)
  have "cstr_at (blit zero_buf 0 (?m @ [NUL])) 0 ?m"
    using m(1) by (auto simp: cstr_at_def blit_def nth_append)
  from strcat_at_cstr [OF this, of "'' ''" 2048 0] m(2)
  have "wp (\<lambda>r. cstr_at r 0 (?m @ '' '')) (strcat 2048 (blit zero_buf 0 (?m @ [NUL])) '' '')"
    by (simp add: strcat_def)
  then obtain r where "strcat 2048 (blit zero_buf 0 (?m @ [NUL])) '' '' = Inr r" "cstr_at r 0 (?m @ '' '')"
    unfolding wp_iff by blast
  with m(2) show thesis by (intro that [of r]) (simp_all add: strcpy_def wb_begin_def)
qed

text \<open>The steps after the checks of the URL.\<close>

definition wb_rest_of_build :: "string \<Rightarrow> nat \<Rightarrow> webbench \<Rightarrow> cbuf \<Rightarrow> webbench outcome res" where
  "wb_rest_of_build url k w r =
     (let rest = drop (k + 3) url; N = REQUEST_SIZE in
      bindr (if wb_proxyhost w = None then
               bindr (wb_split_host rest w) (\<lambda>w.
               bindr (strlen_at N r 0) (\<lambda>l.
               bindr (strcat_at N r l (drop (strcspn rest ''/'') rest)) (\<lambda>r. Inr (w, r))))
             else bindr (strcat N r url) (\<lambda>r. Inr (w, r))) (\<lambda>(w, r).
      bindr (wb_finish_request w r) (\<lambda>r.
      Inr (Runs (w\<lparr>wb_request := r\<rparr>)))))"

lemma build_request_cases:
  obtains r where "cstr_at r 0 (wb_begin w)"
    and "build_request url w =
       (case strstr url ''://'' of
          None \<Rightarrow> Inr (Exits 2)
        | Some k \<Rightarrow>
            if 1500 < length url \<or> (wb_proxyhost w = None \<and> \<not> ci_prefix ''http://'' url) \<or> CHR ''/'' \<notin> set (drop (k + 3) url)
            then Inr (Exits 2)
            else wb_rest_of_build url k (wb_adjusted w) r)"
proof -
  obtain r where r: "bindr (strcpy REQUEST_SIZE zero_buf (wb_method_name (wb_method w))) (\<lambda>r. strcat REQUEST_SIZE r '' '') = Inr r"
    "cstr_at r 0 (wb_begin w)" by (rule wb_begin_ok)
  then obtain r1 where "strcpy REQUEST_SIZE zero_buf (wb_method_name (wb_method w)) = Inr r1" "strcat REQUEST_SIZE r1 '' '' = Inr r"
    by (auto simp: bindr_eq_Inr)
  with r(2) show thesis
    by (intro that [of r])
      (simp_all add: build_request_def Let_def wb_rest_of_build_def find_in_None flip: wb_adjusted_def split: option.split)
qed

lemma rest_of_build_direct:
  assumes u: "http_url pre h port path" and r: "cstr_at r 0 (wb_begin w)" and no: "wb_proxyhost w = None"
    and lim: "length path \<le> 1500" "length h < MAXHOSTNAMELEN" "length port \<le> 10"
  shows "\<exists>hb rb. wb_rest_of_build (pre @ h @ port @ path) 4 (wb_adjusted w) r =
       Inr (Runs (w\<lparr>wb_http10 := wb_version w, wb_host := hb, wb_proxyport := wb_port port w, wb_request := rb\<rparr>)) \<and>
     cstr_at hb 0 h \<and> cstr_at rb 0 (wb_begin w @ path @ wb_tail (wb_adjusted w) h)"
proof -
  let ?rest = "h @ port @ path"
  have pre: "length pre = 7" and nul: "NUL \<notin> set path" using u strstr_http(2) by (auto simp: http_url_def)
  then have rest: "drop (4 + 3) (pre @ ?rest) = ?rest" by simp
  from u obtain p where p: "path = CHR ''/'' # p" by (cases path) (auto simp: http_url_def)
  have "CHR ''/'' \<notin> set (h @ port)" using u by (simp add: http_url_def)
  from strcspn_first [OF this, of p] have cs: "drop (strcspn ?rest ''/'') ?rest = path" by (simp add: p)
  obtain hb where hb: "wb_split_host ?rest (wb_adjusted w) = Inr (wb_adjusted w\<lparr>wb_host := hb, wb_proxyport := wb_port port (wb_adjusted w)\<rparr>)"
    "cstr_at hb 0 h" using wb_split_host_parts [OF u wb_adjusted_fields(1) lim(2,3), of w] by blast
  let ?l = "length (wb_begin w)"
  have l: "strlen_at 2048 r 0 = Inr ?l" using strlen_at_cstr [OF r, of 2048] wb_begin_facts(2) [of w] by simp
  have "wp (\<lambda>b'. cstr_at b' 0 (wb_begin w @ path)) (strcat_at 2048 r ?l path)"
    by (rule strcat_at_cstr [OF r nul]) (use wb_begin_facts(2) [of w] lim(1) in simp_all)
  then obtain r1 where r1: "strcat_at 2048 r ?l path = Inr r1" "cstr_at r1 0 (wb_begin w @ path)" unfolding wp_iff by blast
  define w1 where "w1 = wb_adjusted w\<lparr>wb_host := hb, wb_proxyport := wb_port port (wb_adjusted w)\<rparr>"
  have "wp (\<lambda>r'. cstr_at r' 0 ((wb_begin w @ path) @ wb_tail w1 h)) (wb_finish_request w1 r1)"
    by (rule wb_finish_request_text [OF r1(2)]) (use wb_begin_facts(2) [of w] lim hb in \<open>simp_all add: w1_def\<close>)
  moreover have "wb_tail w1 h = wb_tail (wb_adjusted w) h" by (simp add: wb_tail_def w1_def)
  ultimately obtain rb where rb: "wb_finish_request w1 r1 = Inr rb" "cstr_at rb 0 (wb_begin w @ path @ wb_tail (wb_adjusted w) h)"
    unfolding wp_iff by auto
  have "wb_rest_of_build (pre @ ?rest) 4 (wb_adjusted w) r = Inr (Runs (w1\<lparr>wb_request := rb\<rparr>))"
    unfolding wb_rest_of_build_def rest Let_def cs using no hb(1) l r1(1) rb(1) by (simp flip: w1_def)
  moreover have "w1\<lparr>wb_request := rb\<rparr> =
      w\<lparr>wb_http10 := wb_version w, wb_host := hb, wb_proxyport := wb_port port w, wb_request := rb\<rparr>"
    by (simp add: w1_def wb_adjusted_def wb_port_def)
  ultimately show ?thesis using hb(2) rb(2) by (intro exI [of _ hb] exI [of _ rb]) simp
qed

lemma rest_of_build_proxy:
  assumes r: "cstr_at r 0 (wb_begin w)" and px: "wb_proxyhost w \<noteq> None" and url: "NUL \<notin> set url" "length url \<le> 1500"
  shows "\<exists>rb. wb_rest_of_build url k (wb_adjusted w) r = Inr (Runs (wb_adjusted w\<lparr>wb_request := rb\<rparr>)) \<and>
     cstr_at rb 0 (wb_begin w @ url @ wb_tail (wb_adjusted w) [])"
proof -
  have "wp (\<lambda>b'. cstr_at b' 0 (wb_begin w @ url)) (strcat_at 2048 r 0 url)"
    by (rule strcat_at_cstr [OF r url(1)]) (use wb_begin_facts(2) [of w] url(2) in simp_all)
  then obtain r1 where r1: "strcat 2048 r url = Inr r1" "cstr_at r1 0 (wb_begin w @ url)" unfolding wp_iff strcat_def by blast
  have "wp (\<lambda>r'. cstr_at r' 0 ((wb_begin w @ url) @ wb_tail (wb_adjusted w) [])) (wb_finish_request (wb_adjusted w) r1)"
    by (rule wb_finish_request_text [OF r1(2)]) (use wb_begin_facts(2) [of w] url(2) px in simp_all)
  then obtain rb where "wb_finish_request (wb_adjusted w) r1 = Inr rb" "cstr_at rb 0 (wb_begin w @ url @ wb_tail (wb_adjusted w) [])"
    unfolding wp_iff append_assoc by blast
  moreover obtain ph where "wb_proxyhost w = Some ph" using px by blast
  ultimately show ?thesis using r1 by (intro exI [of _ rb]) (simp add: wb_rest_of_build_def Let_def)
qed

lemma build_request_http:
  assumes u: "http_url pre h port path" and no: "wb_proxyhost w = None"
    and lim: "length (pre @ h @ port @ path) \<le> 1500" "length h < MAXHOSTNAMELEN" "length port \<le> 10"
  shows "\<exists>hb rb. build_request (pre @ h @ port @ path) w =
       Inr (Runs (w\<lparr>wb_http10 := wb_version w, wb_host := hb, wb_proxyport := wb_port port w, wb_request := rb\<rparr>)) \<and>
     cstr_at hb 0 h \<and> cstr_at rb 0 (wb_begin w @ path @ wb_tail (wb_adjusted w) h)"
proof -
  let ?url = "pre @ h @ port @ path"
  obtain r where r: "cstr_at r 0 (wb_begin w)"
    and eq: "build_request ?url w =
       (case strstr ?url ''://'' of
          None \<Rightarrow> Inr (Exits 2)
        | Some k \<Rightarrow>
            if 1500 < length ?url \<or> (wb_proxyhost w = None \<and> \<not> ci_prefix ''http://'' ?url) \<or> CHR ''/'' \<notin> set (drop (k + 3) ?url)
            then Inr (Exits 2)
            else wb_rest_of_build ?url k (wb_adjusted w) r)" by (rule build_request_cases)
  have pre: "strstr ?url ''://'' = Some 4" "length pre = 7" using u strstr_http by (simp_all add: http_url_def)
  have sl: "CHR ''/'' \<in> set (drop (4 + 3) ?url)" using u pre(2) by (cases path) (auto simp: http_url_def)
  have ci: "ci_prefix ''http://'' ?url" using u pre(2) by (simp add: ci_prefix_def http_url_def)
  have "build_request ?url w = wb_rest_of_build ?url 4 (wb_adjusted w) r"
    unfolding eq pre(1) using lim(1) sl ci by simp
  with rest_of_build_direct [OF u r no _ lim(2,3)] lim(1) show ?thesis by simp
qed

section \<open>Properties of the request\<close>

text \<open>
  C15. The request webbench sends: for a URL of at most 1500 characters with a host of at most 63 and a port of
  at most 9 digits, and no proxy, \<open>request\<close> holds the method, the path of the URL, the protocol the
  options ask for and the headers, ended by an empty line except for HTTP/0.9; \<open>host\<close> and
  \<open>proxyport\<close> hold the host and the port of the URL.
\<close>

theorem build_request_text:
  assumes "http_url pre h port path" and "wb_proxyhost w = None"
    and "length (pre @ h @ port @ path) \<le> 1500" "length h < MAXHOSTNAMELEN" "length port \<le> 10"
  shows "\<exists>hb rb. build_request (pre @ h @ port @ path) w =
       Inr (Runs (w\<lparr>wb_http10 := wb_version w, wb_host := hb, wb_proxyport := wb_port port w, wb_request := rb\<rparr>)) \<and>
     cstr_at hb 0 h \<and>
     cstr_at rb 0 (wb_method_name (wb_method w) @ '' '' @ path @ wb_tail (w\<lparr>wb_http10 := wb_version w\<rparr>) h)"
proof -
  have "wb_tail (wb_adjusted w) h = wb_tail (w\<lparr>wb_http10 := wb_version w\<rparr>) h" by (simp add: wb_tail_def wb_adjusted_def)
  with build_request_http [OF assms] show ?thesis by (simp only: wb_begin_def append_assoc)
qed

theorem build_request_text_witness:
  "\<exists>hb rb. build_request ''http://localhost:8080/index.html'' wb_globals =
       Inr (Runs (wb_globals\<lparr>wb_http10 := 1, wb_host := hb, wb_proxyport := 8080, wb_request := rb\<rparr>)) \<and>
     cstr_at hb 0 ''localhost'' \<and>
     cstr_at rb 0 (''GET /index.html HTTP/1.0'' @ CRLF @ ''User-Agent: WebBench 1.5'' @ CRLF @ ''Host: localhost'' @ CRLF @ CRLF)"
proof -
  have u: "http_url ''http://'' ''localhost'' '':8080'' ''/index.html''" by (simp add: http_url_def)
  have v: "wb_version wb_globals = 1" "wb_proxyhost wb_globals = None" "wb_method wb_globals = 0"
    by (simp_all add: wb_version_def wb_globals_def)
  have p: "wb_port '':8080'' wb_globals = 8080"
  proof -
    have "atoi ''8080'' = 8080" by code_simp
    then show ?thesis by (simp add: wb_port_def)
  qed
  have t: "wb_tail (wb_globals\<lparr>wb_http10 := 1\<rparr>) ''localhost'' =
      '' HTTP/1.0'' @ CRLF @ ''User-Agent: WebBench 1.5'' @ CRLF @ ''Host: localhost'' @ CRLF @ CRLF"
    by (simp add: wb_tail_def wb_globals_def)
  show ?thesis
    using build_request_text [OF u v(2)] unfolding v p t by (simp add: wb_method_name_def)
qed

text \<open>
  C18. Memory safety of \<open>build_request\<close>, for any URL and any options: the 2048 bytes of \<open>request\<close> always suffice, and a
  copy can only leave an array where there is no proxy and the URL has a host of 64 or more
  characters or a port of ten or more.
\<close>

theorem build_request_fault:
  assumes "build_request url w = Inl e" and "NUL \<notin> set url"
  shows "wb_proxyhost w = None \<and>
     (\<exists>pre h port path. url = pre @ h @ port @ path \<and> http_url pre h port path \<and> (MAXHOSTNAMELEN \<le> length h \<or> 10 < length port))"
proof -
  obtain r where r: "cstr_at r 0 (wb_begin w)"
    and eq: "build_request url w =
       (case strstr url ''://'' of
          None \<Rightarrow> Inr (Exits 2)
        | Some k \<Rightarrow>
            if 1500 < length url \<or> (wb_proxyhost w = None \<and> \<not> ci_prefix ''http://'' url) \<or> CHR ''/'' \<notin> set (drop (k + 3) url)
            then Inr (Exits 2)
            else wb_rest_of_build url k (wb_adjusted w) r)" by (rule build_request_cases)
  from assms(1) eq obtain k where k: "strstr url ''://'' = Some k"
    and ok: "length url \<le> 1500" "wb_proxyhost w = None \<Longrightarrow> ci_prefix ''http://'' url" "CHR ''/'' \<in> set (drop (k + 3) url)"
    and f: "wb_rest_of_build url k (wb_adjusted w) r = Inl e"
    by (auto split: option.splits if_splits)
  have no: "wb_proxyhost w = None"
  proof (rule ccontr)
    assume "wb_proxyhost w \<noteq> None"
    from rest_of_build_proxy [OF r this assms(2) ok(1), of k] f show False by auto
  qed
  have ci: "ci_prefix ''http://'' url" by (rule ok(2) [OF no])
  have "take 7 url @ drop 7 url = url" "ci_eq (take 7 url) ''http://''" using ci by (simp_all add: ci_prefix_def numeral_eq_Suc)
  from strstr_http(1) [OF this(2), of "drop 7 url"] this(1) k have k4: "k = 4" by simp
  have sl: "CHR ''/'' \<in> set (drop 7 url)" using ok(3) k4 by simp
  obtain pre h port path where
    u: "url = pre @ h @ port @ path" "http_url pre h port path" by (rule url_parts [OF assms(2) ci sl])
  have "MAXHOSTNAMELEN \<le> length h \<or> 10 < length port"
  proof (rule ccontr)
    assume "\<not> (MAXHOSTNAMELEN \<le> length h \<or> 10 < length port)"
    then have "length h < MAXHOSTNAMELEN" "length port \<le> 10" by simp_all
    from rest_of_build_direct [OF u(2) r no _ this] ok(1) f show False by (auto simp: u(1) k4)
  qed
  with no u show ?thesis by blast
qed

lemma build_request_long_host:
  assumes u: "http_url pre h port path" and no: "wb_proxyhost w = None"
    and lim: "length (pre @ h @ port @ path) \<le> 1500" "MAXHOSTNAMELEN < length h"
  shows "build_request (pre @ h @ port @ path) w = Inl Out_Of_Bounds"
proof -
  let ?url = "pre @ h @ port @ path" and ?rest = "h @ port @ path"
  obtain r where eq: "build_request ?url w =
       (case strstr ?url ''://'' of
          None \<Rightarrow> Inr (Exits 2)
        | Some k \<Rightarrow>
            if 1500 < length ?url \<or> (wb_proxyhost w = None \<and> \<not> ci_prefix ''http://'' ?url) \<or> CHR ''/'' \<notin> set (drop (k + 3) ?url)
            then Inr (Exits 2)
            else wb_rest_of_build ?url k (wb_adjusted w) r)" by (rule build_request_cases)
  have pre: "strstr ?url ''://'' = Some 4" "length pre = 7" using u strstr_http by (simp_all add: http_url_def)
  have sl: "CHR ''/'' \<in> set (drop (4 + 3) ?url)" using u pre(2) by (cases path) (auto simp: http_url_def)
  have ci: "ci_prefix ''http://'' ?url" using u pre(2) by (simp add: ci_prefix_def http_url_def)
  have b: "build_request ?url w = wb_rest_of_build ?url 4 (wb_adjusted w) r"
    unfolding eq pre(1) using lim(1) sl ci by simp
  have rest: "drop (4 + 3) ?url = ?rest" using pre(2) by simp
  from u obtain p where p: "path = CHR ''/'' # p" by (cases path) (auto simp: http_url_def)
  have n: "CHR ''/'' \<notin> set (h @ port)" "CHR '':'' \<notin> set h" using u by (auto simp: http_url_def)
  have "length h \<le> strcspn ?rest ''/''" using strcspn_first [OF n(1), of p] by (simp add: p)
  moreover have "length h \<le> co" if "find_in [CHR '':''] ?rest = Some co" for co
  proof -
    have "takeWhile (\<lambda>c. c \<noteq> CHR '':'') ?rest = h @ takeWhile (\<lambda>c. c \<noteq> CHR '':'') (port @ path)"
      by (rule takeWhile_append2) (use n(2) in auto)
    with that show ?thesis by (simp add: find_in_def Let_def split: if_splits)
  qed
  ultimately have "wb_split_host ?rest (wb_adjusted w) = Inl Out_Of_Bounds"
    using lim(2) by (auto simp: wb_split_host_def strncpy_def split: option.split dest: le_trans)
  then show ?thesis unfolding b wb_rest_of_build_def rest Let_def using no by simp
qed

text \<open>
  The host of the URL is copied without a check: with no proxy, every accepted URL whose host is
  longer than 64 characters writes outside the array \<open>host\<close>.
\<close>

theorem long_host_overflows:
  assumes "http_url pre h port path" and "wb_proxyhost w = None"
    and "length (pre @ h @ port @ path) \<le> 1500" and "MAXHOSTNAMELEN < length h"
  shows "build_request (pre @ h @ port @ path) w = Inl Out_Of_Bounds"
  using assms by (rule build_request_long_host)

theorem long_host_overflows_witness:
  "build_request (''http://'' @ replicate 65 (CHR ''a'') @ [] @ ''/'') wb_globals = Inl Out_Of_Bounds"
  by (rule long_host_overflows) (simp_all add: http_url_def wb_globals_def)

theorem build_request_fault_witness:
  "\<exists>pre h port path. ''http://'' @ replicate 65 (CHR ''a'') @ [] @ ''/'' = pre @ h @ port @ path \<and>
     http_url pre h port path \<and> (MAXHOSTNAMELEN \<le> length h \<or> 10 < length port)"
proof -
  have "build_request (''http://'' @ replicate 65 (CHR ''a'') @ [] @ ''/'') wb_globals = Inl Out_Of_Bounds"
    by (rule build_request_long_host) (simp_all add: http_url_def wb_globals_def)
  from build_request_fault [OF this] show ?thesis by simp
qed

section \<open>Webbench against the server\<close>

lemma find_in_blank:
  assumes "SP \<notin> set a" and "TAB \<notin> set a"
  shows "find_in [SP, TAB] (a @ SP # b) = Some (length a)"
proof -
  have "takeWhile (\<lambda>c. c \<notin> set [SP, TAB]) (a @ SP # b) = a @ takeWhile (\<lambda>c. c \<notin> set [SP, TAB]) (SP # b)"
    by (rule takeWhile_append2) (use assms in auto)
  then show ?thesis by (simp add: find_in_def Let_def)
qed

lemma split_blank_first: "SP \<notin> set a \<Longrightarrow> TAB \<notin> set a \<Longrightarrow> split_blank (a @ SP # b) = Some (a, b)"
  by (simp add: split_blank_def find_in_blank)

definition wb_request_line :: "webbench \<Rightarrow> string \<Rightarrow> string" where
  "wb_request_line w path =
     wb_method_name (wb_method w) @ '' '' @ path @ (if wb_version w = 1 then '' HTTP/1.0'' else '' HTTP/1.1'')"

definition wb_header_lines :: "webbench \<Rightarrow> string \<Rightarrow> string list" where
  "wb_header_lines w h =
     [''User-Agent: WebBench 1.5'', ''Host: '' @ h] @ (if wb_version w = 1 then [] else [''Connection: close''])"

lemma wb_text_lines:
  assumes "wb_version w = 1 \<or> wb_version w = 2" and "wb_proxyhost w = None"
  shows "wb_begin w @ path @ wb_tail (wb_adjusted w) h = wb_request_line w path @ CRLF @ lines_bytes (wb_header_lines w h) @ CRLF @ []"
  using assms by (auto simp: wb_begin_def wb_tail_def wb_request_line_def wb_header_lines_def Let_def)

lemma wb_request_line_path:
  assumes "wb_version w = 1 \<or> wb_version w = 2" and "path \<noteq> []" and "hd path = CHR ''/''" and "SP \<notin> set path" and "TAB \<notin> set path"
  shows "request_path (wb_request_line w path) =
     (if wb_method_name (wb_method w) = ''GET'' \<and> wb_version w = 2 then Some path else None)"
proof -
  define m where "m = wb_method_name (wb_method w)"
  define v where "v = (if wb_version w = 1 then ''HTTP/1.0'' else ''HTTP/1.1'')"
  have m: "SP \<notin> set m" "TAB \<notin> set m" by (simp_all add: m_def wb_method_name_def)
  have rl: "wb_request_line w path = m @ SP # path @ SP # v" by (simp add: wb_request_line_def m_def v_def)
  have s1: "split_blank (wb_request_line w path) = Some (m, path @ SP # v)" unfolding rl by (rule split_blank_first [OF m])
  have s2: "split_blank (path @ SP # v) = Some (path, v)" by (rule split_blank_first [OF assms(4,5)])
  have g: "ci_eq m ''GET'' \<longleftrightarrow> m = ''GET''" by (simp add: m_def wb_method_name_def ci_eq_def tolower_def)
  have v: "ci_eq v ''HTTP/1.1'' \<longleftrightarrow> wb_version w = 2" using assms(1) by (auto simp: v_def ci_eq_def tolower_def)
  have "\<not> ci_prefix ''http://'' path" using assms(2,3) by (cases path) simp_all
  then have "url_path path = Some path" by (simp add: url_path_def)
  then show ?thesis unfolding request_path_def s1 using s2 g v assms(2,3) by (simp flip: m_def)
qed

lemma wb_headers_plain:
  "headers_length 0 (wb_header_lines w h) = 0" "headers_linger False (wb_header_lines w h) = False"
proof -
  have u: "header_of ''User-Agent: WebBench 1.5'' = Other_Header" by code_simp
  have c: "header_of ''Connection: close'' = Connection_Header False" by code_simp
  have h: "header_of (''Host: '' @ h) = Host (skip_blank (drop 5 (''Host: '' @ h)))"
    by (simp add: header_of_def tolower_def)
  show "headers_length 0 (wb_header_lines w h) = 0" "headers_linger False (wb_header_lines w h) = False"
    by (simp_all add: wb_header_lines_def u c h [simplified])
qed

text \<open>
  C14. Webbench against the server of the same directory: for a URL within the limits, without blanks or line breaks, the
  request it builds fits the server's read buffer and is a complete request; with GET and
  HTTP/1.1 (option \<open>-2\<close>) the server answers it by the file of the path and closes the
  connection, while the default protocol HTTP/1.0, and every other method, is answered BAD_REQUEST.
\<close>

theorem webbench_request_answered:
  assumes "http_url pre h port path" and "wb_proxyhost w = None"
    and "length (pre @ h @ port @ path) \<le> 1500" "length h < MAXHOSTNAMELEN" "length port \<le> 10"
    and "wb_version w = 1 \<or> wb_version w = 2"
    and "SP \<notin> set path" "TAB \<notin> set path" "clean_line path" "clean_line h"
  shows "\<exists>w' req code c'. build_request (pre @ h @ port @ path) w = Inr (Runs w') \<and>
     cstring REQUEST_SIZE (wb_request w') = Inr req \<and>
     process_read fs (recv_store req (init_conn c)) = Inr (code, c') \<and>
     code = (if wb_method_name (wb_method w) = ''GET'' \<and> wb_version w = 2 then request_code fs path else BAD_REQUEST) \<and>
     (wb_version w = 2 \<and> wb_method_name (wb_method w) = ''GET'' \<longrightarrow> \<not> m_linger c')"
proof -
  from build_request_http [OF assms(1-5)] obtain w' where
    b: "build_request (pre @ h @ port @ path) w = Inr (Runs w')"
    and rb: "cstr_at (wb_request w') 0 (wb_begin w @ path @ wb_tail (wb_adjusted w) h)" by auto
  define rl where "rl = wb_request_line w path"
  define hs where "hs = wb_header_lines w h"
  define req where "req = rl @ CRLF @ lines_bytes hs @ CRLF @ []"
  have req: "cstr_at (wb_request w') 0 req"
    using rb unfolding req_def rl_def hs_def wb_text_lines [OF assms(6,2), symmetric] .
  have m7: "length (wb_method_name (wb_method w)) \<le> 7" by (simp add: wb_method_name_def)
  have "length rl \<le> 1517" using m7 assms(3) by (simp add: rl_def wb_request_line_def)
  moreover have "length (lines_bytes hs) \<le> 26 + 71 + 19" using assms(4) by (simp add: hs_def wb_header_lines_def)
  ultimately have len: "length req < READ_BUFFER_SIZE" by (simp add: req_def)
  have cl: "clean_line rl" using assms(9) by (simp add: clean_line_def rl_def wb_request_line_def wb_method_name_def)
  have clh: "\<forall>l\<in>set hs. clean_line l \<and> l \<noteq> []" using assms(10) by (simp add: clean_line_def hs_def wb_header_lines_def)
  have hl: "0 \<le> headers_length 0 hs" "headers_length 0 hs \<le> int (length ([]::string))"
    by (simp_all only: hs_def wb_headers_plain list.size of_nat_0 order_refl)
  have u: "unread (recv_store req (init_conn c)) = rl @ CRLF @ lines_bytes hs @ CRLF @ []"
    using fresh_after_init(2) [OF len] by (simp only: req_def)
  have path: "path \<noteq> []" "hd path = CHR ''/''" using assms(1) by (simp_all add: http_url_def)
  have rp: "request_path rl = (if wb_method_name (wb_method w) = ''GET'' \<and> wb_version w = 2 then Some path else None)"
    unfolding rl_def by (rule wb_request_line_path [OF assms(6) path assms(7,8)])
  have lg: "headers_linger False hs = False" by (simp only: hs_def wb_headers_plain)
  obtain code c' where pr: "process_read fs (recv_store req (init_conn c)) = Inr (code, c')"
    and post: "case request_path rl of None \<Rightarrow> code = BAD_REQUEST
       | Some p \<Rightarrow> code = request_code fs p \<and> m_linger c' = headers_linger False hs \<and> do_request_post fs p (code, c')"
    using complete_request_answered [OF fresh_after_init(1) [OF len] u cl clh hl] by blast
  have "code = (if wb_method_name (wb_method w) = ''GET'' \<and> wb_version w = 2 then request_code fs path else BAD_REQUEST) \<and>
     (wb_version w = 2 \<and> wb_method_name (wb_method w) = ''GET'' \<longrightarrow> \<not> m_linger c')"
    using post lg unfolding rp by (cases "wb_method_name (wb_method w) = ''GET'' \<and> wb_version w = 2") auto
  then show ?thesis
    using b cstring_cstr [OF req, of 2048] len pr
    by (intro exI [of _ w'] exI [of _ req] exI [of _ code] exI [of _ c']) simp
qed

theorem webbench_request_answered_witness:
  "\<exists>w' req c'. build_request ''http://localhost:8080/index.html'' wb_globals = Inr (Runs w') \<and>
     cstring REQUEST_SIZE (wb_request w') = Inr req \<and>
     process_read sample_fs (recv_store req (init_conn sample_conn)) = Inr (BAD_REQUEST, c')"
proof -
  have u: "http_url ''http://'' ''localhost'' '':8080'' ''/index.html''" by (simp add: http_url_def)
  have v: "wb_version wb_globals = 1" "wb_proxyhost wb_globals = None" by (simp_all add: wb_version_def wb_globals_def)
  show ?thesis
    using webbench_request_answered [OF u v(2), of sample_fs sample_conn] v(1) by (auto simp: clean_line_def)
qed

section \<open>What a client counts\<close>

text \<open>
  A turn of the client's loop, as a function of what the system calls return: whether it has a connection, whether the
  request was sent, whether the turn counts as a success, the bytes of the reply, and whether
  the alarm went off while it waited for more.
\<close>

fun reply_ok :: "int list \<Rightarrow> bool" where
  "reply_ok [] = True"
| "reply_ok (i # rs) = (0 \<le> i \<and> (i = 0 \<or> reply_ok rs))"

fun reply_bytes :: "int list \<Rightarrow> int" where
  "reply_bytes [] = 0"
| "reply_bytes (i # rs) = (if i \<le> 0 then 0 else i + reply_bytes rs)"

definition turn_resolved :: "resolver \<Rightarrow> string \<Rightarrow> bool" where
  "turn_resolved net host \<longleftrightarrow> net_inet_addr net host \<noteq> INADDR_NONE \<or> net_gethostbyname net host \<noteq> None"

definition turn_leak :: "resolver \<Rightarrow> string \<Rightarrow> attempt \<Rightarrow> bool" where
  "turn_leak net host a \<longleftrightarrow> turn_resolved net host \<and> 0 \<le> at_socket a \<and> at_connect a < 0"

definition turn_sent :: "resolver \<Rightarrow> string \<Rightarrow> string \<Rightarrow> int \<Rightarrow> attempt \<Rightarrow> bool" where
  "turn_sent net host req v a \<longleftrightarrow> turn_resolved net host \<and> 0 \<le> at_socket a \<and> 0 \<le> at_connect a \<and>
     at_write a = int (length req) \<and> (v = 0 \<longrightarrow> at_shutdown a = 0)"

definition turn_ok :: "resolver \<Rightarrow> string \<Rightarrow> string \<Rightarrow> int \<Rightarrow> int \<Rightarrow> attempt \<Rightarrow> bool" where
  "turn_ok net host req v fo a \<longleftrightarrow> turn_sent net host req v a \<and> (fo = 0 \<longrightarrow> reply_ok (at_reads a)) \<and> at_close a = 0"

definition turn_bytes :: "resolver \<Rightarrow> string \<Rightarrow> string \<Rightarrow> int \<Rightarrow> int \<Rightarrow> attempt \<Rightarrow> int" where
  "turn_bytes net host req v fo a = (if turn_sent net host req v a \<and> fo = 0 then reply_bytes (at_reads a) else 0)"

definition turn_alarm :: "resolver \<Rightarrow> string \<Rightarrow> string \<Rightarrow> int \<Rightarrow> int \<Rightarrow> attempt \<Rightarrow> bool" where
  "turn_alarm net host req v fo a \<longleftrightarrow> turn_sent net host req v a \<and> fo = 0 \<and> (\<forall>i\<in>set (at_reads a). 0 < i)"

fun turns_taken :: "(attempt \<Rightarrow> bool) \<Rightarrow> attempt list \<Rightarrow> attempt list" where
  "turns_taken al [] = []"
| "turns_taken al (a # as) = a # (if al a then [] else turns_taken al as)"

lemma reply_bytes_nonneg: "0 \<le> reply_bytes rs"
  by (induction rs) auto

lemma turn_bytes_nonneg: "0 \<le> turn_bytes net host req v fo a"
  by (simp add: turn_bytes_def reply_bytes_nonneg)

lemma add_int_ok: "0 \<le> a \<Longrightarrow> 0 \<le> b \<Longrightarrow> a + b \<le> INT_MAX \<Longrightarrow> add_int a b = Inr (a + b)"
  by (simp add: add_int_def)

lemma wb_fail_ok: "0 \<le> wb_failed w \<Longrightarrow> wb_failed w < INT_MAX \<Longrightarrow> wb_fail w = Inr (w\<lparr>wb_failed := wb_failed w + 1\<rparr>)"
  by (simp add: wb_fail_def add_int_ok)

lemma read_reply_effect:
  assumes "0 \<le> wb_bytes w" and "wb_bytes w + reply_bytes rs \<le> INT_MAX" and "0 \<le> wb_failed w" and "wb_failed w < INT_MAX"
  shows "read_reply rs w = Inr (\<not> reply_ok rs, w\<lparr>wb_timerexpired := (if \<forall>i\<in>set rs. 0 < i then 1 else wb_timerexpired w),
     wb_failed := wb_failed w + of_bool (\<not> reply_ok rs), wb_bytes := wb_bytes w + reply_bytes rs\<rparr>)"
  using assms
proof (induction rs arbitrary: w)
  case Nil
  then show ?case by (simp add: alarm_handler_def)
next
  case (Cons i rs)
  show ?case
  proof (cases "0 < i")
    case True
    with Cons.prems have "add_int (wb_bytes w) i = Inr (wb_bytes w + i)"
      using reply_bytes_nonneg [of rs] by (simp add: add_int_ok)
    with True Cons show ?thesis by (simp add: add.assoc)
  next
    case False
    with Cons.prems show ?thesis by (auto simp: wb_fail_ok)
  qed
qed

lemma Socket_effect:
  obtains s fds' where "Socket net (at_socket a) (\<lambda>_. at_connect a) host port fds = (s, fds')"
    and "s < 0 \<longleftrightarrow> \<not> (turn_resolved net host \<and> 0 \<le> at_socket a \<and> 0 \<le> at_connect a)"
    and "s < 0 \<Longrightarrow> length fds' = length fds + of_bool (turn_leak net host a)"
    and "0 \<le> s \<Longrightarrow> fds' = fds @ [s] \<and> \<not> turn_leak net host a"
proof -
  show thesis
  proof (cases "turn_resolved net host")
    case False
    then show thesis by (intro that [of "- 1" fds]) (simp_all add: Socket_def turn_resolved_def turn_leak_def)
  next
    case True
    then obtain ia where ia: "(if net_inet_addr net host \<noteq> INADDR_NONE then Some (net_inet_addr net host)
        else net_gethostbyname net host) = Some ia"
      by (cases "net_inet_addr net host = INADDR_NONE") (auto simp: turn_resolved_def)
    show thesis
    proof (cases "at_socket a < 0")
      case neg: True
      then show thesis using ia True by (intro that [of "at_socket a" fds]) (simp_all add: Socket_def turn_leak_def)
    next
      case False
      then show thesis
        using ia True
        by (intro that [of "if at_connect a < 0 then -1 else at_socket a" "fds @ [at_socket a]"])
          (simp_all add: Socket_def turn_leak_def split: if_splits)
    qed
  qed
qed

lemma wb_close_last: "length (wb_close s (fds @ [s])) = length fds"
  by (simp add: wb_close_def length_remove1)

lemma bench_attempt_effect:
  fixes net host req a w
  defines "ok \<equiv> turn_ok net host req (wb_http10 w) (wb_force w) a"
    and "n \<equiv> turn_bytes net host req (wb_http10 w) (wb_force w) a"
    and "al \<equiv> turn_alarm net host req (wb_http10 w) (wb_force w) a"
  assumes r: "0 \<le> wb_bytes w" "wb_bytes w + n \<le> INT_MAX" "0 \<le> wb_failed w" "wb_failed w < INT_MAX"
    "0 \<le> wb_speed w" "wb_speed w < INT_MAX"
  shows "\<exists>fds'. bench_attempt net host port req a (w, fds) =
       Inr (w\<lparr>wb_timerexpired := (if al then 1 else wb_timerexpired w), wb_speed := wb_speed w + of_bool ok,
              wb_failed := wb_failed w + of_bool (\<not> ok), wb_bytes := wb_bytes w + n\<rparr>, fds') \<and>
     length fds' = length fds + of_bool (turn_leak net host a)"
proof -
  obtain s fds1 where S: "Socket net (at_socket a) (\<lambda>_. at_connect a) host port fds = (s, fds1)"
    "s < 0 \<longleftrightarrow> \<not> (turn_resolved net host \<and> 0 \<le> at_socket a \<and> 0 \<le> at_connect a)"
    "s < 0 \<Longrightarrow> length fds1 = length fds + of_bool (turn_leak net host a)"
    "0 \<le> s \<Longrightarrow> fds1 = fds @ [s] \<and> \<not> turn_leak net host a" by (rule Socket_effect [of net a host port fds]) (rule that)
  note defs = bench_attempt_def S(1) Let_def
  show ?thesis
  proof (cases "turn_sent net host req (wb_http10 w) a")
    case False
    then have no: "\<not> ok" "n = 0" "\<not> al" by (simp_all add: ok_def turn_ok_def n_def turn_bytes_def al_def turn_alarm_def)
    have w: "w\<lparr>wb_timerexpired := (if al then 1 else wb_timerexpired w), wb_speed := wb_speed w + of_bool ok,
        wb_failed := wb_failed w + of_bool (\<not> ok), wb_bytes := wb_bytes w + n\<rparr> = w\<lparr>wb_failed := wb_failed w + 1\<rparr>"
      using no by simp
    note fail = wb_fail_ok [OF r(3,4)]
    show ?thesis
    proof (cases "s < 0")
      case True
      then show ?thesis using S(3) fail unfolding w by (simp add: defs)
    next
      case nonneg: False
      with False S(2) have "int (length req) \<noteq> at_write a \<or> (wb_http10 w = 0 \<and> at_shutdown a \<noteq> 0)"
        by (auto simp: turn_sent_def)
      with nonneg S(4) fail show ?thesis unfolding w by (auto simp: defs wb_close_last)
    qed
  next
    case True
    with S(2) have s: "\<not> s < 0" "int (length req) = at_write a" "\<not> (wb_http10 w = 0 \<and> at_shutdown a \<noteq> 0)"
      by (auto simp: turn_sent_def)
    with S(4) have fds: "length (wb_close s fds1) = length fds" "\<not> turn_leak net host a" by (simp_all add: wb_close_last)
    have body: "bench_attempt net host port req a (w, fds) =
        bindr (if wb_force w = 0 then read_reply (at_reads a) w else Inr (False, w)) (\<lambda>(again, w).
        if again then Inr (w, wb_close s fds1)
        else if at_close a \<noteq> 0 then bindr (wb_fail w) (\<lambda>w. Inr (w, wb_close s fds1))
        else bindr (add_int (wb_speed w) 1) (\<lambda>v. Inr (w\<lparr>wb_speed := v\<rparr>, wb_close s fds1)))"
      unfolding bench_attempt_def Let_def prod.case S(1) if_not_P [OF s(1)] if_not_P [OF s(3)] using s(2) by simp
    show ?thesis
    proof (cases "wb_force w = 0")
      case False
      then have "ok \<longleftrightarrow> at_close a = 0" "n = 0" "\<not> al"
        using True by (simp_all add: ok_def turn_ok_def n_def turn_bytes_def al_def turn_alarm_def)
      with fds False wb_fail_ok [OF r(3,4)] add_int_ok [OF r(5), of 1] r(6) show ?thesis unfolding body by simp
    next
      case force: True
      then have e: "ok \<longleftrightarrow> reply_ok (at_reads a) \<and> at_close a = 0" "n = reply_bytes (at_reads a)" "al \<longleftrightarrow> (\<forall>i\<in>set (at_reads a). 0 < i)"
        using True by (simp_all add: ok_def turn_ok_def n_def turn_bytes_def al_def turn_alarm_def)
      note rr = read_reply_effect [OF r(1) r(2) [unfolded e(2)] r(3,4)]
      show ?thesis
      proof (cases "reply_ok (at_reads a)")
        case True
        with fds force rr wb_fail_ok [of "w\<lparr>wb_timerexpired := t, wb_bytes := b\<rparr>" for t b] add_int_ok [OF r(5), of 1] r(3,4,6)
        show ?thesis unfolding e body by simp
      next
        case False
        with fds force rr show ?thesis unfolding e body by simp
      qed
    qed
  qed
qed

lemma benchcore_loop_counts:
  fixes net host req v fo turns
  defines "ts \<equiv> turns_taken (turn_alarm net host req v fo) turns"
  assumes "wb_http10 w = v" "wb_force w = fo" "wb_timerexpired w = 0"
    and "0 \<le> wb_bytes w" "wb_bytes w + (\<Sum>a\<leftarrow>ts. turn_bytes net host req v fo a) \<le> INT_MAX"
    and "0 \<le> wb_failed w" "wb_failed w + int (length ts) \<le> INT_MAX"
    and "0 \<le> wb_speed w" "wb_speed w + int (length ts) \<le> INT_MAX"
  shows "\<exists>w' fds'. benchcore_loop net host port req turns (w, fds) = Inr (w', fds') \<and>
     wb_speed w' = wb_speed w + int (length (filter (turn_ok net host req v fo) ts)) \<and>
     wb_failed w' = max 0 (wb_failed w + int (length (filter (\<lambda>a. \<not> turn_ok net host req v fo a) ts)) - 1) \<and>
     wb_bytes w' = wb_bytes w + (\<Sum>a\<leftarrow>ts. turn_bytes net host req v fo a) \<and>
     length fds' = length fds + length (filter (turn_leak net host) ts)"
  using assms(2-)
  unfolding ts_def
proof (induction turns arbitrary: w fds)
  case Nil
  then show ?case by (simp add: alarm_handler_def bench_expired_def)
next
  case (Cons a as)
  let ?al = "turn_alarm net host req v fo" and ?ok = "turn_ok net host req v fo" and ?n = "turn_bytes net host req v fo"
  define ts where "ts = (if ?al a then [] else turns_taken ?al as)"
  define w1 where "w1 = w\<lparr>wb_timerexpired := (if ?al a then 1 else 0), wb_speed := wb_speed w + of_bool (?ok a),
              wb_failed := wb_failed w + of_bool (\<not> ?ok a), wb_bytes := wb_bytes w + ?n a\<rparr>"
  have nn: "0 \<le> (\<Sum>a\<leftarrow>ts. ?n a)" by (rule sum_list_nonneg) (auto simp: turn_bytes_nonneg)
  have tk: "turns_taken ?al (a # as) = a # ts" by (simp add: ts_def)
  note pr = Cons.prems [unfolded tk]
  have b: "wb_bytes w + ?n a \<le> INT_MAX" "wb_failed w < INT_MAX" "wb_speed w < INT_MAX" using pr nn by simp_all
  from bench_attempt_effect [of w net host req a port fds] pr b obtain fds1 where
    at: "bench_attempt net host port req a (w, fds) = Inr (w1, fds1)" "length fds1 = length fds + of_bool (turn_leak net host a)"
    by (auto simp: w1_def)
  show ?case
  proof (cases "?al a")
    case True
    then have ts: "ts = []" by (simp add: ts_def)
    have "benchcore_loop net host port req (a # as) (w, fds) = Inr (bench_expired w1, fds1)"
      using at(1) pr(3) True by (cases as) (simp_all add: w1_def bench_expired_def alarm_handler_def)
    moreover have "wb_speed (bench_expired w1) = wb_speed w + of_bool (?ok a)" "wb_bytes (bench_expired w1) = wb_bytes w + ?n a"
      "wb_failed (bench_expired w1) = max 0 (wb_failed w + of_bool (\<not> ?ok a) - 1)"
      using pr(6) by (simp_all add: bench_expired_def w1_def)
    ultimately show ?thesis unfolding tk ts using at(2) by simp
  next
    case False
    then have ts: "ts = turns_taken ?al as" by (simp add: ts_def)
    have w1: "wb_http10 w1 = v" "wb_force w1 = fo" "wb_timerexpired w1 = 0" "0 \<le> wb_bytes w1"
      "wb_bytes w1 + (\<Sum>a\<leftarrow>ts. ?n a) \<le> INT_MAX" "0 \<le> wb_failed w1" "wb_failed w1 + int (length ts) \<le> INT_MAX"
      "0 \<le> wb_speed w1" "wb_speed w1 + int (length ts) \<le> INT_MAX"
      using pr False turn_bytes_nonneg [of net host req v fo a] by (simp_all add: w1_def)
    from Cons.IH [OF w1 [unfolded ts], of fds1] at pr(3) show ?thesis
      unfolding tk ts [symmetric] by (auto simp: w1_def)
  qed
qed

section \<open>What the parent adds up\<close>

definition report_line :: "int \<times> int \<times> int \<Rightarrow> int list" where
  "report_line = (\<lambda>(s, f, b). [s, f, b])"

abbreviation "rep_speed r \<equiv> fst (r :: int \<times> int \<times> int)"
abbreviation "rep_failed r \<equiv> fst (snd (r :: int \<times> int \<times> int))"
abbreviation "rep_bytes r \<equiv> snd (snd (r :: int \<times> int \<times> int))"

definition report_ok :: "int \<times> int \<times> int \<Rightarrow> bool" where
  "report_ok r \<longleftrightarrow> 0 \<le> rep_speed r \<and> 0 \<le> rep_failed r \<and> 0 \<le> rep_bytes r"

lemma report_sums_nonneg:
  assumes "list_all report_ok rs"
  shows "0 \<le> (\<Sum>r\<leftarrow>rs. rep_speed r)" "0 \<le> (\<Sum>r\<leftarrow>rs. rep_failed r)" "0 \<le> (\<Sum>r\<leftarrow>rs. rep_bytes r)"
  using assms by (auto simp: list_all_iff report_ok_def intro!: sum_list_nonneg)

lemma collect_reports:
  assumes "rs \<noteq> []" and "wb_clients w = int (length rs)" and "wb_clients w \<le> INT_MAX" and "list_all report_ok rs"
    and "0 \<le> wb_speed w" "wb_speed w + (\<Sum>r\<leftarrow>rs. rep_speed r) \<le> INT_MAX"
    and "0 \<le> wb_failed w" "wb_failed w + (\<Sum>r\<leftarrow>rs. rep_failed r) \<le> INT_MAX"
    and "0 \<le> wb_bytes w" "wb_bytes w + (\<Sum>r\<leftarrow>rs. rep_bytes r) \<le> INT_MAX"
  shows "collect (map report_line rs @ tail) i k w =
     Inr (rep_speed (last rs), w\<lparr>wb_speed := wb_speed w + (\<Sum>r\<leftarrow>rs. rep_speed r), wb_failed := wb_failed w + (\<Sum>r\<leftarrow>rs. rep_failed r),
       wb_bytes := wb_bytes w + (\<Sum>r\<leftarrow>rs. rep_bytes r), wb_clients := 0\<rparr>)"
  using assms
proof (induction rs arbitrary: i k w)
  case (Cons r rs)
  obtain s f b where r: "r = (s, f, b)" by (cases r)
  have ok: "list_all report_ok rs" and "report_ok r" using Cons.prems(4) by simp_all
  then have nn: "0 \<le> s" "0 \<le> f" "0 \<le> b" by (simp_all add: r report_ok_def)
  note sums = report_sums_nonneg [OF ok]
  define w1 where "w1 = w\<lparr>wb_speed := wb_speed w + s, wb_failed := wb_failed w + f, wb_bytes := wb_bytes w + b,
      wb_clients := wb_clients w + - 1\<rparr>"
  have adds: "add_int (wb_speed w) s = Inr (wb_speed w + s)" "add_int (wb_failed w) f = Inr (wb_failed w + f)"
    "add_int (wb_bytes w) b = Inr (wb_bytes w + b)" "add_int (wb_clients w) (- 1) = Inr (wb_clients w + - 1)"
    using Cons.prems nn sums by (simp_all add: add_int_ok r add_int_def)
  have step: "collect (map report_line (r # rs) @ tail) i k w =
      (if wb_clients w + - 1 = 0 then Inr (s, w1) else collect (map report_line rs @ tail) s b w1)"
    by (simp add: r report_line_def adds w1_def Let_def del: uminus_add_conv_diff)
  show ?case
  proof (cases "rs = []")
    case True
    with Cons.prems(2) show ?thesis unfolding step by (simp add: r w1_def)
  next
    case False
    have prems: "wb_clients w1 = int (length rs)" "wb_clients w1 \<le> INT_MAX"
      "0 \<le> wb_speed w1" "wb_speed w1 + (\<Sum>r\<leftarrow>rs. rep_speed r) \<le> INT_MAX"
      "0 \<le> wb_failed w1" "wb_failed w1 + (\<Sum>r\<leftarrow>rs. rep_failed r) \<le> INT_MAX"
      "0 \<le> wb_bytes w1" "wb_bytes w1 + (\<Sum>r\<leftarrow>rs. rep_bytes r) \<le> INT_MAX"
      using Cons.prems nn by (simp_all add: w1_def r)
    have "wb_clients w + - 1 \<noteq> 0" using Cons.prems(2) False by simp
    then have "collect (map report_line (r # rs) @ tail) i k w = collect (map report_line rs @ tail) s b w1"
      unfolding step by (simp only: if_False)
    also have "\<dots> = Inr (rep_speed (last rs), w1\<lparr>wb_speed := wb_speed w1 + (\<Sum>r\<leftarrow>rs. rep_speed r),
        wb_failed := wb_failed w1 + (\<Sum>r\<leftarrow>rs. rep_failed r), wb_bytes := wb_bytes w1 + (\<Sum>r\<leftarrow>rs. rep_bytes r), wb_clients := 0\<rparr>)"
      by (rule Cons.IH [OF False prems(1,2) ok prems(3-)])
    finally show ?thesis using False by (simp add: w1_def r)
  qed
qed simp

lemma fork_loop_parent:
  assumes "i < clients" and "\<And>j. i \<le> j \<Longrightarrow> j < clients \<Longrightarrow> 0 < fork j"
  shows "fork_loop clients fork i pid = (clients, fork (clients - 1))"
  using assms
proof (induction clients fork i pid rule: fork_loop.induct)
  case (1 clients fork i pid)
  then have f: "0 < fork i" by simp
  show ?case
  proof (cases "i + 1 < clients")
    case True
    with 1 f have "fork_loop clients fork (i + 1) (fork i) = (clients, fork (clients - 1))" by simp
    with True f show ?thesis by (subst fork_loop.simps) simp
  next
    case False
    with 1 f have "clients = i + 1" by simp
    with f show ?thesis by (subst fork_loop.simps) (simp add: fork_loop.simps [of "i + 1"])
  qed
qed

section \<open>Properties of the benchmark\<close>

text \<open>
  C19. What a client process counts: until the alarm, every turn of its loop that connects, sends the
  whole request, reads the reply to its end (or to the alarm) and closes the socket
  counts as a success, every other as a failure; the bytes are those of
  all replies; at the alarm one failure, if there is one, is taken back. Every
  failed \<open>connect\<close> leaves its descriptor open.
\<close>

theorem benchcore_counts:
  fixes net host req v fo turns
  defines "ts \<equiv> turns_taken (turn_alarm net host req v fo) turns"
  assumes "wb_http10 w = v" "wb_force w = fo" "wb_timerexpired w = 0"
    and "0 \<le> wb_bytes w" "wb_bytes w + (\<Sum>a\<leftarrow>ts. turn_bytes net host req v fo a) \<le> INT_MAX"
    and "0 \<le> wb_failed w" "wb_failed w + int (length ts) \<le> INT_MAX"
    and "0 \<le> wb_speed w" "wb_speed w + int (length ts) \<le> INT_MAX"
  shows "\<exists>w' fds'. benchcore net host port req 0 turns (w, fds) = Inr (Runs (w', fds')) \<and>
     wb_speed w' = wb_speed w + int (length (filter (turn_ok net host req v fo) ts)) \<and>
     wb_failed w' = max 0 (wb_failed w + int (length (filter (\<lambda>a. \<not> turn_ok net host req v fo a) ts)) - 1) \<and>
     wb_bytes w' = wb_bytes w + (\<Sum>a\<leftarrow>ts. turn_bytes net host req v fo a) \<and>
     length fds' = length fds + length (filter (turn_leak net host) ts)"
  using benchcore_loop_counts [OF assms(2-4) assms(5,6) [unfolded ts_def] assms(7,8) [unfolded ts_def] assms(9,10) [unfolded ts_def], of port fds]
  by (auto simp: benchcore_def ts_def)

definition sample_net :: resolver where
  "sample_net = \<lparr>net_inet_addr = (\<lambda>_. 0x0100007F), net_gethostbyname = (\<lambda>_. None)\<rparr>"

definition sample_turns :: "attempt list" where
  "sample_turns =
     [\<lparr>at_socket = 4, at_connect = 0, at_write = 5, at_shutdown = 0, at_reads = [100, 20, 0], at_close = 0\<rparr>,
      \<lparr>at_socket = 4, at_connect = -1, at_write = 5, at_shutdown = 0, at_reads = [], at_close = 0\<rparr>,
      \<lparr>at_socket = 5, at_connect = 0, at_write = 5, at_shutdown = 0, at_reads = [7], at_close = 0\<rparr>]"

theorem benchcore_counts_witness:
  "\<exists>w' fds'. benchcore sample_net ''127.0.0.1'' 80 ''GET /'' 0 sample_turns (wb_globals, []) = Inr (Runs (w', fds')) \<and>
     wb_speed w' = 2 \<and> wb_failed w' = 0 \<and> wb_bytes w' = 127 \<and> length fds' = 1"
  using benchcore_counts [of wb_globals 1 0 sample_net "''127.0.0.1''" "''GET /''" sample_turns 80 "[]"]
  by (simp add: wb_globals_def sample_turns_def sample_net_def turn_alarm_def turn_sent_def turn_resolved_def turn_ok_def
      turn_bytes_def turn_leak_def INADDR_NONE_def)

text \<open>
  What the parent reports: with a connection, a pipe and every \<open>fork\<close> successful, it reads one line per
  client and its counters are the sums over all clients; the exit code of the
  program is the number of successes in the last line, whatever the documented codes.
\<close>

theorem bench_totals:
  assumes "(case wb_proxyhost w of None \<Rightarrow> cstring MAXHOSTNAMELEN (wb_host w) | Some p \<Rightarrow> Inr p) = Inr target"
    and "turn_resolved (be_net env) target" "0 \<le> be_socket env" "0 \<le> be_connect env" "be_pipe env = 0" "be_fdopen env"
    and "rs \<noteq> []" "wb_clients w = int (length rs)" "wb_clients w \<le> INT_MAX" "\<forall>i. 0 < be_fork env i"
    and "be_scans env = map report_line rs" "list_all report_ok rs"
    and "(\<Sum>r\<leftarrow>rs. rep_speed r) \<le> INT_MAX" "(\<Sum>r\<leftarrow>rs. rep_failed r) \<le> INT_MAX" "(\<Sum>r\<leftarrow>rs. rep_bytes r) \<le> INT_MAX"
  shows "bench env w = Inr (rep_speed (last rs),
     w\<lparr>wb_speed := (\<Sum>r\<leftarrow>rs. rep_speed r), wb_failed := (\<Sum>r\<leftarrow>rs. rep_failed r), wb_bytes := (\<Sum>r\<leftarrow>rs. rep_bytes r), wb_clients := 0\<rparr>, None)"
proof -
  define a where "a = \<lparr>at_socket = be_socket env, at_connect = be_connect env, at_write = 0, at_shutdown = 0, at_reads = [], at_close = 0\<rparr>"
  have a: "at_socket a = be_socket env" "at_connect a = be_connect env" by (simp_all add: a_def)
  obtain s fds where S: "Socket (be_net env) (be_socket env) (\<lambda>_. be_connect env) target (wb_proxyport w) [] = (s, fds)" "\<not> s < 0"
    using Socket_effect [of "be_net env" a target "wb_proxyport w" "[]"] assms(2-4) a by metis
  have "0 < wb_clients w" using assms(7,8) by simp
  then have fl: "fork_loop (wb_clients w) (be_fork env) 0 0 = (wb_clients w, be_fork env (wb_clients w - 1))"
    by (rule fork_loop_parent) (use assms(10) in simp)
  have pid: "\<not> be_fork env (wb_clients w - 1) < 0" "be_fork env (wb_clients w - 1) \<noteq> 0"
    using assms(10) by (metis less_asym, metis less_irrefl)
  let ?w = "w\<lparr>wb_speed := 0, wb_failed := 0, wb_bytes := 0\<rparr>"
  have "collect (be_scans env) (wb_clients w) (be_k env) ?w =
     Inr (rep_speed (last rs), ?w\<lparr>wb_speed := wb_speed ?w + (\<Sum>r\<leftarrow>rs. rep_speed r), wb_failed := wb_failed ?w + (\<Sum>r\<leftarrow>rs. rep_failed r),
       wb_bytes := wb_bytes ?w + (\<Sum>r\<leftarrow>rs. rep_bytes r), wb_clients := 0\<rparr>)"
    using collect_reports [OF assms(7) _ _ assms(12), of ?w "[]" "wb_clients w" "be_k env"] assms(8,9,11,13-15) by simp
  then show ?thesis
    unfolding bench_def assms(1) using S fl pid assms(5,6) by simp
qed

theorem bench_totals_witness:
  "bench \<lparr>be_net = sample_net, be_socket = 3, be_connect = 0, be_pipe = 0, be_fork = (\<lambda>i. 100 + (if i < 0 then 0 else i)), be_sigaction = 0,
      be_fdopen = True, be_scans = [[5, 1, 900], [7, 0, 1100]], be_k = 0, be_turns = []\<rparr>
     (wb_globals\<lparr>wb_clients := 2, wb_proxyhost := Some ''127.0.0.1''\<rparr>) =
   Inr (7, wb_globals\<lparr>wb_speed := 12, wb_failed := 1, wb_bytes := 2000, wb_clients := 0, wb_proxyhost := Some ''127.0.0.1''\<rparr>, None)"
  using bench_totals [of "wb_globals\<lparr>wb_clients := 2, wb_proxyhost := Some ''127.0.0.1''\<rparr>" "''127.0.0.1''"
      "\<lparr>be_net = sample_net, be_socket = 3, be_connect = 0, be_pipe = 0, be_fork = (\<lambda>i. 100 + (if i < 0 then 0 else i)), be_sigaction = 0,
      be_fdopen = True, be_scans = [[5, 1, 900], [7, 0, 1100]], be_k = 0, be_turns = []\<rparr>" "[(5, 1, 900), (7, 0, 1100)]"]
  by (simp add: report_line_def report_ok_def turn_resolved_def sample_net_def INADDR_NONE_def wb_globals_def)

end
