(* ===== verification/Service_Refinement.thy ===== *)
theory Service_Refinement
  imports Logic_System Thread_Pool "HOL-Library.Multiset"
begin

text \<open>
  An abstract service, and the two work queues of the repository as implementations of it: the
  logic layer of the pooled server (one worker, a condition variable) and the thread pool
  of the Proactor server (several workers, a semaphore, a bounded queue). The service has no
  threads, locks or wakeups: messages are submitted, started in order and finished. An
  implementation refines it if every sequence of these events it shows is one of the service. The locale
  \<open>simulation\<close> says what it takes for that, and is interpreted on both.
\<close>

section \<open>Traces\<close>

text \<open>The event sequences of a system whose steps carry an event, and of one in which only some steps show events.\<close>

inductive trace :: "('a \<Rightarrow> 'e \<Rightarrow> 'a \<Rightarrow> bool) \<Rightarrow> 'a \<Rightarrow> 'e list \<Rightarrow> 'a \<Rightarrow> bool" for step s where
  empty: "trace step s [] s"
| more: "trace step s tr s' \<Longrightarrow> step s' e s'' \<Longrightarrow> trace step s (tr @ [e]) s''"

inductive shows_trace :: "('c \<Rightarrow> 'c \<Rightarrow> bool) \<Rightarrow> ('c \<Rightarrow> 'c \<Rightarrow> 'e list) \<Rightarrow> 'c \<Rightarrow> 'e list \<Rightarrow> 'c \<Rightarrow> bool" for step events s where
  empty: "shows_trace step events s [] s"
| more: "shows_trace step events s tr s' \<Longrightarrow> step s' s'' \<Longrightarrow> shows_trace step events s (tr @ events s' s'') s''"

lemma shows_trace_exists: "step\<^sup>*\<^sup>* s s' \<Longrightarrow> \<exists>tr. shows_trace step events s tr s'"
  by (induction rule: rtranclp_induct) (blast intro: shows_trace.intros)+

lemma shows_trace_reachable: "shows_trace step events s tr s' \<Longrightarrow> step\<^sup>*\<^sup>* s s'"
  by (induction rule: shows_trace.induct) auto

locale simulation =
  fixes cstep :: "'c \<Rightarrow> 'c \<Rightarrow> bool" and events :: "'c \<Rightarrow> 'c \<Rightarrow> 'e list" and inv :: "'c \<Rightarrow> bool"
    and abs :: "'c \<Rightarrow> 'a" and astep :: "'a \<Rightarrow> 'e \<Rightarrow> 'a \<Rightarrow> bool"
  assumes inv_step: "inv c \<Longrightarrow> cstep c c' \<Longrightarrow> inv c'"
    and step_sim: "inv c \<Longrightarrow> cstep c c' \<Longrightarrow>
      events c c' = [] \<and> abs c' = abs c \<or> (\<exists>e. events c c' = [e] \<and> astep (abs c) e (abs c'))"
begin

lemma trace_sim:
  assumes "shows_trace cstep events c tr c'" and "inv c"
  shows "inv c' \<and> trace astep (abs c) tr (abs c')"
  using assms(1)
proof (induction rule: shows_trace.induct)
  case empty
  show ?case using assms(2) by (simp add: trace.empty)
next
  case (more tr c1 c2)
  then have "inv c1" "trace astep (abs c) tr (abs c1)" by simp_all
  with inv_step [OF _ more(2)] step_sim [OF _ more(2)] show ?case by (auto intro: trace.more)
qed

end

section \<open>The service\<close>

text \<open>
  A service with \<open>k\<close> servers: what waits, in order, and what is being served. With a
  limit \<open>cap\<close> nothing is accepted while more than \<open>cap\<close> messages wait. A message in
  \<open>ign\<close> is taken and dropped.
\<close>

datatype 'm service_event = Submit 'm | Start 'm | Finish 'm

record 'm service =
  sv_pending :: "'m list"
  sv_running :: "'m multiset"

definition service_start :: "'m service" where
  "service_start = \<lparr>sv_pending = [], sv_running = {#}\<rparr>"

inductive service_step :: "nat \<Rightarrow> nat option \<Rightarrow> ('m \<Rightarrow> bool) \<Rightarrow> 'm service \<Rightarrow> 'm service_event \<Rightarrow> 'm service \<Rightarrow> bool"
  for k :: nat and cap :: "nat option" and ign :: "'m \<Rightarrow> bool" where
  submit: "\<forall>c. cap = Some c \<longrightarrow> length (sv_pending s) \<le> c \<Longrightarrow>
     service_step k cap ign s (Submit m) (s\<lparr>sv_pending := sv_pending s @ [m]\<rparr>)"
| start: "sv_pending s = m # q \<Longrightarrow> size (sv_running s) < k \<Longrightarrow>
     service_step k cap ign s (Start m) (s\<lparr>sv_pending := q, sv_running := (if ign m then {#} else {#m#}) + sv_running s\<rparr>)"
| finish: "m \<in># sv_running s \<Longrightarrow> service_step k cap ign s (Finish m) (s\<lparr>sv_running := sv_running s - {#m#}\<rparr>)"

inductive_cases service_stepE: "service_step k cap ign s e s'"

text \<open>What was submitted, started and finished in a trace.\<close>

definition submits :: "'m service_event list \<Rightarrow> 'm list" where
  "submits tr = concat (map (\<lambda>e. case e of Submit m \<Rightarrow> [m] | _ \<Rightarrow> []) tr)"

definition starts :: "'m service_event list \<Rightarrow> 'm list" where
  "starts tr = concat (map (\<lambda>e. case e of Start m \<Rightarrow> [m] | _ \<Rightarrow> []) tr)"

definition finishes :: "'m service_event list \<Rightarrow> 'm list" where
  "finishes tr = concat (map (\<lambda>e. case e of Finish m \<Rightarrow> [m] | _ \<Rightarrow> []) tr)"

lemma trace_parts [simp]:
  "submits [] = []" "starts [] = []" "finishes [] = []"
  "submits (tr @ [e]) = submits tr @ (case e of Submit m \<Rightarrow> [m] | _ \<Rightarrow> [])"
  "starts (tr @ [e]) = starts tr @ (case e of Start m \<Rightarrow> [m] | _ \<Rightarrow> [])"
  "finishes (tr @ [e]) = finishes tr @ (case e of Finish m \<Rightarrow> [m] | _ \<Rightarrow> [])"
  by (simp_all add: submits_def starts_def finishes_def)

text \<open>
  What the service promises: messages are started in the order in which they were submitted, each once;
  every message started is finished once, dropped, or being served; never more than \<open>k\<close> are served
  at once, and at most one more than the limit wait.
\<close>

definition service_ok :: "nat \<Rightarrow> nat option \<Rightarrow> ('m \<Rightarrow> bool) \<Rightarrow> 'm service_event list \<Rightarrow> 'm service \<Rightarrow> bool" where
  "service_ok k cap ign tr s \<longleftrightarrow> submits tr = starts tr @ sv_pending s \<and>
     mset (filter (\<lambda>m. \<not> ign m) (starts tr)) = mset (finishes tr) + sv_running s \<and>
     size (sv_running s) \<le> k \<and> (\<forall>c. cap = Some c \<longrightarrow> length (sv_pending s) \<le> c + 1)"

lemma service_ok_trace:
  assumes "trace (service_step k cap ign) service_start tr s"
  shows "service_ok k cap ign tr s"
  using assms
proof (induction rule: trace.induct)
  case empty
  show ?case by (simp add: service_ok_def service_start_def)
next
  case (more tr s e s')
  from more(2) more(3) show ?case
    by (cases rule: service_step.cases) (auto simp: service_ok_def size_Diff_singleton)
qed

section \<open>The logic layer\<close>

definition logic_service :: "logic_run \<Rightarrow> LogicNode service" where
  "logic_service s = \<lparr>sv_pending = ls_msg_que (lr_sys s), sv_running = mset (in_hand (lr_worker s))\<rparr>"

text \<open>The events a step shows: what it adds to the messages posted, taken and dealt with.\<close>

definition logic_events :: "logic_run \<Rightarrow> logic_run \<Rightarrow> LogicNode service_event list" where
  "logic_events s s' = map Submit (drop (length (lr_posted s)) (lr_posted s')) @
     map Start (drop (length (lr_taken s)) (lr_taken s')) @ map Finish (drop (length (lr_dealt s)) (lr_dealt s'))"

definition logic_simulated :: "logic_run \<Rightarrow> logic_run \<Rightarrow> bool" where
  "logic_simulated s s' \<longleftrightarrow> logic_events s s' = [] \<and> logic_service s' = logic_service s \<or>
     (\<exists>e. logic_events s s' = [e] \<and> service_step 1 None (\<lambda>_. False) (logic_service s) e (logic_service s'))"

lemma logic_silent:
  "ls_msg_que (lr_sys s') = ls_msg_que (lr_sys s) \<Longrightarrow> in_hand (lr_worker s') = in_hand (lr_worker s) \<Longrightarrow>
     lr_posted s' = lr_posted s \<Longrightarrow> lr_taken s' = lr_taken s \<Longrightarrow> lr_dealt s' = lr_dealt s \<Longrightarrow> logic_simulated s s'"
  by (simp add: logic_simulated_def logic_service_def logic_events_def)

lemma notify_one_in_hand: "in_hand (lr_worker (notify_one s)) = in_hand (lr_worker s)"
  "ls_msg_que (lr_sys (notify_one s)) = ls_msg_que (lr_sys s)" "lr_dealt (notify_one s) = lr_dealt s"
  "lr_posted (notify_one s) = lr_posted s" "lr_taken (notify_one s) = lr_taken s"
  by (simp_all add: notify_one_def)

lemma take_node_service:
  assumes "take_node l s = Inr s'" and "in_hand (lr_worker s) = []" and "\<And>n. in_hand (l n) = [n]"
  shows "logic_simulated s s'"
proof -
  from assms(1) obtain n q where q: "ls_msg_que (lr_sys s) = n # q"
    and s': "s' = set_mutex None (set_que q (s\<lparr>lr_worker := l n, lr_taken := lr_taken s @ [n]\<rparr>))"
    unfolding take_node_eq by blast
  have "service_step 1 None (\<lambda>_. False) (logic_service s) (Start n)
      (logic_service s\<lparr>sv_pending := q, sv_running := (if False then {#} else {#n#}) + sv_running (logic_service s)\<rparr>)"
    by (rule service_step.start) (simp_all add: logic_service_def q assms(2))
  moreover have "logic_service s' = logic_service s\<lparr>sv_pending := q, sv_running := (if False then {#} else {#n#}) + sv_running (logic_service s)\<rparr>"
    using assms(2,3) by (simp add: logic_service_def s')
  moreover have "logic_events s s' = [Start n]" by (simp add: logic_events_def s')
  ultimately show ?thesis by (simp add: logic_simulated_def)
qed

lemma deal_node_service:
  assumes "deal_node n l s = Inr s'" and "in_hand (lr_worker s) = [n]" and "in_hand l = []"
  shows "logic_simulated s s'"
proof -
  from assms(1) obtain ss where s': "s' = s\<lparr>lr_sessions := ss, lr_worker := l, lr_dealt := lr_dealt s @ [n]\<rparr>"
    unfolding deal_node_eq by blast
  have "service_step 1 None (\<lambda>_. False) (logic_service s) (Finish n)
      (logic_service s\<lparr>sv_running := sv_running (logic_service s) - {#n#}\<rparr>)"
    by (rule service_step.finish) (simp add: logic_service_def assms(2))
  moreover have "logic_service s' = logic_service s\<lparr>sv_running := sv_running (logic_service s) - {#n#}\<rparr>"
    using assms(2,3) by (simp add: logic_service_def s')
  moreover have "logic_events s s' = [Finish n]" by (simp add: logic_events_def s')
  ultimately show ?thesis by (simp add: logic_simulated_def)
qed

lemma deal_step_service:
  assumes "deal_step s = Some (Inr s')"
  shows "logic_simulated s s'"
proof (cases "lr_worker s")
  case Deal_Pop
  with assms take_node_service [of Deal_Call s s'] show ?thesis by (simp add: deal_step_def)
next
  case (Deal_Call n)
  with assms deal_node_service [of n Deal_Lock s s'] show ?thesis by (simp add: deal_step_def)
next
  case Drain_Test
  with assms take_node_service [of Drain_Call s s'] show ?thesis
    by (auto simp: deal_step_def intro!: logic_silent split: if_splits)
next
  case (Drain_Call n)
  with assms deal_node_service [of n Drain_Lock s s'] show ?thesis by (simp add: deal_step_def)
qed (use assms in \<open>auto simp: deal_step_def deal_lock_def intro!: logic_silent split: if_splits\<close>)

lemma post_step_service:
  assumes "post_step i s = Some s'"
  shows "logic_simulated s s'"
proof (cases "lr_posters s ! i")
  case (Post_Push n)
  with assms have s': "s' = set_que (push_back n (ls_msg_que (lr_sys s))) (goto_post i Post_Notify (s\<lparr>lr_posted := lr_posted s @ [n]\<rparr>))"
    by (simp add: post_step_def)
  have "service_step 1 None (\<lambda>_. False) (logic_service s) (Submit n) (logic_service s\<lparr>sv_pending := sv_pending (logic_service s) @ [n]\<rparr>)"
    by (rule service_step.submit) simp
  moreover have "logic_service s' = logic_service s\<lparr>sv_pending := sv_pending (logic_service s) @ [n]\<rparr>"
    by (simp add: logic_service_def s' push_back_def)
  moreover have "logic_events s s' = [Submit n]" by (simp add: logic_events_def s')
  ultimately show ?thesis by (simp add: logic_simulated_def)
qed (use assms in \<open>auto simp: post_step_def notify_one_in_hand intro!: logic_silent split: if_splits\<close>)

lemma dtor_step_service: "dtor_step s = Some s' \<Longrightarrow> logic_simulated s s'"
  by (cases "lr_dtor s") (auto simp: dtor_step_def notify_one_in_hand intro!: logic_silent split: if_splits)

interpretation logic_sim: simulation spurious_step logic_events logic_inv logic_service "service_step 1 None (\<lambda>_. False)"
proof unfold_locales
  fix c c'
  show "logic_inv c'" if "logic_inv c" "spurious_step c c'" using that spurious_step_inv by blast
  have "logic_simulated c c'" if "spurious_step c c'"
    using that
  proof (cases rule: spurious_step.cases)
    case program
    then show ?thesis
    proof (cases rule: logic_step.cases)
      case (call i n)
      then show ?thesis by (auto intro!: logic_silent)
    qed (use deal_step_service post_step_service dtor_step_service in blast)+
  next
    case spurious
    then show ?thesis by (auto intro!: logic_silent)
  qed
  then show "logic_events c c' = [] \<and> logic_service c' = logic_service c \<or>
      (\<exists>e. logic_events c c' = [e] \<and> service_step 1 None (\<lambda>_. False) (logic_service c) e (logic_service c'))"
    if "logic_inv c" "spurious_step c c'" using that(2) unfolding logic_simulated_def by blast
qed

section \<open>The thread pool\<close>

fun serving :: "'a pc \<Rightarrow> 'a option list" where
  "serving (Run_Unlock (Some r)) = [Some r]"
| "serving (Run_Process r) = [Some r]"
| "serving _ = []"

definition pool_service :: "'a pool_run \<Rightarrow> 'a option service" where
  "pool_service s = \<lparr>sv_pending = m_workqueue (pool s), sv_running = mset (concat (map serving (pcs s)))\<rparr>"

definition pool_events :: "'a pool_run \<Rightarrow> 'a pool_run \<Rightarrow> 'a option service_event list" where
  "pool_events s s' = map Submit (drop (length (appended s)) (appended s')) @
     map Start (drop (length (taken s)) (taken s')) @ map (\<lambda>r. Finish (Some r)) (drop (length (processed s)) (processed s'))"

text \<open>Only the first \<open>w\<close> threads are workers.\<close>

definition workers_inv :: "nat \<Rightarrow> 'a pool_run \<Rightarrow> bool" where
  "workers_inv w s \<longleftrightarrow> pool_inv s \<and> (\<forall>t < length (pcs s). w \<le> t \<longrightarrow> \<not> in_run (pcs s ! t))"

lemma mset_serving_update:
  assumes "t < length xs"
  shows "mset (concat (map serving (xs[t := l]))) + mset (serving (xs ! t)) = mset (concat (map serving xs)) + mset (serving l)"
  using assms
proof (induction xs arbitrary: t)
  case (Cons x xs)
  then show ?case by (cases t) (auto simp: ac_simps)
qed simp

lemma serving_in_run: "\<not> in_run l \<Longrightarrow> serving l = []"
  by (cases l) simp_all

lemma length_serving: "length (serving l) \<le> (if in_run l then 1 else 0)"
  by (cases l rule: serving.cases) simp_all

lemma length_serving_le: "length (concat (map serving xs)) \<le> count_if in_run xs"
proof (induction xs)
  case (Cons x xs)
  then show ?case using length_serving [of x] by (simp split: if_splits)
qed simp

lemma in_run_update_lt:
  assumes "t < length xs" and "in_run (xs ! t)" and "serving (xs ! t) = []"
  shows "length (concat (map serving xs)) < count_if in_run xs"
  using assms
proof (induction xs arbitrary: t)
  case (Cons x xs)
  then show ?case
  proof (cases t)
    case 0
    with Cons.prems length_serving_le [of xs] show ?thesis by simp
  next
    case (Suc u)
    with Cons have "length (concat (map serving xs)) < count_if in_run xs" by simp
    then show ?thesis using length_serving [of x] by (simp split: if_splits)
  qed
qed simp

lemma count_in_run_workers:
  assumes "\<forall>t < length xs. w \<le> t \<longrightarrow> \<not> in_run (xs ! t)"
  shows "count_if in_run xs \<le> w"
proof -
  have "count_if in_run (drop w xs) = 0"
    using assms by (auto simp: count_if_def filter_empty_conv in_set_conv_nth)
  moreover have "count_if in_run (take w xs) \<le> w"
    by (metis count_if_def length_filter_le length_take min.cobounded2 order.trans)
  ultimately show ?thesis using count_if_simps(3) [of in_run "take w xs" "drop w xs"] by simp
qed

lemma workers_inv_step:
  assumes "workers_inv w s" and "pool_step s s'"
  shows "workers_inv w s'"
proof -
  from assms have inv: "pool_inv s'" using pool_inv_step by (auto simp: workers_inv_def)
  have out: "\<not> in_run (pcs s ! t)" if "t < length (pcs s)" "w \<le> t" for t using that assms(1) by (simp add: workers_inv_def)
  from assms(2) obtain t where t: "t < length (pcs s)" "pcs s' = (pcs s)[t := pcs s' ! t]" "in_run (pcs s' ! t) \<Longrightarrow> in_run (pcs s ! t)"
  proof (cases rule: pool_step.cases)
    case (call t r)
    then show thesis by (intro that [of t]) simp_all
  next
    case (append t)
    then have "pcs s' = (pcs s)[t := pcs s' ! t]" "\<not> in_run (pcs s' ! t)"
      by (cases "pcs s ! t"; auto simp: append_step_def split: option.splits if_splits)+
    with append(1) show thesis by (intro that [of t]) simp_all
  next
    case (run t)
    then have "pcs s' = (pcs s)[t := pcs s' ! t]" "in_run (pcs s ! t)"
      by (cases "pcs s ! t"; auto simp: run_step_def bindr_eq_Inr split: option.splits if_splits)+
    with run(1) show thesis by (intro that [of t]) simp_all
  qed
  have "\<not> in_run (pcs s' ! u)" if "u < length (pcs s)" "w \<le> u" for u
    using that out t by (cases "u = t") (auto, metis nth_list_update_neq)
  moreover have "length (pcs s') = length (pcs s)" by (subst t(2)) simp
  ultimately show ?thesis using inv by (simp add: workers_inv_def)
qed

definition pool_simulated :: "nat \<Rightarrow> nat \<Rightarrow> 'a pool_run \<Rightarrow> 'a pool_run \<Rightarrow> bool" where
  "pool_simulated w c s s' \<longleftrightarrow> pool_events s s' = [] \<and> pool_service s' = pool_service s \<or>
     (\<exists>e. pool_events s s' = [e] \<and> service_step w (Some c) (\<lambda>m. m = None) (pool_service s) e (pool_service s'))"

lemma pool_silent:
  assumes "t < length (pcs s)" and "pcs s' = (pcs s)[t := l]" and "serving l = serving (pcs s ! t)"
    and "m_workqueue (pool s') = m_workqueue (pool s)" and "appended s' = appended s" and "taken s' = taken s" and "processed s' = processed s"
  shows "pool_simulated w c s s'"
  using assms mset_serving_update [OF assms(1), of l] by (simp add: pool_simulated_def pool_service_def pool_events_def)

lemma append_step_service:
  assumes "workers_inv w s" and "nat (m_maxrequestnum (pool s)) = c" and "t < length (pcs s)" and "append_step t (pcs s ! t) s = Some s'"
  shows "pool_simulated w c s s'"
proof (cases "\<exists>r. pcs s ! t = Append_Push r")
  case True
  then obtain r where r: "pcs s ! t = Append_Push r" by blast
  with assms(4) have s': "s' = goto t Append_Unlock (s\<lparr>pool := (pool s)\<lparr>m_workqueue := push_back r (m_workqueue (pool s))\<rparr>,
      appended := appended s @ [r]\<rparr>)" by (simp add: append_step_def)
  have b: "bound_inv s" "seen_inv s" using assms(1) pool_invD(5,7) by (auto simp: workers_inv_def)
  then have "\<not> queue_full (pool s)" using assms(3) r by (auto simp: seen_inv_def)
  then have "length (m_workqueue (pool s)) \<le> c" using queue_full_iff [OF b(1)] assms(2) by simp
  then have "service_step w (Some c) (\<lambda>m. m = None) (pool_service s) (Submit r) (pool_service s\<lparr>sv_pending := sv_pending (pool_service s) @ [r]\<rparr>)"
    by (intro service_step.submit) (simp add: pool_service_def)
  moreover have "pool_service s' = pool_service s\<lparr>sv_pending := sv_pending (pool_service s) @ [r]\<rparr>"
    using mset_serving_update [OF assms(3), of Append_Unlock] r by (simp add: pool_service_def s' push_back_def)
  moreover have "pool_events s s' = [Submit r]" by (simp add: pool_events_def s')
  ultimately show ?thesis by (simp add: pool_simulated_def)
next
  case False
  with assms(4) have "pcs s' = (pcs s)[t := pcs s' ! t]" "serving (pcs s' ! t) = serving (pcs s ! t)"
    "m_workqueue (pool s') = m_workqueue (pool s)" "appended s' = appended s" "taken s' = taken s" "processed s' = processed s"
    by (cases "pcs s ! t"; use assms(3) in \<open>auto simp: append_step_def sync_defs split: option.splits if_splits\<close>)+
  with pool_silent [OF assms(3)] show ?thesis by blast
qed

lemma run_step_service:
  assumes "workers_inv w s" and "t < length (pcs s)" and "run_step t (pcs s ! t) s = Some (Inr s')"
  shows "pool_simulated w c s s'"
proof -
  note up = mset_serving_update [OF assms(2)]
  consider (start) m where "pcs s ! t = Run_Pop m" | (processed) r where "pcs s ! t = Run_Process r"
    | (same) "\<forall>m. pcs s ! t \<noteq> Run_Pop m" "\<forall>r. pcs s ! t \<noteq> Run_Process r" by blast
  then show ?thesis
  proof cases
    case start
    have "seen (pool s) (pcs s ! t)" using assms(1,2) pool_invD(7) by (auto simp: workers_inv_def seen_inv_def)
    then obtain q where q: "m_workqueue (pool s) = m # q" using start by auto
    with assms(3) start have s': "s' = goto t (Run_Unlock m) (s\<lparr>pool := (pool s)\<lparr>m_workqueue := q\<rparr>, taken := taken s @ [m]\<rparr>)"
      by (simp add: run_step_def queue_defs)
    have lt: "size (sv_running (pool_service s)) < w"
      using in_run_update_lt [OF assms(2)] start(1) count_in_run_workers [of "pcs s" w] assms(1)
      by (simp add: pool_service_def workers_inv_def del: size_mset) (simp add: size_mset)
    have "service_step w (Some c) (\<lambda>m. m = None) (pool_service s) (Start m)
        (pool_service s\<lparr>sv_pending := q, sv_running := (if m = None then {#} else {#m#}) + sv_running (pool_service s)\<rparr>)"
      by (rule service_step.start [OF _ lt]) (simp add: pool_service_def q)
    moreover have "pool_service s' = pool_service s\<lparr>sv_pending := q, sv_running := (if m = None then {#} else {#m#}) + sv_running (pool_service s)\<rparr>"
      using up [of "Run_Unlock m"] start(1) by (cases m) (simp_all add: pool_service_def s')
    moreover have "pool_events s s' = [Start m]" by (simp add: pool_events_def s')
    ultimately show ?thesis by (simp add: pool_simulated_def)
  next
    case processed
    with assms(3) have s': "s' = goto t Run_Test (s\<lparr>processed := processed s @ [r]\<rparr>)" by (simp add: run_step_def)
    have eq: "mset (concat (map serving (pcs s))) = add_mset (Some r) (mset (concat (map serving ((pcs s)[t := Run_Test]))))"
      using up [of Run_Test] processed by simp
    have "service_step w (Some c) (\<lambda>m. m = None) (pool_service s) (Finish (Some r))
        (pool_service s\<lparr>sv_running := sv_running (pool_service s) - {#Some r#}\<rparr>)"
      by (rule service_step.finish) (simp add: pool_service_def eq)
    moreover have "pool_service s' = pool_service s\<lparr>sv_running := sv_running (pool_service s) - {#Some r#}\<rparr>"
      by (simp add: pool_service_def s' eq)
    moreover have "pool_events s s' = [Finish (Some r)]" by (simp add: pool_events_def s')
    ultimately show ?thesis by (simp add: pool_simulated_def)
  next
    case same
    with assms(3) have "pcs s' = (pcs s)[t := pcs s' ! t]" "serving (pcs s' ! t) = serving (pcs s ! t)"
      "m_workqueue (pool s') = m_workqueue (pool s)" "appended s' = appended s" "taken s' = taken s" "processed s' = processed s"
      by (cases "pcs s ! t"; use assms(2) in \<open>auto simp: run_step_def sync_defs bindr_eq_Inr split: option.splits if_splits\<close>)+
    with pool_silent [OF assms(2)] show ?thesis by blast
  qed
qed

lemma pool_step_max:
  assumes "pool_step s s'"
  shows "m_maxrequestnum (pool s') = m_maxrequestnum (pool s)"
  using assms
proof (cases rule: pool_step.cases)
  case (append t)
  then show ?thesis by (cases "pcs s ! t") (auto simp: append_step_def sync_defs split: option.splits if_splits)
next
  case (run t)
  then show ?thesis by (cases "pcs s ! t") (auto simp: run_step_def sync_defs bindr_eq_Inr split: option.splits if_splits)
qed simp

definition bounded_inv :: "nat \<Rightarrow> nat \<Rightarrow> 'a pool_run \<Rightarrow> bool" where
  "bounded_inv w c s \<longleftrightarrow> workers_inv w s \<and> nat (m_maxrequestnum (pool s)) = c"

interpretation pool_sim: simulation pool_step pool_events "bounded_inv w c" pool_service "service_step w (Some c) (\<lambda>m. m = None)" for w c
proof unfold_locales
  fix s s' :: "'a pool_run"
  show "bounded_inv w c s'" if "bounded_inv w c s" "pool_step s s'"
    using that workers_inv_step [of w s s'] pool_step_max [of s s'] by (simp add: bounded_inv_def)
  show "pool_events s s' = [] \<and> pool_service s' = pool_service s \<or>
      (\<exists>e. pool_events s s' = [e] \<and> service_step w (Some c) (\<lambda>m. m = None) (pool_service s) e (pool_service s'))"
    if inv: "bounded_inv w c s" and st: "pool_step s s'"
  proof -
    have w: "workers_inv w s" and c: "nat (m_maxrequestnum (pool s)) = c" using inv by (simp_all add: bounded_inv_def)
    from st have "pool_simulated w c s s'"
    proof (cases rule: pool_step.cases)
      case (call t r)
      show ?thesis by (rule pool_silent [OF call(2), of s' "Append_Lock r"]) (simp_all add: call)
    next
      case (append t)
      from append_step_service [OF w c append] show ?thesis .
    next
      case (run t)
      from run_step_service [OF w run] show ?thesis .
    qed
    then show ?thesis unfolding pool_simulated_def .
  qed
qed

lemma bounded_inv_start:
  assumes "threadpool_ctor create detach n m = Inr p" and "m < 2 ^ 31"
  shows "bounded_inv w (nat m) (pool_start w k p)" and "pool_service (pool_start w k p) = service_start"
proof -
  have p: "m_maxrequestnum p = m" "m_workqueue p = []"
    using assms(1) by (auto simp: threadpool_ctor_def split: if_splits sum.splits)
  have "\<forall>t < w + k. w \<le> t \<longrightarrow> \<not> in_run ((replicate w Run_Test @ replicate k Idle) ! t)" by (simp add: nth_append)
  with pool_inv_start [OF assms] p show "bounded_inv w (nat m) (pool_start w k p)"
    by (simp add: bounded_inv_def workers_inv_def pool_start_def)
  show "pool_service (pool_start w k p) = service_start"
    using p by (simp add: pool_service_def pool_start_def service_start_def)
qed

section \<open>Properties\<close>

text \<open>
  C16. The logic layer refines the abstract service with one server and no limit: whatever sequence
  of posts, takes and finished callbacks the posting threads, the worker, the destructor and
  spurious wakeups produce, the service can produce the same sequence. Hence messages are started
  in the order of the posts, none twice and none left out, and each is finished before
  the next is started.
\<close>

theorem logic_refines_service:
  assumes "shows_trace spurious_step logic_events (logic_start js n ss) tr s"
  shows "trace (service_step 1 None (\<lambda>_. False)) service_start tr (logic_service s) \<and>
     submits tr = starts tr @ ls_msg_que (lr_sys s) \<and> mset (starts tr) = mset (finishes tr) + mset (in_hand (lr_worker s)) \<and>
     length (starts tr) \<le> Suc (length (finishes tr))"
proof -
  have "logic_service (logic_start js n ss) = service_start"
    by (simp add: logic_service_def logic_start_def LogicSystem_ctor_def service_start_def)
  with logic_sim.trace_sim [OF assms logic_inv_start] have tr: "trace (service_step 1 None (\<lambda>_. False)) service_start tr (logic_service s)" by simp
  from service_ok_trace [OF this] have ok: "submits tr = starts tr @ ls_msg_que (lr_sys s)"
    "mset (starts tr) = mset (finishes tr) + mset (in_hand (lr_worker s))" "length (in_hand (lr_worker s)) \<le> 1"
    by (simp_all add: service_ok_def logic_service_def)
  from arg_cong [OF ok(2), of size] ok(3) have "length (starts tr) \<le> Suc (length (finishes tr))" by simp
  with tr ok show ?thesis by blast
qed

theorem logic_refines_service_witness:
  "\<exists>s n tr. shows_trace spurious_step logic_events (logic_start example_json 1 tlv_Session) tr s \<and>
     submits tr = starts tr @ [n] \<and> mset (starts tr) = mset (finishes tr) \<and>
     trace (service_step 1 None (\<lambda>_. False)) service_start tr (logic_service s)"
proof -
  define n where "n = \<lparr>ln_session = ''u'', ln_recvnode = tlv_message 7 ''a''\<rparr>"
  define s0 where "s0 = logic_start example_json 1 tlv_Session"
  define s1 where "s1 = goto_post 0 (Post_Lock n) s0"
  define s2 where "s2 = set_mutex (Some (Poster 0)) (goto_post 0 (Post_Push n) s1)"
  define s3 where "s3 = set_que [n] (goto_post 0 Post_Notify (s2\<lparr>lr_posted := [n]\<rparr>))"
  have r: "spurious_step\<^sup>*\<^sup>* s0 s3" unfolding s3_def s2_def s1_def s0_def by (rule post_run)
  from shows_trace_exists [OF r, of logic_events] obtain tr where tr: "shows_trace spurious_step logic_events s0 tr s3" by blast
  have s3: "ls_msg_que (lr_sys s3) = [n]" "in_hand (lr_worker s3) = []"
    by (simp_all add: s3_def s2_def s1_def s0_def logic_start_def)
  from logic_refines_service [OF tr [unfolded s0_def]] tr s3 show ?thesis unfolding s0_def by auto
qed

text \<open>
  C8. The thread pool refines the abstract service with one server per worker and the limit it
  was constructed with, null requests being dropped: whatever sequence of appended, taken and
  processed requests the interleaving of workers and appending threads produces, the service can
  produce the same sequence. Hence requests are taken in the order in which they were appended,
  each once, every one that was taken is processed once or in work, never more
  are in work than there are workers, and never more than the limit and one wait.
\<close>

theorem pool_refines_service:
  assumes "threadpool_ctor create detach n m = Inr p" and "m < 2 ^ 31" and "shows_trace pool_step pool_events (pool_start w k p) tr s"
  shows "trace (service_step w (Some (nat m)) (\<lambda>r. r = None)) service_start tr (pool_service s) \<and>
     service_ok w (Some (nat m)) (\<lambda>r. r = None) tr (pool_service s)"
proof -
  have "trace (service_step w (Some (nat m)) (\<lambda>r. r = None)) service_start tr (pool_service s)"
    using pool_sim.trace_sim [OF assms(3) bounded_inv_start(1) [OF assms(1,2)]] bounded_inv_start(2) [OF assms(1,2), of w k] by simp
  then show ?thesis using service_ok_trace by blast
qed

theorem pool_refines_service_witness:
  "\<exists>tr. shows_trace pool_step pool_events (pool_start 2 1 sample_pool) tr sample_run \<and>
     submits tr = starts tr @ [Some 7, Some 8] \<and> trace (service_step 2 (Some 1) (\<lambda>r. r = None)) service_start tr (pool_service sample_run)"
proof -
  obtain tr where tr: "shows_trace pool_step pool_events (pool_start 2 1 sample_pool) tr sample_run"
    using shows_trace_exists [OF sample_run_reachable] by blast
  with pool_refines_service [OF sample_pool_ctor _ tr] show ?thesis
    by (intro exI [of _ tr]) (simp add: service_ok_def pool_service_def sample_run_def)
qed

end
