(* ===== verification/Asio_Examples.thy ===== *)
theory Asio_Examples
  imports Prelude
begin

text \<open>
  The synchronous examples (\<open>2. AsyncServer/src/apiexample.cpp\<close>): making endpoints, opening, binding
  and connecting sockets, and sending and receiving with \<open>write_some\<close>, \<open>send\<close>, \<open>write\<close>, \<open>read_some\<close>,
  \<open>receive\<close> and \<open>read\<close>. Asio is an argument: a record of what its calls return. A call
  that takes an \<open>error_code\<close> returns its value, 0 for none; a call that throws
  \<open>system_error\<close> returns \<open>Inl\<close> of the code. Each example is a function to the value it
  returns to its caller.
\<close>

section \<open>The library\<close>

datatype protocol = V4 | V6

record 'a endpoint =
  ep_address :: 'a
  ep_port :: "16 word"

record 'a asio_lib =
  lib_from_string :: "string \<Rightarrow> 'a \<times> int"
  lib_any_v4 :: 'a
  lib_any_v6 :: 'a
  lib_protocol :: "'a \<Rightarrow> protocol"
  lib_open :: "protocol \<Rightarrow> int"
  lib_bind :: "'a endpoint \<Rightarrow> int"
  lib_listen :: "int \<Rightarrow> int"
  lib_accept :: int
  lib_connect :: "'a endpoint \<Rightarrow> int"
  lib_resolve :: "string \<Rightarrow> string \<Rightarrow> int + 'a endpoint list"
  lib_connect_any :: "'a endpoint list \<Rightarrow> int"
  lib_write_some :: "nat \<Rightarrow> nat \<Rightarrow> int + nat"
  lib_send :: "nat \<Rightarrow> int + nat"
  lib_write :: "nat \<Rightarrow> int + nat"
  lib_read_some :: "nat \<Rightarrow> nat \<Rightarrow> int + char list"
  lib_receive :: "nat \<Rightarrow> int + char list"
  lib_read :: "nat \<Rightarrow> int + char list"

text \<open>Calls that throw, in sequence.\<close>

definition thrown :: "int \<Rightarrow> int + unit" where
  "thrown ec = (if ec \<noteq> 0 then Inl ec else Inr ())"

definition bindx :: "int + 'a \<Rightarrow> ('a \<Rightarrow> int + 'b) \<Rightarrow> int + 'b" where
  "bindx r f = (case r of Inl ec \<Rightarrow> Inl ec | Inr x \<Rightarrow> f x)"

lemma bindx_simps [simp]: "bindx (Inl ec) f = Inl ec" "bindx (Inr x) f = f x"
  by (simp_all add: bindx_def)

lemma thrown_simps [simp]: "thrown 0 = Inr ()" "ec \<noteq> 0 \<Longrightarrow> thrown ec = Inl ec"
  by (simp_all add: thrown_def)

text \<open>
  How an example ends: it returns a value, or it reaches the end of its body without a
  \<open>return\<close> statement, after which C++ gives the program no meaning.
\<close>

datatype ending = Returned int | Fell_Off_End

text \<open>The handler of \<open>system_error\<close>; \<open>next\<close> is what follows the \<open>try\<close> block.\<close>

definition catch_system_error :: "int + ending option \<Rightarrow> ending \<Rightarrow> ending" where
  "catch_system_error body next =
     (case body of Inl ec \<Rightarrow> Returned ec | Inr (Some e) \<Rightarrow> e | Inr None \<Rightarrow> next)"

section \<open>Endpoints and sockets\<close>

definition client_end_point :: "'a asio_lib \<Rightarrow> ending" where
  "client_end_point lib =
     (let (ip_address, ec) = lib_from_string lib ''127.0.0.1'' in
      if ec \<noteq> 0 then Returned ec
      else (let ep = \<lparr>ep_address = ip_address, ep_port = 3333\<rparr> in Returned 0))"

definition server_end_point :: "'a asio_lib \<Rightarrow> ending" where
  "server_end_point lib = (let ep = \<lparr>ep_address = lib_any_v6 lib, ep_port = 3333\<rparr> in Returned 0)"

definition create_tcp_socket :: "'a asio_lib \<Rightarrow> ending" where
  "create_tcp_socket lib = (let ec = lib_open lib V4 in if ec \<noteq> 0 then Returned ec else Returned 0)"

definition create_acceptor_socket :: "'a asio_lib \<Rightarrow> ending" where
  "create_acceptor_socket lib = (let ec = lib_open lib V4 in if ec \<noteq> 0 then Returned ec else Returned 0)"

text \<open>The constructor that is given a protocol opens the socket, and throws outside any \<open>try\<close> block.\<close>

definition bind_acceptor_socket :: "'a asio_lib \<Rightarrow> int + ending" where
  "bind_acceptor_socket lib =
     (let ep = \<lparr>ep_address = lib_any_v4 lib, ep_port = 3333\<rparr> in
      bindx (thrown (lib_open lib (lib_protocol lib (ep_address ep)))) (\<lambda>_.
      let ec = lib_bind lib ep in
      Inr (if ec \<noteq> 0 then Returned ec else Returned 0)))"

text \<open>The statements all clients begin with: endpoint, socket, \<open>connect\<close>.\<close>

definition connected :: "'a asio_lib \<Rightarrow> string \<Rightarrow> 16 word \<Rightarrow> int + unit" where
  "connected lib raw_ip_address port_num =
     (let (ip, ec) = lib_from_string lib raw_ip_address in
      bindx (thrown ec) (\<lambda>_.
      let ep = \<lparr>ep_address = ip, ep_port = port_num\<rparr> in
      bindx (thrown (lib_open lib (lib_protocol lib (ep_address ep)))) (\<lambda>_.
      thrown (lib_connect lib ep))))"

definition connect_to_end :: "'a asio_lib \<Rightarrow> ending" where
  "connect_to_end lib =
     catch_system_error (bindx (connected lib ''192.168.1.124'' 3333) (\<lambda>_. Inr None)) (Returned 0)"

definition dns_connect_end :: "'a asio_lib \<Rightarrow> ending" where
  "dns_connect_end lib =
     catch_system_error
       (bindx (lib_resolve lib ''www.baidu.com'' ''3333'') (\<lambda>it.
        bindx (thrown (lib_connect_any lib it)) (\<lambda>_. Inr None))) (Returned 0)"

definition accept_new_connection :: "'a asio_lib \<Rightarrow> ending" where
  "accept_new_connection lib =
     (let ep = \<lparr>ep_address = lib_any_v4 lib, ep_port = 3333\<rparr> in
      catch_system_error
        (bindx (thrown (lib_open lib (lib_protocol lib (ep_address ep)))) (\<lambda>_.
         bindx (thrown (lib_bind lib ep)) (\<lambda>_.
         bindx (thrown (lib_listen lib 30)) (\<lambda>_.
         bindx (thrown (lib_accept lib)) (\<lambda>_. Inr None))))) (Returned 0))"

section \<open>Sending\<close>

text \<open>
  The loop of \<open>write_to_socket\<close>: the i-th call of \<open>write_some\<close> is given the bytes that are left and
  says how many it has taken. The loop may not end, where every call takes nothing; the
  result has the bytes the socket has taken.
\<close>

partial_function (option) write_some_loop ::
  "(nat \<Rightarrow> nat \<Rightarrow> int + nat) \<Rightarrow> char list \<Rightarrow> nat \<Rightarrow> nat \<Rightarrow> char list \<Rightarrow> (int option \<times> char list) option" where
  "write_some_loop write_some buf i total_bytes_written sent =
     (if total_bytes_written \<noteq> length buf then
        (case write_some i (length buf - total_bytes_written) of
           Inl ec \<Rightarrow> Some (Some ec, sent)
         | Inr n \<Rightarrow> write_some_loop write_some buf (Suc i) (total_bytes_written + n) (sent @ take n (drop total_bytes_written buf)))
      else Some (None, sent))"

definition hello_world :: string where "hello_world = ''hello world''"

definition write_to_socket :: "'a asio_lib \<Rightarrow> (int option \<times> char list) option" where
  "write_to_socket lib = write_some_loop (lib_write_some lib) hello_world 0 0 []"

definition send_data_by_write_some :: "'a asio_lib \<Rightarrow> (ending \<times> char list) option" where
  "send_data_by_write_some lib =
     (case connected lib ''192.168.3.11'' 3333 of
        Inl ec \<Rightarrow> Some (catch_system_error (Inl ec) (Returned 0), [])
      | Inr _ \<Rightarrow>
          map_option (\<lambda>(r, sent).
            (catch_system_error (case r of Some ec \<Rightarrow> Inl ec | None \<Rightarrow> Inr None) (Returned 0), sent)) (write_to_socket lib))"

definition send_data_by_send :: "'a asio_lib \<Rightarrow> ending" where
  "send_data_by_send lib =
     catch_system_error
       (bindx (connected lib ''192.168.3.11'' 3333) (\<lambda>_.
        bindx (lib_send lib (length hello_world)) (\<lambda>n.
        let sendlength = to_int32 (int n) in
        Inr (if sendlength \<le> 0 then Some (Returned 0) else None)))) (Returned 0)"

definition send_data_by_write :: "'a asio_lib \<Rightarrow> ending" where
  "send_data_by_write lib =
     catch_system_error
       (bindx (connected lib ''192.168.3.11'' 3333) (\<lambda>_.
        bindx (lib_write lib (length hello_world)) (\<lambda>n.
        let sendlength = to_int32 (int n) in
        Inr (if sendlength \<le> 0 then Some (Returned 0) else None)))) (Returned 0)"

section \<open>Receiving\<close>

definition MESSAGE_SIZE :: nat where "MESSAGE_SIZE = 7"

text \<open>The loop of \<open>read_from_socket\<close>: the i-th call delivers bytes for the part of \<open>buf\<close> that is not filled yet.\<close>

partial_function (option) read_some_loop ::
  "(nat \<Rightarrow> nat \<Rightarrow> int + char list) \<Rightarrow> nat \<Rightarrow> char list \<Rightarrow> (int + char list) option" where
  "read_some_loop read_some i buf =
     (if length buf \<noteq> MESSAGE_SIZE then
        (case read_some i (MESSAGE_SIZE - length buf) of
           Inl ec \<Rightarrow> Some (Inl ec)
         | Inr bs \<Rightarrow> read_some_loop read_some (Suc i) (buf @ bs))
      else Some (Inr buf))"

definition read_from_socket :: "'a asio_lib \<Rightarrow> (int + char list) option" where
  "read_from_socket lib = read_some_loop (lib_read_some lib) 0 []"

definition read_data_by_read_some :: "'a asio_lib \<Rightarrow> ending option" where
  "read_data_by_read_some lib =
     (case connected lib ''192.168.3.11'' 3333 of
        Inl ec \<Rightarrow> Some (Returned ec)
      | Inr _ \<Rightarrow>
          map_option (\<lambda>r. catch_system_error (bindx r (\<lambda>result. Inr None)) Fell_Off_End) (read_from_socket lib))"

definition read_data_by_receive :: "'a asio_lib \<Rightarrow> ending" where
  "read_data_by_receive lib =
     catch_system_error
       (bindx (connected lib ''192.168.3.11'' 3333) (\<lambda>_.
        bindx (lib_receive lib MESSAGE_SIZE) (\<lambda>bs.
        let receive_length = to_int32 (int (length bs)) in
        Inr (if receive_length \<le> 0 then Some (Returned 0) else None)))) Fell_Off_End"

definition read_data_by_read :: "'a asio_lib \<Rightarrow> ending" where
  "read_data_by_read lib =
     catch_system_error
       (bindx (connected lib ''192.168.3.11'' 3333) (\<lambda>_.
        bindx (lib_read lib MESSAGE_SIZE) (\<lambda>bs.
        let receive_length = to_int32 (int (length bs)) in
        Inr (if receive_length \<le> 0 then Some (Returned 0) else None)))) Fell_Off_End"

section \<open>The loops\<close>

text \<open>What asio documents of \<open>write_some\<close> and \<open>read_some\<close>: a call that does not throw transfers at least one byte, and no more than it was given; the code it throws is not 0.\<close>

definition write_some_ok :: "(nat \<Rightarrow> nat \<Rightarrow> int + nat) \<Rightarrow> bool" where
  "write_some_ok ws \<longleftrightarrow> (\<forall>i len n. 0 < len \<longrightarrow> ws i len = Inr n \<longrightarrow> 0 < n \<and> n \<le> len) \<and> (\<forall>i len ec. ws i len = Inl ec \<longrightarrow> ec \<noteq> 0)"

definition read_some_ok :: "(nat \<Rightarrow> nat \<Rightarrow> int + char list) \<Rightarrow> bool" where
  "read_some_ok rs \<longleftrightarrow> (\<forall>i len bs. 0 < len \<longrightarrow> rs i len = Inr bs \<longrightarrow> 0 < length bs \<and> length bs \<le> len) \<and>
     (\<forall>i len ec. rs i len = Inl ec \<longrightarrow> ec \<noteq> 0)"

lemma write_some_loop_result:
  assumes "write_some_ok ws" and "t \<le> length buf"
  shows "\<exists>r out. write_some_loop ws buf i t (take t buf) = Some (r, out) \<and>
     (case r of None \<Rightarrow> out = buf | Some ec \<Rightarrow> (\<exists>k < length buf. out = take k buf \<and> (\<exists>j. ws j (length buf - k) = Inl ec)))"
  using assms
proof (induction "length buf - t" arbitrary: t i rule: less_induct)
  case less
  show ?case
  proof (cases "t = length buf")
    case True
    then show ?thesis by (subst write_some_loop.simps) auto
  next
    case False
    with less.prems have pos: "0 < length buf - t" by simp
    show ?thesis
    proof (cases "ws i (length buf - t)")
      case (Inl ec)
      have "write_some_loop ws buf i t (take t buf) = Some (Some ec, take t buf)"
        by (subst write_some_loop.simps) (simp add: False Inl)
      moreover have "t < length buf" using pos by simp
      ultimately show ?thesis using Inl by (intro exI [of _ "Some ec"] exI [of _ "take t buf"]) auto
    next
      case (Inr n)
      with less.prems(1) pos have n: "0 < n" "n \<le> length buf - t" unfolding write_some_ok_def by blast+
      have tk: "take t buf @ take n (drop t buf) = take (t + n) buf" by (simp add: take_add)
      have "write_some_loop ws buf i t (take t buf) = write_some_loop ws buf (Suc i) (t + n) (take (t + n) buf)"
        by (subst write_some_loop.simps) (simp add: False Inr tk)
      with less.hyps [of "t + n" "Suc i"] less.prems n pos show ?thesis by simp
    qed
  qed
qed

lemma read_some_loop_result:
  assumes "read_some_ok rs" and "length buf \<le> MESSAGE_SIZE"
  shows "(\<exists>out. read_some_loop rs i buf = Some (Inr out) \<and> length out = MESSAGE_SIZE \<and> take (length buf) out = buf) \<or>
     (\<exists>ec j len. read_some_loop rs i buf = Some (Inl ec) \<and> rs j len = Inl ec)"
  using assms
proof (induction "MESSAGE_SIZE - length buf" arbitrary: buf i rule: less_induct)
  case less
  show ?case
  proof (cases "length buf = MESSAGE_SIZE")
    case True
    then show ?thesis by (subst (1) read_some_loop.simps) simp
  next
    case False
    with less.prems have pos: "0 < MESSAGE_SIZE - length buf" by simp
    show ?thesis
    proof (cases "rs i (MESSAGE_SIZE - length buf)")
      case (Inl ec)
      then have "read_some_loop rs i buf = Some (Inl ec)" by (subst read_some_loop.simps) (simp add: False)
      with Inl show ?thesis by blast
    next
      case (Inr bs)
      with less.prems(1) pos have b: "0 < length bs" "length bs \<le> MESSAGE_SIZE - length buf" unfolding read_some_ok_def by blast+
      have eq: "read_some_loop rs i buf = read_some_loop rs (Suc i) (buf @ bs)" by (subst read_some_loop.simps) (simp add: False Inr)
      have t: "take (length buf) out = buf" if "take (length (buf @ bs)) out = buf @ bs" for out
        using arg_cong [OF that, of "take (length buf)"] by (simp add: min_def)
      have p: "MESSAGE_SIZE - length (buf @ bs) < MESSAGE_SIZE - length buf" "length (buf @ bs) \<le> MESSAGE_SIZE"
        unfolding length_append using b pos less.prems(2) by linarith+
      from less.hyps [OF p(1) less.prems(1) p(2), of "Suc i"] t show ?thesis unfolding eq by blast
    qed
  qed
qed

section \<open>Properties\<close>

text \<open>
  C27. Sending with \<open>write_some\<close>: the loop ends, whatever part of the rest each call takes; the example
  returns 0 exactly when the peer was sent the whole text, and otherwise the code, which is not 0, of
  the call that failed: connecting, before anything was sent, or the \<open>write_some\<close> that was given
  the rest after a proper prefix of the text.
\<close>

theorem write_some_sends_all:
  assumes "write_some_ok (lib_write_some lib)"
  shows "\<exists>e out. send_data_by_write_some lib = Some (e, out) \<and>
     ((e = Returned 0 \<and> out = hello_world) \<or>
      (\<exists>ec k. e = Returned ec \<and> ec \<noteq> 0 \<and> k < length hello_world \<and> out = take k hello_world \<and>
         (connected lib ''192.168.3.11'' 3333 = Inl ec \<and> k = 0 \<or> (\<exists>j. lib_write_some lib j (length hello_world - k) = Inl ec))))"
proof (cases "connected lib ''192.168.3.11'' 3333")
  case (Inl ec)
  then have "ec \<noteq> 0"
    by (auto simp: connected_def bindx_def thrown_def Let_def split: prod.splits if_splits sum.splits)
  with Inl show ?thesis by (auto simp: send_data_by_write_some_def catch_system_error_def hello_world_def intro: exI [of _ 0])
next
  case (Inr u)
  obtain r out where w: "write_some_loop (lib_write_some lib) hello_world 0 0 [] = Some (r, out)"
    and res: "case r of None \<Rightarrow> out = hello_world
      | Some ec \<Rightarrow> (\<exists>k < length hello_world. out = take k hello_world \<and> (\<exists>j. lib_write_some lib j (length hello_world - k) = Inl ec))"
    using write_some_loop_result [OF assms, of 0 hello_world 0] by auto
  show ?thesis
  proof (cases r)
    case None
    with Inr w res show ?thesis by (simp add: send_data_by_write_some_def write_to_socket_def catch_system_error_def)
  next
    case (Some ec)
    with res obtain k j where k: "k < length hello_world" "out = take k hello_world" "lib_write_some lib j (length hello_world - k) = Inl ec" by auto
    with assms have "ec \<noteq> 0" unfolding write_some_ok_def by blast
    moreover have "send_data_by_write_some lib = Some (Returned ec, out)"
      using Inr w Some by (simp add: send_data_by_write_some_def write_to_socket_def catch_system_error_def)
    ultimately show ?thesis using k by blast
  qed
qed

definition sample_lib :: "nat asio_lib" where
  "sample_lib = \<lparr>lib_from_string = (\<lambda>_. (1, 0)), lib_any_v4 = 0, lib_any_v6 = 0, lib_protocol = (\<lambda>_. V4), lib_open = (\<lambda>_. 0),
     lib_bind = (\<lambda>_. 0), lib_listen = (\<lambda>_. 0), lib_accept = 0, lib_connect = (\<lambda>_. 0), lib_resolve = (\<lambda>_ _. Inr []),
     lib_connect_any = (\<lambda>_. 0), lib_write_some = (\<lambda>_ len. Inr (if 4 < len then 4 else len)), lib_send = (\<lambda>len. Inr len), lib_write = (\<lambda>len. Inr len),
     lib_read_some = (\<lambda>_ len. Inr (replicate (if 2 < len then 2 else len) (CHR ''x''))), lib_receive = (\<lambda>_. Inr ''abc''),
     lib_read = (\<lambda>len. Inr (replicate len (CHR ''x'')))\<rparr>"

lemma sample_lib_ok: "write_some_ok (lib_write_some sample_lib)" "read_some_ok (lib_read_some sample_lib)"
  "connected sample_lib ip port = Inr ()"
  by (auto simp: write_some_ok_def read_some_ok_def sample_lib_def connected_def split: if_splits)

theorem write_some_sends_all_witness:
  "\<exists>e out. send_data_by_write_some sample_lib = Some (e, out) \<and>
     (e = Returned 0 \<and> out = ''hello world'')"
proof -
  have "lib_write_some sample_lib j len \<noteq> Inl ec" for j len ec by (simp add: sample_lib_def)
  then show ?thesis
    using write_some_sends_all [OF sample_lib_ok(1)] sample_lib_ok(3) [of "''192.168.3.11''" 3333] unfolding hello_world_def by auto
qed

text \<open>
  The receiving examples have no \<open>return\<close> after the \<open>try\<close> block: whenever the message is received, by
  \<open>read_some\<close>, \<open>receive\<close> or \<open>read\<close>, control reaches the end of a function that must return
  an \<open>int\<close>; they return a value only where the connection or a read fails.
\<close>

theorem read_examples_no_return:
  assumes "read_some_ok (lib_read_some lib)" and "\<forall>i len ec. lib_read_some lib i len \<noteq> Inl ec"
    and "connected lib ''192.168.3.11'' 3333 = Inr ()"
    and "lib_receive lib MESSAGE_SIZE = Inr bs" "bs \<noteq> []" "length bs \<le> MESSAGE_SIZE"
    and "lib_read lib MESSAGE_SIZE = Inr cs" "length cs = MESSAGE_SIZE"
  shows "read_data_by_read_some lib = Some Fell_Off_End \<and> read_data_by_receive lib = Fell_Off_End \<and> read_data_by_read lib = Fell_Off_End"
proof -
  obtain out where "read_some_loop (lib_read_some lib) 0 [] = Some (Inr out)"
    using read_some_loop_result [OF assms(1), of "[]" 0] assms(2) by auto
  then have "read_data_by_read_some lib = Some Fell_Off_End"
    using assms(3) by (simp add: read_data_by_read_some_def read_from_socket_def catch_system_error_def)
  moreover have "to_int32 (int (length bs)) = int (length bs)" "to_int32 (int (length cs)) = 7"
    using assms(6,8) by (simp_all add: to_int32_id MESSAGE_SIZE_def)
  then have "read_data_by_receive lib = Fell_Off_End" "read_data_by_read lib = Fell_Off_End"
    using assms(3-8) by (simp_all add: read_data_by_receive_def read_data_by_read_def catch_system_error_def Let_def)
  ultimately show ?thesis by simp
qed

theorem read_examples_no_return_witness:
  "read_data_by_read_some sample_lib = Some Fell_Off_End \<and> read_data_by_receive sample_lib = Fell_Off_End \<and>
     read_data_by_read sample_lib = Fell_Off_End"
  by (rule read_examples_no_return [OF sample_lib_ok(2) _ sample_lib_ok(3), of "''abc''" "replicate 7 (CHR ''x'')"])
    (simp_all add: sample_lib_def MESSAGE_SIZE_def)

end
