(* ===== verification/Coro_Logic.thy ===== *)
theory Coro_Logic
  imports Coro_Server
begin

text \<open>
  The logic layer and the acceptor of \<open>4. CoroutineAsyncServer\<close> (\<open>src/logicsystem.cpp\<close>,
  \<open>src/Server.cpp\<close>), which are copies of those of \<open>3. AsyncServerIOservicepool\<close> over a session of
  their own. The logic layer is translated a second time, as a relation with one rule per
  statement, and proved to have the same steps as the functions of
  \<open>Logic_System\<close>, so that its invariant carries over. The acceptor is given with its
  statements apart, because a session runs on a thread of the pool as soon as it is started.
\<close>

section \<open>Callbacks\<close>

lemma coro_Send_string_eq: "coro_Send_string = tlv_Send_string"
proof (intro ext)
  show "coro_Send_string msg i s = tlv_Send_string msg i s" for msg i s
    by (cases "SendNode (msg @ [NUL]) (to_short (int (length msg))) (to_short i)"; cases "ts_send_que s")
      (simp_all add: coro_Send_string_def tlv_Send_string_def tlv_Send_def Let_def queue_defs tlv_async_write_def tlv_bytes_def)
qed

definition coro_HelloWordCallBack :: "'j json_lib \<Rightarrow> int \<Rightarrow> string \<Rightarrow> tlv_session \<Rightarrow> tlv_session res" where
  "coro_HelloWordCallBack js msg_id msg_data session =
     (case json_parse js msg_data of
        None \<Rightarrow>
          bindr (throws (json_set js ''id'' (json_int js msg_id) (json_null js))) (\<lambda>err_root.
          bindr (throws (json_set js ''data'' (json_string js ''invalid json payload'') err_root)) (\<lambda>err_root.
          coro_Send_string (json_styled js err_root) msg_id session))
      | Some root \<Rightarrow>
          bindr (throws (json_at js ''id'' root)) (\<lambda>(root, v).
          bindr (throws (json_asInt js v)) (\<lambda>_.
          bindr (throws (json_at js ''data'' root)) (\<lambda>(root, v).
          bindr (throws (json_asString js v)) (\<lambda>_.
          bindr (throws (json_at js ''data'' root)) (\<lambda>(root, v).
          bindr (throws (json_asString js v)) (\<lambda>d.
          bindr (throws (json_set js ''data'' (json_string js (''server has received msg, msg data is '' @ d)) root)) (\<lambda>root.
          let return_str = json_styled js root in
          bindr (throws (json_at js ''id'' root)) (\<lambda>(root, v).
          bindr (throws (json_asInt js v)) (\<lambda>i.
          coro_Send_string return_str i session))))))))))"

definition coro_RegisterCallBacks :: "'j json_lib \<Rightarrow> callbacks \<Rightarrow> callbacks" where
  "coro_RegisterCallBacks js cbs = map_assign MSG_HELLO_WORLD (coro_HelloWordCallBack js) cbs"

definition coro_LogicSystem_ctor :: "'j json_lib \<Rightarrow> LogicSystem" where
  "coro_LogicSystem_ctor js = \<lparr>ls_msg_que = [], ls_mutex = None, ls_b_stop = False,
     ls_fun_callbacks = coro_RegisterCallBacks js Map.empty\<rparr>"

lemma coro_HelloWordCallBack_eq: "coro_HelloWordCallBack js = HelloWordCallBack js"
  unfolding coro_HelloWordCallBack_def [abs_def] HelloWordCallBack_def [abs_def] coro_Send_string_eq ..

lemma coro_LogicSystem_ctor_eq: "coro_LogicSystem_ctor js = LogicSystem_ctor js"
  by (simp add: coro_LogicSystem_ctor_def LogicSystem_ctor_def coro_RegisterCallBacks_def RegisterCallBacks_def
      coro_HelloWordCallBack_eq)

section \<open>The threads of the logic layer\<close>

text \<open>
  The look-up and the call of a callback, its exceptions caught: the body of the two \<open>try\<close> blocks of \<open>DealMsg\<close>.
\<close>

inductive coro_callback :: "callbacks \<Rightarrow> LogicNode \<Rightarrow> (string \<Rightarrow> tlv_session) \<Rightarrow> (string \<Rightarrow> tlv_session) \<Rightarrow> bool" where
  no_callback: "cbs (node_msg_id (ln_recvnode n)) = None \<Longrightarrow> coro_callback cbs n ss ss"
| called: "cbs (node_msg_id (ln_recvnode n)) = Some f \<Longrightarrow>
     f (node_msg_id (ln_recvnode n)) (node_text (ln_recvnode n)) (ss (ln_session n)) = Inr s' \<Longrightarrow>
     coro_callback cbs n ss (ss(ln_session n := s'))"
| caught: "cbs (node_msg_id (ln_recvnode n)) = Some f \<Longrightarrow>
     f (node_msg_id (ln_recvnode n)) (node_text (ln_recvnode n)) (ss (ln_session n)) = Inl e \<Longrightarrow> e = Bad_Alloc \<or> e = Logic_Error \<Longrightarrow>
     coro_callback cbs n ss ss"

lemma coro_callback_iff: "coro_callback cbs n ss ss' \<longleftrightarrow> run_callback cbs n ss = Inr ss'"
proof
  show "run_callback cbs n ss = Inr ss'" if "coro_callback cbs n ss ss'"
    using that by (cases rule: coro_callback.cases) (auto simp: run_callback_def map_find_def is_exception_def)
  show "coro_callback cbs n ss ss'" if "run_callback cbs n ss = Inr ss'"
  proof (cases "cbs (node_msg_id (ln_recvnode n))")
    case None
    with that no_callback show ?thesis by (simp add: run_callback_def map_find_def)
  next
    case (Some f)
    show ?thesis
    proof (cases "f (node_msg_id (ln_recvnode n)) (node_text (ln_recvnode n)) (ss (ln_session n))")
      case (Inl e)
      with that Some have "is_exception e" "ss' = ss" by (simp_all add: run_callback_def map_find_def split: if_splits)
      with caught [of cbs n f ss e] Some Inl show ?thesis by (simp add: is_exception_def)
    next
      case (Inr s')
      with that Some have "ss' = ss(ln_session n := s')" by (simp add: run_callback_def map_find_def)
      with called [of cbs n f ss s'] Some Inr show ?thesis by simp
    qed
  qed
qed

inductive coro_DealMsg :: "logic_run \<Rightarrow> logic_run \<Rightarrow> bool" where
  lock: "lr_worker s = Deal_Lock \<or> lr_worker s = Deal_Woken \<Longrightarrow> ls_mutex (lr_sys s) = None \<Longrightarrow>
     coro_DealMsg s (s\<lparr>lr_worker := Deal_Test, lr_sys := (lr_sys s)\<lparr>ls_mutex := Some Worker\<rparr>\<rparr>)"
| sleep: "lr_worker s = Deal_Test \<Longrightarrow> ls_msg_que (lr_sys s) = [] \<Longrightarrow> \<not> ls_b_stop (lr_sys s) \<Longrightarrow>
     coro_DealMsg s (s\<lparr>lr_worker := Deal_Sleep\<rparr>)"
| wait: "lr_worker s = Deal_Sleep \<Longrightarrow>
     coro_DealMsg s (s\<lparr>lr_worker := Deal_Wait, lr_sys := (lr_sys s)\<lparr>ls_mutex := None\<rparr>\<rparr>)"
| ready: "lr_worker s = Deal_Test \<Longrightarrow> ls_msg_que (lr_sys s) \<noteq> [] \<or> ls_b_stop (lr_sys s) \<Longrightarrow>
     coro_DealMsg s (s\<lparr>lr_worker := Deal_Stop\<rparr>)"
| running: "lr_worker s = Deal_Stop \<Longrightarrow> \<not> ls_b_stop (lr_sys s) \<Longrightarrow> coro_DealMsg s (s\<lparr>lr_worker := Deal_Pop\<rparr>)"
| stopped: "lr_worker s = Deal_Stop \<Longrightarrow> ls_b_stop (lr_sys s) \<Longrightarrow> coro_DealMsg s (s\<lparr>lr_worker := Drain_Test\<rparr>)"
| pop: "lr_worker s = Deal_Pop \<Longrightarrow> ls_msg_que (lr_sys s) = n # q \<Longrightarrow>
     coro_DealMsg s (s\<lparr>lr_worker := Deal_Call n, lr_taken := lr_taken s @ [n], lr_sys := (lr_sys s)\<lparr>ls_msg_que := q, ls_mutex := None\<rparr>\<rparr>)"
| call: "lr_worker s = Deal_Call n \<Longrightarrow> coro_callback (ls_fun_callbacks (lr_sys s)) n (lr_sessions s) ss \<Longrightarrow>
     coro_DealMsg s (s\<lparr>lr_sessions := ss, lr_worker := Deal_Lock, lr_dealt := lr_dealt s @ [n]\<rparr>)"
| drain_pop: "lr_worker s = Drain_Test \<Longrightarrow> ls_msg_que (lr_sys s) = n # q \<Longrightarrow>
     coro_DealMsg s (s\<lparr>lr_worker := Drain_Call n, lr_taken := lr_taken s @ [n], lr_sys := (lr_sys s)\<lparr>ls_msg_que := q, ls_mutex := None\<rparr>\<rparr>)"
| drain_call: "lr_worker s = Drain_Call n \<Longrightarrow> coro_callback (ls_fun_callbacks (lr_sys s)) n (lr_sessions s) ss \<Longrightarrow>
     coro_DealMsg s (s\<lparr>lr_sessions := ss, lr_worker := Drain_Lock, lr_dealt := lr_dealt s @ [n]\<rparr>)"
| drain_lock: "lr_worker s = Drain_Lock \<Longrightarrow> ls_mutex (lr_sys s) = None \<Longrightarrow>
     coro_DealMsg s (s\<lparr>lr_worker := Drain_Test, lr_sys := (lr_sys s)\<lparr>ls_mutex := Some Worker\<rparr>\<rparr>)"
| over: "lr_worker s = Drain_Test \<Longrightarrow> ls_msg_que (lr_sys s) = [] \<Longrightarrow>
     coro_DealMsg s (s\<lparr>lr_worker := Deal_End, lr_sys := (lr_sys s)\<lparr>ls_mutex := None\<rparr>\<rparr>)"

inductive coro_PostMsgToQue :: "nat \<Rightarrow> logic_run \<Rightarrow> logic_run \<Rightarrow> bool" for i :: nat where
  lock: "lr_posters s ! i = Post_Lock n \<Longrightarrow> ls_mutex (lr_sys s) = None \<Longrightarrow>
     coro_PostMsgToQue i s (s\<lparr>lr_posters := (lr_posters s)[i := Post_Push n], lr_sys := (lr_sys s)\<lparr>ls_mutex := Some (Poster i)\<rparr>\<rparr>)"
| push: "lr_posters s ! i = Post_Push n \<Longrightarrow>
     coro_PostMsgToQue i s (s\<lparr>lr_posted := lr_posted s @ [n], lr_posters := (lr_posters s)[i := Post_Notify],
       lr_sys := (lr_sys s)\<lparr>ls_msg_que := ls_msg_que (lr_sys s) @ [n]\<rparr>\<rparr>)"
| notify: "lr_posters s ! i = Post_Notify \<Longrightarrow> length (ls_msg_que (lr_sys s)) = 1 \<Longrightarrow> lr_worker s = Deal_Wait \<Longrightarrow>
     coro_PostMsgToQue i s (s\<lparr>lr_worker := Deal_Woken, lr_posters := (lr_posters s)[i := Post_Unlock]\<rparr>)"
| nobody: "lr_posters s ! i = Post_Notify \<Longrightarrow> length (ls_msg_que (lr_sys s)) \<noteq> 1 \<or> lr_worker s \<noteq> Deal_Wait \<Longrightarrow>
     coro_PostMsgToQue i s (s\<lparr>lr_posters := (lr_posters s)[i := Post_Unlock]\<rparr>)"
| unlock: "lr_posters s ! i = Post_Unlock \<Longrightarrow>
     coro_PostMsgToQue i s (s\<lparr>lr_posters := (lr_posters s)[i := Post_Idle], lr_sys := (lr_sys s)\<lparr>ls_mutex := None\<rparr>\<rparr>)"

inductive coro_LogicSystem_dtor :: "logic_run \<Rightarrow> logic_run \<Rightarrow> bool" where
  flag: "lr_dtor s = Dtor_Idle \<Longrightarrow>
     coro_LogicSystem_dtor s (s\<lparr>lr_dtor := Dtor_Notify, lr_sys := (lr_sys s)\<lparr>ls_b_stop := True\<rparr>\<rparr>)"
| notify: "lr_dtor s = Dtor_Notify \<Longrightarrow>
     coro_LogicSystem_dtor s (s\<lparr>lr_dtor := Dtor_Join, lr_worker := (if lr_worker s = Deal_Wait then Deal_Woken else lr_worker s)\<rparr>)"
| join: "lr_dtor s = Dtor_Join \<Longrightarrow> lr_worker s = Deal_End \<Longrightarrow> coro_LogicSystem_dtor s (s\<lparr>lr_dtor := Dtor_Done\<rparr>)"

text \<open>The rules and the functions describe the same steps.\<close>

lemma coro_DealMsg_iff: "coro_DealMsg s s' \<longleftrightarrow> deal_step s = Some (Inr s')"
proof
  show "deal_step s = Some (Inr s')" if "coro_DealMsg s s'"
    using that
    by (cases rule: coro_DealMsg.cases)
      (auto simp: deal_step_def deal_lock_def take_node_def deal_node_def set_mutex_def set_que_def queue_defs coro_callback_iff)
  show "coro_DealMsg s s'" if step: "deal_step s = Some (Inr s')"
  proof (cases "lr_worker s")
    case Deal_Lock
    with step coro_DealMsg.lock [of s] show ?thesis by (auto simp: deal_step_def deal_lock_def set_mutex_def split: if_splits)
  next
    case Deal_Woken
    with step coro_DealMsg.lock [of s] show ?thesis by (auto simp: deal_step_def deal_lock_def set_mutex_def split: if_splits)
  next
    case Deal_Test
    with step coro_DealMsg.sleep [of s] coro_DealMsg.ready [of s] show ?thesis by (auto simp: deal_step_def split: if_splits)
  next
    case Deal_Sleep
    with step coro_DealMsg.wait [of s] show ?thesis by (auto simp: deal_step_def set_mutex_def)
  next
    case Deal_Stop
    with step coro_DealMsg.running [of s] coro_DealMsg.stopped [of s] show ?thesis by (auto simp: deal_step_def split: if_splits)
  next
    case Deal_Pop
    with step obtain n q where "ls_msg_que (lr_sys s) = n # q" by (auto simp: deal_step_def take_node_eq)
    with step Deal_Pop coro_DealMsg.pop [of s n q] show ?thesis by (auto simp: deal_step_def take_node_eq set_mutex_def set_que_def)
  next
    case (Deal_Call n)
    with step coro_DealMsg.call [of s n] show ?thesis by (auto simp: deal_step_def deal_node_eq coro_callback_iff)
  next
    case Drain_Test
    show ?thesis
    proof (cases "ls_msg_que (lr_sys s)")
      case Nil
      with step Drain_Test coro_DealMsg.over [of s] show ?thesis by (auto simp: deal_step_def set_mutex_def)
    next
      case (Cons n q)
      with step Drain_Test coro_DealMsg.drain_pop [of s n q] show ?thesis by (auto simp: deal_step_def take_node_eq set_mutex_def set_que_def)
    qed
  next
    case (Drain_Call n)
    with step coro_DealMsg.drain_call [of s n] show ?thesis by (auto simp: deal_step_def deal_node_eq coro_callback_iff)
  next
    case Drain_Lock
    with step coro_DealMsg.drain_lock [of s] show ?thesis by (auto simp: deal_step_def deal_lock_def set_mutex_def split: if_splits)
  qed (use step in \<open>simp_all add: deal_step_def\<close>)
qed

lemma coro_PostMsgToQue_iff: "coro_PostMsgToQue i s s' \<longleftrightarrow> post_step i s = Some s'"
proof
  show "post_step i s = Some s'" if "coro_PostMsgToQue i s s'"
    using that
    by (cases rule: coro_PostMsgToQue.cases)
      (auto simp: post_step_def set_mutex_def set_que_def goto_post_def notify_one_def push_back_def)
  show "coro_PostMsgToQue i s s'" if step: "post_step i s = Some s'"
  proof (cases "lr_posters s ! i")
    case (Post_Lock n)
    with step coro_PostMsgToQue.lock [of s i n] show ?thesis by (auto simp: post_step_def set_mutex_def goto_post_def split: if_splits)
  next
    case (Post_Push n)
    with step coro_PostMsgToQue.push [of s i n] show ?thesis by (auto simp: post_step_def set_que_def goto_post_def push_back_def)
  next
    case Post_Notify
    with step coro_PostMsgToQue.notify [of s i] coro_PostMsgToQue.nobody [of s i] show ?thesis
      by (auto simp: post_step_def goto_post_def notify_one_def split: if_splits)
  next
    case Post_Unlock
    with step coro_PostMsgToQue.unlock [of s i] show ?thesis by (auto simp: post_step_def set_mutex_def goto_post_def)
  qed (use step in \<open>simp add: post_step_def\<close>)
qed

lemma coro_LogicSystem_dtor_iff: "coro_LogicSystem_dtor s s' \<longleftrightarrow> dtor_step s = Some s'"
proof
  show "dtor_step s = Some s'" if "coro_LogicSystem_dtor s s'"
    using that by (cases rule: coro_LogicSystem_dtor.cases) (auto simp: dtor_step_def notify_one_def)
  show "coro_LogicSystem_dtor s s'" if step: "dtor_step s = Some s'"
  proof (cases "lr_dtor s")
    case Dtor_Idle
    with step coro_LogicSystem_dtor.flag [of s] show ?thesis by (auto simp: dtor_step_def)
  next
    case Dtor_Notify
    with step coro_LogicSystem_dtor.notify [of s] show ?thesis by (auto simp: dtor_step_def notify_one_def)
  next
    case Dtor_Join
    with step coro_LogicSystem_dtor.join [of s] show ?thesis by (auto simp: dtor_step_def split: if_splits)
  qed (use step in \<open>simp add: dtor_step_def\<close>)
qed

section \<open>A run of the logic layer\<close>

inductive coro_logic_step :: "logic_run \<Rightarrow> logic_run \<Rightarrow> bool" where
  deal: "coro_DealMsg s s' \<Longrightarrow> coro_logic_step s s'"
| call: "i < length (lr_posters s) \<Longrightarrow> lr_posters s ! i = Post_Idle \<Longrightarrow>
     coro_logic_step s (s\<lparr>lr_posters := (lr_posters s)[i := Post_Lock n]\<rparr>)"
| post: "i < length (lr_posters s) \<Longrightarrow> coro_PostMsgToQue i s s' \<Longrightarrow> coro_logic_step s s'"
| dtor: "coro_LogicSystem_dtor s s' \<Longrightarrow> coro_logic_step s s'"
| spurious: "lr_worker s = Deal_Wait \<Longrightarrow> coro_logic_step s (s\<lparr>lr_worker := Deal_Woken\<rparr>)"

definition coro_logic_start :: "'j json_lib \<Rightarrow> nat \<Rightarrow> (string \<Rightarrow> tlv_session) \<Rightarrow> logic_run" where
  "coro_logic_start js n ss = \<lparr>lr_sys = coro_LogicSystem_ctor js, lr_sessions = ss, lr_worker = Deal_Lock,
     lr_posters = replicate n Post_Idle, lr_dtor = Dtor_Idle, lr_posted = [], lr_taken = [], lr_dealt = []\<rparr>"

lemma coro_logic_start_eq: "coro_logic_start js n ss = logic_start js n ss"
  by (simp add: coro_logic_start_def logic_start_def coro_LogicSystem_ctor_eq)

lemma coro_logic_step_eq: "coro_logic_step = spurious_step"
proof (intro ext iffI)
  fix s s'
  show "spurious_step s s'" if "coro_logic_step s s'"
    using that
  proof (cases rule: coro_logic_step.cases)
    case deal
    then show ?thesis by (simp add: coro_DealMsg_iff logic_step.deal spurious_step.program)
  next
    case (call i n)
    then show ?thesis using logic_step.call [of i s n] by (simp add: goto_post_def spurious_step.program)
  next
    case (post i)
    then show ?thesis using logic_step.post [of i s s'] by (simp add: coro_PostMsgToQue_iff spurious_step.program)
  next
    case dtor
    then show ?thesis by (simp add: coro_LogicSystem_dtor_iff logic_step.dtor spurious_step.program)
  next
    case spurious
    then show ?thesis by (simp add: spurious_step.spurious)
  qed
  show "coro_logic_step s s'" if "spurious_step s s'"
    using that
  proof (cases rule: spurious_step.cases)
    case program
    then show ?thesis
    proof (cases rule: logic_step.cases)
      case deal
      then show ?thesis by (simp add: coro_logic_step.deal coro_DealMsg_iff)
    next
      case (call i n)
      then show ?thesis using coro_logic_step.call [of i s n] by (simp add: goto_post_def)
    next
      case (post i)
      then show ?thesis using coro_logic_step.post [of i s s'] by (simp add: coro_PostMsgToQue_iff)
    next
      case dtor
      then show ?thesis by (simp add: coro_logic_step.dtor coro_LogicSystem_dtor_iff)
    qed
  next
    case spurious
    then show ?thesis by (simp add: coro_logic_step.spurious)
  qed
qed

section \<open>The acceptor\<close>

text \<open>
  \<open>Server.cpp\<close>: the methods on the state of the server, with the pool of this program.
  \<open>HandleAccept\<close> starts the session, puts it into the map and waits for the next connection;
  the three statements are steps of their own, since a started session runs on another thread.
\<close>

definition coro_StartAccept :: "nat \<Rightarrow> string \<Rightarrow> tlv_server \<Rightarrow> tlv_server res" where
  "coro_StartAccept hw uuid sv =
     (let (st, inst) = GetInstance (pool4_ctor hw) (tv_pool sv) in
      case inst of
        None \<Rightarrow> Inl Null_Deref
      | Some pool \<Rightarrow>
          bindr (pool4_GetIOService pool) (\<lambda>(pool, c).
          let p = tv_new sv in
          Inr (sv\<lparr>tv_pool := st\<lparr>s_instance := Some pool\<rparr>, tv_heap := (tv_heap sv)(p := tlv_Session uuid),
                  tv_context := (tv_context sv)(p := c), tv_new := Suc p, tv_accepting := Some p\<rparr>)))"

definition coro_ClearSession :: "string \<Rightarrow> tlv_server \<Rightarrow> tlv_server" where
  "coro_ClearSession uuid sv = sv\<lparr>tv_sessions := map_erase uuid (tv_sessions sv)\<rparr>"

definition coro_Server :: "nat \<Rightarrow> string \<Rightarrow> tlv_server res" where
  "coro_Server hw uuid =
     coro_StartAccept hw uuid \<lparr>tv_sessions = Map.empty, tv_heap = (\<lambda>_. tlv_Session []), tv_context = (\<lambda>_. 0), tv_new = 0,
       tv_accepting = None, tv_pool = singleton_init\<rparr>"

datatype accept_pc = Acc_Wait | Acc_Start nat | Acc_Insert nat | Acc_Next

text \<open>The sessions whose coroutine runs; a coroutine that ends clears its session.\<close>

record accept_run =
  ar_server :: tlv_server
  ar_pc :: accept_pc
  ar_live :: "nat set"

definition accept_start :: "tlv_server \<Rightarrow> accept_run" where
  "accept_start sv = \<lparr>ar_server = sv, ar_pc = Acc_Wait, ar_live = {}\<rparr>"

text \<open>The uuid of the p-th session is \<open>gen p\<close>.\<close>

inductive coro_HandleAccept :: "nat \<Rightarrow> (nat \<Rightarrow> string) \<Rightarrow> accept_run \<Rightarrow> accept_run \<Rightarrow> bool" for hw :: nat and gen :: "nat \<Rightarrow> string" where
  accepted: "ar_pc r = Acc_Wait \<Longrightarrow> tv_accepting (ar_server r) = Some p \<Longrightarrow>
     coro_HandleAccept hw gen r (r\<lparr>ar_server := (ar_server r)\<lparr>tv_accepting := None\<rparr>, ar_pc := Acc_Start p\<rparr>)"
| failed: "ar_pc r = Acc_Wait \<Longrightarrow> tv_accepting (ar_server r) = Some p \<Longrightarrow>
     coro_HandleAccept hw gen r (r\<lparr>ar_server := (ar_server r)\<lparr>tv_accepting := None\<rparr>, ar_pc := Acc_Next\<rparr>)"
| started: "ar_pc r = Acc_Start p \<Longrightarrow>
     coro_HandleAccept hw gen r (r\<lparr>ar_pc := Acc_Insert p, ar_live := insert p (ar_live r)\<rparr>)"
| inserted: "ar_pc r = Acc_Insert p \<Longrightarrow>
     coro_HandleAccept hw gen r (r\<lparr>ar_server := (ar_server r)\<lparr>tv_sessions :=
         map_insert (ts_uuid (tv_heap (ar_server r) p)) p (tv_sessions (ar_server r))\<rparr>, ar_pc := Acc_Next\<rparr>)"
| waiting: "ar_pc r = Acc_Next \<Longrightarrow> coro_StartAccept hw (gen (tv_new (ar_server r))) (ar_server r) = Inr sv \<Longrightarrow>
     coro_HandleAccept hw gen r (r\<lparr>ar_server := sv, ar_pc := Acc_Wait\<rparr>)"
| ended: "p \<in> ar_live r \<Longrightarrow>
     coro_HandleAccept hw gen r (r\<lparr>ar_server := coro_ClearSession (ts_uuid (tv_heap (ar_server r) p)) (ar_server r), ar_live := ar_live r - {p}\<rparr>)"

text \<open>Every session in use has the uuid it was made with.\<close>

definition in_use :: "accept_run \<Rightarrow> nat set" where
  "in_use r = ar_live r \<union> (case ar_pc r of Acc_Wait \<Rightarrow> set_option (tv_accepting (ar_server r)) | Acc_Start p \<Rightarrow> {p} | Acc_Insert p \<Rightarrow> {p} | Acc_Next \<Rightarrow> {})"

definition accept_inv :: "(nat \<Rightarrow> string) \<Rightarrow> nat \<Rightarrow> accept_run \<Rightarrow> bool" where
  "accept_inv gen k r \<longleftrightarrow> k \<le> tv_new (ar_server r) \<and> (\<forall>p < tv_new (ar_server r). ts_uuid (tv_heap (ar_server r) p) = gen p) \<and>
     (\<forall>p \<in> in_use r. k \<le> p \<and> p < tv_new (ar_server r))"

lemma coro_StartAccept_fields:
  assumes "coro_StartAccept hw uuid sv = Inr sv'"
  shows "tv_sessions sv' = tv_sessions sv" "tv_heap sv' = (tv_heap sv)(tv_new sv := tlv_Session uuid)"
    "tv_new sv' = Suc (tv_new sv)" "tv_accepting sv' = Some (tv_new sv)"
  using assms by (auto simp: coro_StartAccept_def Let_def bindr_eq_Inr split: prod.splits option.splits)

lemma tlv_Session_uuid [simp]: "ts_uuid (tlv_Session u) = u"
  by (simp add: tlv_Session_def)

lemma accept_inv_step:
  assumes "coro_HandleAccept hw gen r r'" and "accept_inv gen k r"
  shows "accept_inv gen k r'"
  using assms(1)
proof (cases rule: coro_HandleAccept.cases)
  case (waiting sv)
  note f = coro_StartAccept_fields [OF waiting(3)]
  show ?thesis
    using assms(2) waiting f by (auto simp: accept_inv_def in_use_def less_Suc_eq)
next
  case (ended p)
  then have "in_use r' \<subseteq> in_use r" by (cases "ar_pc r") (auto simp: in_use_def coro_ClearSession_def)
  with assms(2) ended(1) show ?thesis unfolding accept_inv_def by (auto simp: coro_ClearSession_def)
qed (use assms(2) in \<open>auto simp: accept_inv_def in_use_def coro_ClearSession_def\<close>)

text \<open>What is in the map and belongs to a session before \<open>k\<close> stays there.\<close>

lemma old_session_stays:
  assumes "coro_HandleAccept hw gen r r'" and "accept_inv gen k r" and "inj gen" and "p < k"
    and "map_find (gen p) (tv_sessions (ar_server r)) = Some p"
  shows "map_find (gen p) (tv_sessions (ar_server r')) = Some p"
proof -
  have other: "ts_uuid (tv_heap (ar_server r) q) \<noteq> gen p" if "q \<in> in_use r" for q
  proof -
    have "k \<le> q" "ts_uuid (tv_heap (ar_server r) q) = gen q" using that assms(2) by (auto simp: accept_inv_def)
    with assms(3,4) show ?thesis by (auto dest: injD)
  qed
  from assms(1) show ?thesis
  proof (cases rule: coro_HandleAccept.cases)
    case (inserted q)
    then have "q \<in> in_use r" by (simp add: in_use_def)
    with inserted other [of q] assms(5) show ?thesis by (auto simp: map_find_def map_insert_def split: option.splits)
  next
    case (ended q)
    then have "q \<in> in_use r" by (simp add: in_use_def)
    with ended other [of q] assms(5) show ?thesis by (auto simp: coro_ClearSession_def map_find_def map_erase_def)
  next
    case (waiting sv)
    with coro_StartAccept_fields(1) [OF waiting(3)] assms(5) show ?thesis by simp
  qed (use assms(5) in simp_all)
qed

lemma old_session_forever:
  assumes "(coro_HandleAccept hw gen)\<^sup>*\<^sup>* r r'" and "accept_inv gen k r" and "inj gen" and "p < k"
    and "map_find (gen p) (tv_sessions (ar_server r)) = Some p"
  shows "accept_inv gen k r' \<and> map_find (gen p) (tv_sessions (ar_server r')) = Some p"
  using assms(1)
proof (induction rule: rtranclp_induct)
  case base
  with assms show ?case by simp
next
  case (step y z)
  then show ?case using accept_inv_step old_session_stays assms(3,4) by blast
qed

lemma coro_StartAccept_first:
  assumes "tv_pool sv = singleton_init"
  shows "\<exists>sv'. coro_StartAccept hw uuid sv = Inr sv'"
  using assms
  by (auto simp: coro_StartAccept_def GetInstance_def singleton_init_def pool4_ctor_ready pool4_GetIOService_def pool_ready_def Let_def)

section \<open>Properties\<close>

text \<open>
  The second translation of the logic layer agrees with the first: in the copy of the coroutine
  server, \<open>DealMsg\<close>, \<open>PostMsgToQue\<close> and the destructor, written as rules, have exactly the steps of the
  functions of the pooled server, from the same initial state; so messages are dealt with in
  order and exactly once there too.
\<close>

theorem coro_logic_equivalent:
  "coro_logic_start js n ss = logic_start js n ss \<and> coro_logic_step = spurious_step \<and>
   (coro_logic_step\<^sup>*\<^sup>* (coro_logic_start js n ss) s \<longrightarrow>
      lr_posted s = lr_dealt s @ in_hand (lr_worker s) @ ls_msg_que (lr_sys s))"
proof -
  have "lr_posted s = lr_dealt s @ in_hand (lr_worker s) @ ls_msg_que (lr_sys s)" if "spurious_step\<^sup>*\<^sup>* (logic_start js n ss) s"
    using logic_inv_reachable [OF that logic_inv_start] by (simp add: logic_inv_def order_inv_def)
  then show ?thesis by (simp add: coro_logic_start_eq coro_logic_step_eq)
qed

theorem coro_logic_equivalent_witness:
  "coro_logic_step\<^sup>*\<^sup>* (coro_logic_start example_json 1 tlv_Session) (coro_logic_start example_json 1 tlv_Session) \<and>
   lr_posted (coro_logic_start example_json 1 tlv_Session) = []"
  using coro_logic_equivalent [of example_json 1 tlv_Session "coro_logic_start example_json 1 tlv_Session"]
  by (simp add: logic_start_def LogicSystem_ctor_def)

text \<open>
  C36. The acceptor can lose track of a session: \<open>HandleAccept\<close> starts the session before it puts it
  into the map, and when the peer hangs up in between, the coroutine on the other thread clears a
  session that is not in the map yet. The session is then put in after its end, and
  stays in the map for as long as the server runs, whatever else happens.
\<close>

theorem ended_session_stays_in_map:
  assumes "inj gen"
  shows "\<exists>sv r. coro_Server hw (gen 0) = Inr sv \<and> (coro_HandleAccept hw gen)\<^sup>*\<^sup>* (accept_start sv) r \<and> 0 \<notin> ar_live r \<and>
     (\<forall>r'. (coro_HandleAccept hw gen)\<^sup>*\<^sup>* r r' \<longrightarrow> map_find (gen 0) (tv_sessions (ar_server r')) = Some 0 \<and> 0 \<notin> ar_live r')"
proof -
  define sv0 where "sv0 = \<lparr>tv_sessions = Map.empty, tv_heap = (\<lambda>_. tlv_Session []), tv_context = (\<lambda>_. 0), tv_new = 0,
       tv_accepting = None, tv_pool = singleton_init\<rparr>"
  obtain sv where sv: "coro_StartAccept hw (gen 0) sv0 = Inr sv" using coro_StartAccept_first [of sv0] by (auto simp: sv0_def)
  note f = coro_StartAccept_fields [OF sv]
  have init: "coro_Server hw (gen 0) = Inr sv" using sv by (simp add: coro_Server_def sv0_def)
  define r0 where "r0 = accept_start sv"
  define r1 where "r1 = r0\<lparr>ar_server := sv\<lparr>tv_accepting := None\<rparr>, ar_pc := Acc_Start 0\<rparr>"
  define r2 where "r2 = r1\<lparr>ar_pc := Acc_Insert 0, ar_live := insert 0 (ar_live r1)\<rparr>"
  define r3 where "r3 = r2\<lparr>ar_server := coro_ClearSession (ts_uuid (tv_heap (ar_server r2) 0)) (ar_server r2), ar_live := ar_live r2 - {0}\<rparr>"
  define r4 where "r4 = r3\<lparr>ar_server := (ar_server r3)\<lparr>tv_sessions :=
         map_insert (ts_uuid (tv_heap (ar_server r3) 0)) 0 (tv_sessions (ar_server r3))\<rparr>, ar_pc := Acc_Next\<rparr>"
  have 1: "coro_HandleAccept hw gen r0 r1"
    unfolding r1_def using coro_HandleAccept.accepted [of r0 0 hw gen] f(4) by (simp add: r0_def accept_start_def sv0_def)
  have 2: "coro_HandleAccept hw gen r1 r2" unfolding r2_def by (rule coro_HandleAccept.started) (simp add: r1_def)
  have 3: "coro_HandleAccept hw gen r2 r3" unfolding r3_def by (rule coro_HandleAccept.ended) (simp add: r2_def)
  have 4: "coro_HandleAccept hw gen r3 r4" unfolding r4_def by (rule coro_HandleAccept.inserted) (simp add: r3_def r2_def)
  have run: "(coro_HandleAccept hw gen)\<^sup>*\<^sup>* r0 r4" using 1 2 3 4 by (meson converse_rtranclp_into_rtranclp rtranclp.rtrancl_refl)
  have s4: "tv_sessions (ar_server r4) = [gen 0 \<mapsto> 0]" "ar_live r4 = {}" "ar_pc r4 = Acc_Next" "tv_new (ar_server r4) = 1"
    "tv_heap (ar_server r4) 0 = tlv_Session (gen 0)"
    using f by (simp_all add: r4_def r3_def r2_def r1_def r0_def accept_start_def coro_ClearSession_def sv0_def map_defs)
  have inv: "accept_inv gen 1 r4" using s4 by (simp add: accept_inv_def in_use_def)
  have "map_find (gen 0) (tv_sessions (ar_server r')) = Some 0 \<and> 0 \<notin> ar_live r'" if "(coro_HandleAccept hw gen)\<^sup>*\<^sup>* r4 r'" for r'
    using old_session_forever [OF that inv assms, of 0] s4(1) by (auto simp: map_find_def accept_inv_def in_use_def)
  with init run s4(2) show ?thesis unfolding r0_def by blast
qed

theorem ended_session_stays_in_map_witness:
  "\<exists>sv r. coro_Server 4 (replicate 0 (CHR ''u'')) = Inr sv \<and>
     (coro_HandleAccept 4 (\<lambda>p. replicate p (CHR ''u'')))\<^sup>*\<^sup>* (accept_start sv) r \<and> 0 \<notin> ar_live r \<and>
     map_find [] (tv_sessions (ar_server r)) = Some 0"
proof -
  have "inj (\<lambda>p. replicate p (CHR ''u''))" by (rule injI) (metis length_replicate)
  from ended_session_stays_in_map [OF this, of 4] show ?thesis by auto
qed

end
