(* ===== verification/Http_Deadline.thy ===== *)
theory Http_Deadline
  imports Beast_Http
begin

text \<open>
  The HTTP server of \<open>5. HTTPserver\<close> (\<open>src/beast_http.cpp\<close>) with all its connections at once:
  \<open>http_server\<close> accepts while earlier connections read, write and wait for their deadlines, and the one
  thread of the \<open>io_context\<close> runs one handler at a time, in any order. The steps are the handlers of
  \<open>Beast_Http\<close>, and a clock that counts seconds.
\<close>

section \<open>The server and its connections\<close>

text \<open>
  A connection lives as long as one of its handlers holds it: the read, the write or the wait for the
  deadline. The time \<open>hs_started\<close> is that of its construction, when the timer is set. The log keeps
  the requests in the order in which they were processed.
\<close>

record http_world =
  hs_conns :: "nat \<Rightarrow> beast_connection"
  hs_new :: nat
  hs_accepting :: bool
  hs_now :: nat
  hs_started :: "nat \<Rightarrow> nat"
  hs_count :: nat
  hs_log :: "(nat \<times> int \<times> http_request) list"

definition DEADLINE :: nat where "DEADLINE = 60"

definition http_writing :: "beast_connection \<Rightarrow> bool" where
  "http_writing c \<longleftrightarrow> bc_writes c \<noteq> [] \<and> \<not> bc_shutdown c"

definition http_alive :: "beast_connection \<Rightarrow> bool" where
  "http_alive c \<longleftrightarrow> bc_reading c \<or> http_writing c \<or> bc_timer c"

text \<open>What the request member holds before the read has filled it.\<close>

definition no_request :: http_request where
  "no_request = \<lparr>rq_version = 11, rq_method = Verb_other [], rq_target = [], rq_body = []\<rparr>"

text \<open>\<open>http_server\<close> starts an accept; \<open>http_accepted\<close> is the handler it passes.\<close>

definition http_listen :: "http_world \<Rightarrow> http_world" where
  "http_listen w = w\<lparr>hs_accepting := True\<rparr>"

definition http_accepted :: "asio_error option \<Rightarrow> http_world \<Rightarrow> http_world" where
  "http_accepted ec w =
     (let w = w\<lparr>hs_accepting := False\<rparr>;
          w = (if ec = None then
                 (let p = hs_new w in
                  w\<lparr>hs_conns := (hs_conns w)(p := http_start (http_connection no_request)),
                    hs_started := (hs_started w)(p := hs_now w), hs_new := Suc p\<rparr>)
               else w)
      in http_listen w)"

text \<open>\<open>main\<close>: the exit code when the port cannot be bound, or the server when it starts to run.\<close>

definition http_main :: "bool \<Rightarrow> int + http_world" where
  "http_main bind_ok =
     (if bind_ok then
        Inr (http_listen \<lparr>hs_conns = (\<lambda>_. http_connection no_request), hs_new = 0, hs_accepting = False, hs_now = 0,
               hs_started = (\<lambda>_. 0), hs_count = 0, hs_log = []\<rparr>)
      else Inl 1)"

definition set_conn :: "nat \<Rightarrow> beast_connection \<Rightarrow> http_world \<Rightarrow> http_world" where
  "set_conn p c w = w\<lparr>hs_conns := (hs_conns w)(p := c)\<rparr>"

text \<open>The read of the connection \<open>p\<close> completes with a request, which is processed at the time \<open>t\<close>.\<close>

definition http_deliver :: "nat \<Rightarrow> int \<Rightarrow> http_request \<Rightarrow> http_world \<Rightarrow> http_world" where
  "http_deliver p t req w =
     (let (c, count) = http_on_read None t ((hs_conns w p)\<lparr>bc_request := req\<rparr>) (hs_count w)
      in (set_conn p c w)\<lparr>hs_count := count, hs_log := hs_log w @ [(p, t, req)]\<rparr>)"

text \<open>
  asio runs what is due before the second is over: a timer that has expired, and the reads and
  writes of a socket that has been closed, which fail.
\<close>

definition settled :: "http_world \<Rightarrow> nat \<Rightarrow> bool" where
  "settled w p \<longleftrightarrow> (bc_timer (hs_conns w p) \<longrightarrow> hs_now w < hs_started w p + DEADLINE) \<and>
     (bc_open (hs_conns w p) \<or> \<not> bc_reading (hs_conns w p) \<and> \<not> http_writing (hs_conns w p))"

inductive http_step :: "http_world \<Rightarrow> http_world \<Rightarrow> bool" where
  accept: "hs_accepting w \<Longrightarrow> http_step w (http_accepted ec w)"
| deliver: "p < hs_new w \<Longrightarrow> bc_reading (hs_conns w p) \<Longrightarrow> bc_open (hs_conns w p) \<Longrightarrow> http_step w (http_deliver p t req w)"
| read_failed: "p < hs_new w \<Longrightarrow> bc_reading (hs_conns w p) \<Longrightarrow>
     http_step w (set_conn p (fst (http_on_read (Some e) t (hs_conns w p) (hs_count w))) w)"
| written: "p < hs_new w \<Longrightarrow> http_writing (hs_conns w p) \<Longrightarrow> http_step w (set_conn p (http_on_written (hs_conns w p)) w)"
| deadline: "p < hs_new w \<Longrightarrow> bc_timer (hs_conns w p) \<Longrightarrow> hs_started w p + DEADLINE \<le> hs_now w \<Longrightarrow>
     http_step w (set_conn p (http_on_deadline None ((hs_conns w p)\<lparr>bc_timer := False\<rparr>)) w)"
| tick: "\<forall>p < hs_new w. settled w p \<Longrightarrow> http_step w (w\<lparr>hs_now := Suc (hs_now w)\<rparr>)"

section \<open>A request on any connection\<close>

definition counted :: "(nat \<times> int \<times> http_request) list \<Rightarrow> nat" where
  "counted log = count_if is_count (map snd log)"

lemma counted_simps [simp]: "counted [] = 0" "counted (xs @ [x]) = (if is_count (snd x) then Suc (counted xs) else counted xs)"
  by (simp_all add: counted_def)

lemma http_on_read_any:
  fixes t :: int and count :: nat
  assumes "bc_response c = new_response" and "bc_writes c = []" and "bc_request c = req"
  defines "x \<equiv> http_on_read None t c count"
  shows "bc_writes (fst x) = [bc_response (fst x)]"
    and "snd x = (if is_count (t, req) then Suc count mod 2 ^ 64 else count)"
    and "answers (t, req) (Suc count mod 2 ^ 64) (bc_response (fst x))"
    and "bc_open (fst x) = bc_open c" "bc_timer (fst x) = bc_timer c" "bc_shutdown (fst x) = bc_shutdown c" "\<not> bc_reading (fst x)"
proof -
  note d = x_def http_on_read_def http_process_request_def http_write_response_def http_create_response_def new_response_def
    set_field_def add_body_def request_count_def is_count_def answers_def answer_status_def answer_body_def Let_def
  show "bc_writes (fst x) = [bc_response (fst x)]" using assms(1-3) by (cases "rq_method req") (simp_all add: d)
  show "snd x = (if is_count (t, req) then Suc count mod 2 ^ 64 else count)" using assms(1-3) by (cases "rq_method req") (simp_all add: d)
  show "answers (t, req) (Suc count mod 2 ^ 64) (bc_response (fst x))" using assms(1-3) by (cases "rq_method req") (simp_all add: d)
  show "bc_open (fst x) = bc_open c" "bc_timer (fst x) = bc_timer c" "bc_shutdown (fst x) = bc_shutdown c" "\<not> bc_reading (fst x)"
    using assms(3) by (cases "rq_method req"; simp add: d)+
qed

section \<open>Invariants\<close>

text \<open>Of a connection: what is pending on it, and until when.\<close>

definition beast_inv :: "http_world \<Rightarrow> nat \<Rightarrow> bool" where
  "beast_inv w p \<longleftrightarrow> (let c = hs_conns w p in
     (bc_reading c \<longrightarrow> bc_writes c = [] \<and> bc_response c = new_response) \<and>
     (bc_shutdown c \<longrightarrow> bc_writes c \<noteq> []) \<and>
     (p \<notin> fst ` set (hs_log w) \<longrightarrow> bc_writes c = []) \<and>
     hs_started w p \<le> hs_now w \<and>
     (http_alive c \<longrightarrow> hs_now w \<le> hs_started w p + DEADLINE) \<and>
     (bc_open c \<and> (bc_reading c \<or> http_writing c) \<longrightarrow> bc_timer c))"

text \<open>Of the log: one entry per connection at most, and the answer it was given.\<close>

definition answered :: "http_world \<Rightarrow> nat \<Rightarrow> bool" where
  "answered w i \<longleftrightarrow> (\<exists>r. bc_writes (hs_conns w (fst (hs_log w ! i))) = [r] \<and>
     answers (snd (hs_log w ! i)) (Suc (counted (take i (hs_log w))) mod 2 ^ 64) r)"

definition log_inv :: "http_world \<Rightarrow> bool" where
  "log_inv w \<longleftrightarrow> distinct (map fst (hs_log w)) \<and> fst ` set (hs_log w) \<subseteq> {..<hs_new w} \<and>
     hs_count w = counted (hs_log w) mod 2 ^ 64 \<and> (\<forall>i < length (hs_log w). answered w i)"

definition http_inv :: "http_world \<Rightarrow> bool" where
  "http_inv w \<longleftrightarrow> hs_accepting w \<and> log_inv w \<and> (\<forall>p < hs_new w. beast_inv w p)"

lemma answered_other:
  assumes "log_inv w" and "i < length (hs_log w)" and "hs_log w' = hs_log w"
    and "\<And>p. p < hs_new w \<Longrightarrow> bc_writes (hs_conns w' p) = bc_writes (hs_conns w p)"
  shows "answered w' i"
proof -
  have "fst (hs_log w ! i) \<in> fst ` set (hs_log w)" using assms(2) by simp
  then have "fst (hs_log w ! i) < hs_new w" using assms(1) unfolding log_inv_def by blast
  with assms show ?thesis by (simp add: answered_def log_inv_def)
qed

lemma log_inv_other:
  assumes "log_inv w" and "hs_log w' = hs_log w" and "hs_count w' = hs_count w" and "hs_new w \<le> hs_new w'"
    and "\<And>p. p < hs_new w \<Longrightarrow> bc_writes (hs_conns w' p) = bc_writes (hs_conns w p)"
  shows "log_inv w'"
  using assms answered_other [OF assms(1) _ assms(2,5)] unfolding log_inv_def by (auto simp: subset_iff)

text \<open>A step on one connection that does not start a write.\<close>

lemma http_inv_set_conn:
  assumes "http_inv w" and "bc_writes c = bc_writes (hs_conns w p)" and "p < hs_new w" and "beast_inv (set_conn p c w) p"
  shows "http_inv (set_conn p c w)"
proof -
  have "log_inv (set_conn p c w)"
    by (rule log_inv_other [of w]) (use assms(1,2) in \<open>simp_all add: http_inv_def set_conn_def\<close>)
  moreover have "beast_inv (set_conn p c w) q" if "q < hs_new w" for q
    using assms(1,4) that by (cases "q = p") (simp_all add: http_inv_def beast_inv_def set_conn_def)
  ultimately show ?thesis using assms(1) by (simp add: http_inv_def set_conn_def)
qed

lemma http_inv_accept:
  assumes "http_inv w"
  shows "http_inv (http_accepted ec w)"
proof (cases ec)
  case None
  define w' where "w' = http_accepted ec w"
  let ?c = "http_start (http_connection no_request)"
  have w': "hs_conns w' = (hs_conns w)(hs_new w := ?c)" "hs_new w' = Suc (hs_new w)" "hs_log w' = hs_log w" "hs_count w' = hs_count w"
    "hs_accepting w'" "hs_now w' = hs_now w" "hs_started w' = (hs_started w)(hs_new w := hs_now w)"
    using None by (simp_all add: w'_def http_accepted_def http_listen_def Let_def)
  have "log_inv w'" by (rule log_inv_other [of w]) (use assms w' in \<open>simp_all add: http_inv_def\<close>)
  moreover have "beast_inv w' q" if "q < hs_new w" for q using assms that w' by (simp add: http_inv_def beast_inv_def)
  moreover have "beast_inv w' (hs_new w)"
    using w' by (simp add: beast_inv_def http_start_def http_connection_def http_alive_def)
  ultimately show ?thesis using w' by (simp add: http_inv_def less_Suc_eq flip: w'_def)
next
  case (Some e)
  then have "http_accepted ec w = w" using assms by (simp add: http_accepted_def http_listen_def http_inv_def)
  with assms show ?thesis by simp
qed

lemma http_inv_deliver:
  assumes "http_inv w" and "p < hs_new w" and "bc_reading (hs_conns w p)" and "bc_open (hs_conns w p)"
  shows "http_inv (http_deliver p t req w)"
proof -
  let ?c0 = "(hs_conns w p)\<lparr>bc_request := req\<rparr>"
  define x where "x = http_on_read None t ?c0 (hs_count w)"
  define w' where "w' = http_deliver p t req w"
  have w': "hs_conns w' = (hs_conns w)(p := fst x)" "hs_new w' = hs_new w" "hs_log w' = hs_log w @ [(p, t, req)]" "hs_count w' = snd x"
    "hs_accepting w' = hs_accepting w" "hs_now w' = hs_now w" "hs_started w' = hs_started w"
    by (simp_all add: w'_def http_deliver_def set_conn_def x_def split: prod.split)
  have cp: "beast_inv w p" and li: "log_inv w" using assms(1,2) by (simp_all add: http_inv_def)
  have c0: "bc_response ?c0 = new_response" "bc_writes ?c0 = []" "bc_request ?c0 = req" using cp assms(3) by (simp_all add: beast_inv_def Let_def)
  note x = http_on_read_any [OF c0, of t "hs_count w", folded x_def]
  have cnt: "Suc (hs_count w) mod 2 ^ 64 = Suc (counted (hs_log w)) mod 2 ^ 64" using li by (simp add: log_inv_def mod_Suc_eq)
  have pl: "p \<notin> fst ` set (hs_log w)"
  proof
    assume "p \<in> fst ` set (hs_log w)"
    then obtain i where "i < length (hs_log w)" "fst (hs_log w ! i) = p" by (auto simp: in_set_conv_nth)
    with li c0(2) show False by (auto simp: log_inv_def answered_def)
  qed
  have "answered w' i" if "i < length (hs_log w')" for i
  proof (cases "i < length (hs_log w)")
    case True
    then have "answered w i" "fst (hs_log w ! i) \<noteq> p" using li pl by (auto simp: log_inv_def)
    with True show ?thesis by (simp add: answered_def w' nth_append)
  next
    case False
    with that have "i = length (hs_log w)" by (simp add: w')
    with x(1,3) cnt show ?thesis by (simp add: answered_def w')
  qed
  then have "log_inv w'" using li pl x(2) cnt assms(2) by (auto simp: log_inv_def w')
  moreover have "beast_inv w' q" if "q < hs_new w" for q
  proof (cases "q = p")
    case True
    with cp x assms(3,4) show ?thesis by (auto simp: beast_inv_def w' Let_def http_alive_def)
  next
    case False
    with assms(1) that have "beast_inv w q" by (simp add: http_inv_def)
    with False show ?thesis by (auto simp: beast_inv_def w' Let_def)
  qed
  ultimately show ?thesis using assms(1) by (simp add: http_inv_def w' flip: w'_def)
qed

lemma http_inv_step:
  assumes "http_step w w'" and "http_inv w"
  shows "http_inv w'"
  using assms(1)
proof (cases rule: http_step.cases)
  case (accept ec)
  with assms(2) show ?thesis by (simp add: http_inv_accept)
next
  case (deliver p t req)
  with assms(2) show ?thesis by (simp add: http_inv_deliver)
next
  case (read_failed p e t)
  then have c: "beast_inv w p" using assms(2) by (simp add: http_inv_def)
  show ?thesis unfolding read_failed(1) using read_failed assms(2) c
    by (intro http_inv_set_conn) (auto simp: http_on_read_def beast_inv_def set_conn_def http_alive_def http_writing_def Let_def)
next
  case (written p)
  then have c: "beast_inv w p" using assms(2) by (simp add: http_inv_def)
  show ?thesis unfolding written(1) using written assms(2) c
    by (intro http_inv_set_conn) (auto simp: http_on_written_def beast_inv_def set_conn_def http_alive_def http_writing_def Let_def)
next
  case (deadline p)
  then have c: "beast_inv w p" using assms(2) by (simp add: http_inv_def)
  show ?thesis unfolding deadline(1) using deadline assms(2) c
    by (intro http_inv_set_conn) (auto simp: http_on_deadline_def beast_inv_def set_conn_def http_alive_def http_writing_def Let_def)
next
  case tick
  have "beast_inv w' p" if "p < hs_new w" for p
  proof -
    have "beast_inv w p" "settled w p" using assms(2) tick(2) that by (simp_all add: http_inv_def)
    then show ?thesis unfolding tick(1) by (auto simp: beast_inv_def settled_def Let_def http_alive_def http_writing_def)
  qed
  moreover have "log_inv w'" by (rule log_inv_other [of w]) (use assms(2) tick(1) in \<open>simp_all add: http_inv_def\<close>)
  ultimately show ?thesis using assms(2) tick(1) by (simp add: http_inv_def)
qed

lemma http_inv_reachable:
  assumes "http_main True = Inr w0" and "http_step\<^sup>*\<^sup>* w0 w"
  shows "http_inv w"
  using assms(2)
proof (induction rule: rtranclp_induct)
  case base
  then show ?case using assms(1) by (auto simp: http_main_def http_listen_def http_inv_def log_inv_def)
next
  case (step y z)
  then show ?case by (blast intro: http_inv_step)
qed

section \<open>Time passes\<close>

lemma set_conn_simps [simp]:
  "hs_conns (set_conn p c w) = (hs_conns w)(p := c)" "hs_new (set_conn p c w) = hs_new w" "hs_now (set_conn p c w) = hs_now w"
  "hs_started (set_conn p c w) = hs_started w" "set_conn p (hs_conns w p) w = w" "set_conn p d (set_conn p c w) = set_conn p d w"
  by (simp_all add: set_conn_def)

text \<open>Whatever is due on a connection can be run.\<close>

lemma settle_one:
  assumes "p < hs_new w"
  shows "\<exists>c. http_step\<^sup>*\<^sup>* w (set_conn p c w) \<and> settled (set_conn p c w) p"
proof -
  define c where "c = hs_conns w p"
  define c1 where "c1 = (if bc_timer c \<and> hs_started w p + DEADLINE \<le> hs_now w then http_on_deadline None (c\<lparr>bc_timer := False\<rparr>) else c)"
  define c2 where "c2 = (if \<not> bc_open c1 \<and> bc_reading c1 then c1\<lparr>bc_reading := False\<rparr> else c1)"
  define c3 where "c3 = (if \<not> bc_open c2 \<and> http_writing c2 then http_on_written c2 else c2)"
  have "http_step\<^sup>*\<^sup>* w (set_conn p c1 w)"
    using http_step.deadline [of p w] assms by (auto simp: c1_def c_def)
  also have "http_step\<^sup>*\<^sup>* (set_conn p c1 w) (set_conn p c2 w)"
    using http_step.read_failed [of p "set_conn p c1 w" Eof 0] assms by (auto simp: c2_def http_on_read_def)
  also have "http_step\<^sup>*\<^sup>* (set_conn p c2 w) (set_conn p c3 w)"
    using http_step.written [of p "set_conn p c2 w"] assms by (auto simp: c3_def)
  finally have "http_step\<^sup>*\<^sup>* w (set_conn p c3 w)" .
  moreover have "settled (set_conn p c3 w) p"
    by (auto simp: settled_def c3_def c2_def c1_def http_on_deadline_def http_on_written_def http_writing_def)
  ultimately show ?thesis by blast
qed

definition same_clients :: "http_world \<Rightarrow> http_world \<Rightarrow> bool" where
  "same_clients w w' \<longleftrightarrow> hs_new w' = hs_new w \<and> hs_started w' = hs_started w"

lemma settle_all:
  assumes "k \<le> hs_new w"
  shows "\<exists>w'. http_step\<^sup>*\<^sup>* w w' \<and> same_clients w w' \<and> hs_now w' = hs_now w \<and> (\<forall>p < k. settled w' p)"
  using assms
proof (induction k)
  case 0
  show ?case by (intro exI [of _ w]) (simp add: same_clients_def)
next
  case (Suc k)
  then obtain w1 where w1: "http_step\<^sup>*\<^sup>* w w1" "same_clients w w1" "hs_now w1 = hs_now w" "\<forall>p < k. settled w1 p" by auto
  then obtain c where c: "http_step\<^sup>*\<^sup>* w1 (set_conn k c w1)" "settled (set_conn k c w1) k"
    using settle_one [of k w1] Suc.prems by (auto simp: same_clients_def)
  have "settled (set_conn k c w1) p" if "p < Suc k" for p
    using that w1(4) c(2) by (cases "p = k") (auto simp: settled_def)
  with w1 c show ?case by (intro exI [of _ "set_conn k c w1"]) (auto simp: same_clients_def)
qed

lemma clock_advances: "\<exists>w'. http_step\<^sup>*\<^sup>* w w' \<and> same_clients w w' \<and> hs_now w' = hs_now w + k"
proof (induction k)
  case 0
  show ?case by (intro exI [of _ w]) (simp add: same_clients_def)
next
  case (Suc k)
  then obtain w1 where w1: "http_step\<^sup>*\<^sup>* w w1" "same_clients w w1" "hs_now w1 = hs_now w + k" by auto
  obtain w2 where w2: "http_step\<^sup>*\<^sup>* w1 w2" "same_clients w1 w2" "hs_now w2 = hs_now w1" "\<forall>p < hs_new w1. settled w2 p"
    using settle_all [of "hs_new w1" w1] by auto
  then have "http_step w2 (w2\<lparr>hs_now := Suc (hs_now w2)\<rparr>)" by (intro http_step.tick) (simp add: same_clients_def)
  with w1 w2 show ?case
    by (intro exI [of _ "w2\<lparr>hs_now := Suc (hs_now w2)\<rparr>"]) (auto simp: same_clients_def)
qed

text \<open>What holds of a connection whose read has failed.\<close>

definition lingering :: "nat \<Rightarrow> nat \<Rightarrow> http_world \<Rightarrow> bool" where
  "lingering p s w \<longleftrightarrow> p < hs_new w \<and> hs_started w p = s \<and> (hs_now w < s + DEADLINE \<longrightarrow>
     bc_open (hs_conns w p) \<and> bc_timer (hs_conns w p) \<and> \<not> bc_reading (hs_conns w p) \<and> bc_writes (hs_conns w p) = [])"

lemma lingering_step: "http_step w w' \<Longrightarrow> lingering p s w \<Longrightarrow> lingering p s w'"
  by (cases rule: http_step.cases)
    (auto simp: lingering_def http_accepted_def http_listen_def http_deliver_def http_writing_def http_on_deadline_def Let_def split: prod.splits if_splits)

section \<open>Properties\<close>

text \<open>
  C23. The server answers from its table in every interleaving of its connections: after any sequence of
  accepts, requests, failed reads, finished writes and deadlines, an accept is pending, no
  connection has been given more than one response, and the response to the \<open>i\<close>-th request
  processed is the one its method and target ask for, where a GET of \<open>/count\<close> says how many of
  them there have been so far, on all connections together, modulo \<open>2 ^ 64\<close>.
\<close>

theorem http_answers_interleaved:
  assumes "http_main True = Inr w0" and "http_step\<^sup>*\<^sup>* w0 w"
  shows "hs_accepting w \<and> hs_count w = counted (hs_log w) mod 2 ^ 64 \<and> distinct (map fst (hs_log w)) \<and>
     (\<forall>p < hs_new w. p \<notin> set (map fst (hs_log w)) \<longrightarrow> bc_writes (hs_conns w p) = []) \<and>
     (\<forall>i < length (hs_log w). \<exists>r. bc_writes (hs_conns w (fst (hs_log w ! i))) = [r] \<and>
        answers (snd (hs_log w ! i)) (Suc (counted (take i (hs_log w))) mod 2 ^ 64) r)"
  using http_inv_reachable [OF assms] by (auto simp: http_inv_def log_inv_def answered_def beast_inv_def Let_def)

theorem http_answers_interleaved_witness:
  "\<exists>w0 w. http_main True = Inr w0 \<and> http_step\<^sup>*\<^sup>* w0 w \<and>
     map fst (hs_log w) = [1, 0] \<and> hs_count w = 2"
proof -
  let ?q = "\<lparr>rq_version = 11, rq_method = Verb_get, rq_target = ''/count'', rq_body = []\<rparr>"
  obtain w0 where w0: "http_main True = Inr w0" by (simp add: http_main_def)
  define w1 where "w1 = http_accepted None (http_accepted None w0)"
  define w2 where "w2 = http_deliver 1 0 ?q w1"
  define w3 where "w3 = http_deliver 0 5 ?q w2"
  note d = http_main_def http_listen_def http_accepted_def w1_def Let_def http_start_def http_connection_def
  have i: "hs_accepting w0" "hs_accepting (http_accepted None w0)" "hs_new w1 = 2" "hs_log w1 = []"
    "bc_reading (hs_conns w1 q) = (q < 2)" "bc_open (hs_conns w1 q)" for q using w0 [symmetric] by (auto simp: d)
  have "http_step\<^sup>*\<^sup>* w0 (http_accepted None w0)" using i(1) by (blast intro: http_step.accept)
  also have "http_step\<^sup>*\<^sup>* (http_accepted None w0) w1" unfolding w1_def using i(2) by (blast intro: http_step.accept)
  also have "http_step\<^sup>*\<^sup>* w1 w2" unfolding w2_def by (rule r_into_rtranclp, rule http_step.deliver) (simp_all add: i)
  also have "http_step\<^sup>*\<^sup>* w2 w3" unfolding w3_def
    by (rule r_into_rtranclp, rule http_step.deliver) (simp_all add: w2_def http_deliver_def i split: prod.split)
  finally have r: "http_step\<^sup>*\<^sup>* w0 w3" .
  have l: "hs_log w3 = [(1, 0, ?q), (0, 5, ?q)]" using i(4) by (simp add: w3_def w2_def http_deliver_def set_conn_def split: prod.split)
  have "hs_count w3 = 2" using http_answers_interleaved [OF w0 r] l by (simp add: counted_def is_count_def)
  with w0 r l show ?thesis by auto
qed

text \<open>
  C24. The deadline bounds the life of every connection: in every reachable state a connection that
  still has a read, a write or a timer pending was accepted at most 60 seconds ago, and the clock
  is never stuck: from every reachable state the server can run on for any number of seconds, and
  after 61 of them all connections there were are gone.
\<close>

theorem http_deadline_bounds:
  assumes "http_main True = Inr w0" and "http_step\<^sup>*\<^sup>* w0 w"
  shows "(\<forall>p < hs_new w. http_alive (hs_conns w p) \<longrightarrow> hs_now w \<le> hs_started w p + 60) \<and>
     (\<exists>w'. http_step\<^sup>*\<^sup>* w w' \<and> hs_now w' = hs_now w + 61 \<and> (\<forall>p < hs_new w. \<not> http_alive (hs_conns w' p)))"
proof
  have inv: "beast_inv w p" if "p < hs_new w" for p using http_inv_reachable [OF assms] that by (simp add: http_inv_def)
  then show "\<forall>p < hs_new w. http_alive (hs_conns w p) \<longrightarrow> hs_now w \<le> hs_started w p + 60" by (simp add: beast_inv_def DEADLINE_def Let_def)
  obtain w' where w': "http_step\<^sup>*\<^sup>* w w'" "same_clients w w'" "hs_now w' = hs_now w + 61" using clock_advances by blast
  then have "http_inv w'" using http_inv_reachable [OF assms(1)] assms(2) by (meson rtranclp_trans)
  have "\<not> http_alive (hs_conns w' p)" if "p < hs_new w" for p
  proof -
    have "beast_inv w' p" "hs_started w p \<le> hs_now w" using \<open>http_inv w'\<close> inv [OF that] that w'(2)
      by (simp_all add: http_inv_def same_clients_def beast_inv_def Let_def)
    with w'(2,3) show ?thesis by (auto simp: beast_inv_def same_clients_def DEADLINE_def Let_def)
  qed
  with w'(1,3) show "\<exists>w'. http_step\<^sup>*\<^sup>* w w' \<and> hs_now w' = hs_now w + 61 \<and> (\<forall>p < hs_new w. \<not> http_alive (hs_conns w' p))" by blast
qed

theorem http_deadline_bounds_witness:
  "\<exists>w w'. http_step\<^sup>*\<^sup>* w w' \<and> http_alive (hs_conns w 0) \<and> hs_now w' = hs_now w + 61 \<and> \<not> http_alive (hs_conns w' 0)"
proof -
  obtain w0 where w0: "http_main True = Inr w0" by (simp add: http_main_def)
  let ?w = "http_accepted None w0"
  have "hs_accepting w0" using w0 [symmetric] by (auto simp: http_main_def http_listen_def)
  then have "http_step\<^sup>*\<^sup>* w0 ?w" by (blast intro: http_step.accept)
  from http_deadline_bounds [OF w0 this] obtain w' where
    "http_step\<^sup>*\<^sup>* ?w w'" "hs_now w' = hs_now ?w + 61" "\<forall>p < hs_new ?w. \<not> http_alive (hs_conns w' p)" by blast
  moreover have "hs_new ?w = 1" "http_alive (hs_conns ?w 0)"
    using w0 [symmetric] by (auto simp: http_main_def http_listen_def http_accepted_def http_start_def http_alive_def)
  ultimately show ?thesis by auto
qed

text \<open>
  A request that cannot be read is not answered, and its connection is not closed either: after a
  failed read the timer still holds the connection, and until the 60 seconds are over its socket
  stays open with nothing written, whatever else happens in the server.
\<close>

theorem http_failed_read_lingers:
  assumes "p < hs_new w" and "http_inv w" and "bc_reading (hs_conns w p)" and "bc_open (hs_conns w p)"
    and "http_step\<^sup>*\<^sup>* (set_conn p (fst (http_on_read (Some e) t (hs_conns w p) (hs_count w))) w) w'"
    and "hs_now w' < hs_started w p + 60"
  shows "http_alive (hs_conns w' p) \<and> bc_open (hs_conns w' p) \<and> bc_writes (hs_conns w' p) = []"
proof -
  let ?w = "set_conn p (fst (http_on_read (Some e) t (hs_conns w p) (hs_count w))) w"
  have "beast_inv w p" using assms(1,2) by (simp add: http_inv_def)
  then have "lingering p (hs_started w p) ?w"
    using assms(1,3,4) by (simp add: lingering_def http_on_read_def beast_inv_def Let_def)
  with assms(5) have "lingering p (hs_started w p) w'"
    by (induction rule: rtranclp_induct) (blast intro: lingering_step)+
  with assms(6) show ?thesis by (simp add: lingering_def http_alive_def DEADLINE_def)
qed

end
