(* ===== verification/Server_Main.thy ===== *)
theory Server_Main
  imports Coro_Logic Web_Socket
begin

text \<open>
  The \<open>main\<close> functions of the asio servers: \<open>3. AsyncServerIOservicepool/src/main.cpp\<close> and
  \<open>4. CoroutineAsyncServer/src/CoroutineServer.cpp\<close>, which stop on a signal, \<open>main\<close> of
  \<open>2. AsyncServer/src/AsyncServer.cpp\<close> and of \<open>6. WebSocketServer/src/beast_websocket.cpp\<close>. A program is
  followed from its start to its end: construction of the pool and of the server, the events that
  \<open>io_context::run\<close> dispatches, messages of the clients, the signal handler with \<open>Stop\<close> of the pool,
  and the destruction of the two static objects when \<open>main\<close> has returned: the pool, and the logic
  layer, which exists from the first message on.
\<close>

section \<open>The end of a process\<close>

datatype process_end =
    Running         \<comment> \<open>\<open>run\<close> waits for more events\<close>
  | Exited int      \<comment> \<open>the destructors have run\<close>
  | Std_Terminate   \<comment> \<open>\<open>std::terminate\<close>\<close>
  | Hanging         \<comment> \<open>blocked in \<open>join\<close>\<close>
  | Faulted fault

text \<open>
  The two static \<open>_instance\<close> pointers are destroyed after \<open>main\<close>. Destroying a thread of the pool that is
  still joinable calls \<open>std::terminate\<close>. If a message has made the logic layer (\<open>logic\<close>), its destructor
  joins the worker; \<open>joins\<close> says whether that \<open>join\<close> returns, which is up to the schedule: the worker can
  miss the notification of the destructor and then waits for ever, as \<open>Logic_System\<close> shows. The two
  are static members of instances of a template, whose order of destruction is not specified:
  \<open>logic_first\<close> chooses it.
\<close>

record exit_schedule =
  logic_first :: bool
  joins :: bool

definition exit_process :: "exit_schedule \<Rightarrow> int \<Rightarrow> AsioIOServicePool singleton \<Rightarrow> bool \<Rightarrow> process_end" where
  "exit_process x code st logic =
     (let terminates = (case s_instance st of None \<Rightarrow> False | Some pool \<Rightarrow> True \<in> set (pool_threads pool));
          hangs = (logic \<and> \<not> joins x)
      in if hangs \<and> logic_first x then Hanging
         else if terminates then Std_Terminate
         else if hangs then Hanging
         else Exited code)"

section \<open>The events of the main context\<close>

text \<open>
  What happens while \<open>run\<close> runs: the pending accept completes, a session receives a message or ends on
  its own thread because its client does, SIGINT or SIGTERM arrives, or a handler throws.
\<close>

datatype main_event = Accept_Done "asio_error option" string | Message nat | Session_Ends nat | Signal | Handler_Throws

record main_state =
  mn_server :: tlv_server
  mn_live :: "nat list"
  mn_logic :: bool

text \<open>\<open>accept\<close> is \<open>HandleAccept\<close> of the server.\<close>

type_synonym accept_handler = "string \<Rightarrow> nat \<Rightarrow> asio_error option \<Rightarrow> tlv_server \<Rightarrow> tlv_server res"

definition session_ends :: "nat \<Rightarrow> main_state \<Rightarrow> main_state" where
  "session_ends p m =
     (if p \<in> set (mn_live m) then
        m\<lparr>mn_server := tlv_ClearSession (ts_uuid (tv_heap (mn_server m) p)) (mn_server m), mn_live := removeAll p (mn_live m)\<rparr>
      else m)"

text \<open>The first message makes the logic layer: \<open>LogicSystem::GetInstance()\<close> in \<open>HandleReadBody\<close> and in the coroutine.\<close>

definition message_posted :: "nat \<Rightarrow> main_state \<Rightarrow> main_state" where
  "message_posted p m = (if p \<in> set (mn_live m) then m\<lparr>mn_logic := True\<rparr> else m)"

fun main_dispatch :: "accept_handler \<Rightarrow> main_event \<Rightarrow> main_state \<Rightarrow> main_state res" where
  "main_dispatch accept (Accept_Done err uuid) m =
     (case tv_accepting (mn_server m) of
        None \<Rightarrow> Inr m
      | Some p \<Rightarrow>
          bindr (accept uuid p err (mn_server m)) (\<lambda>sv.
          Inr (m\<lparr>mn_server := sv, mn_live := (if err = None then mn_live m @ [p] else mn_live m)\<rparr>)))"
| "main_dispatch accept (Message p) m = Inr (message_posted p m)"
| "main_dispatch accept (Session_Ends p) m = Inr (session_ends p m)"
| "main_dispatch accept _ m = Inr m"

datatype run_exit = Runs | Signalled "main_event list" | Raised

fun run_context :: "accept_handler \<Rightarrow> main_event list \<Rightarrow> main_state \<Rightarrow> (run_exit \<times> main_state) res" where
  "run_context accept [] m = Inr (Runs, m)"
| "run_context accept (Signal # es) m = Inr (Signalled es, m)"
| "run_context accept (Handler_Throws # es) m = Inr (Raised, m)"
| "run_context accept (e # es) m = bindr (main_dispatch accept e m) (run_context accept es)"

text \<open>
  While the signal handler waits in \<open>Stop\<close> the main context dispatches nothing, not even a second
  signal; the sessions go on.
\<close>

fun during_stop :: "main_event list \<Rightarrow> main_state \<Rightarrow> main_state" where
  "during_stop [] m = m"
| "during_stop (Message p # es) m = during_stop es (message_posted p m)"
| "during_stop (Session_Ends p # es) m = during_stop es (session_ends p m)"
| "during_stop (_ # es) m = during_stop es m"

text \<open>The contexts with what is pending on them: every live session has a read outstanding on the context of its socket.\<close>

definition load_contexts :: "main_state \<Rightarrow> AsioIOServicePool \<Rightarrow> AsioIOServicePool" where
  "load_contexts m pool = pool\<lparr>pool_ioServices :=
     map (\<lambda>i. (pool_ioServices pool ! i)\<lparr>io_pending := length (filter (\<lambda>p. tv_context (mn_server m) p = i) (mn_live m))\<rparr>)
       [0..<length (pool_ioServices pool)]\<rparr>"

section \<open>The programs\<close>

text \<open>The argument \<open>returns\<close> says whether \<open>run\<close> of a context returns, \<open>hw\<close> is \<open>hardware_concurrency\<close>, \<open>x\<close> the schedule of the exit.\<close>

definition pooled_main :: "(io_service \<Rightarrow> bool) \<Rightarrow> exit_schedule \<Rightarrow> nat \<Rightarrow> bool \<Rightarrow> string \<Rightarrow> main_event list \<Rightarrow> process_end" where
  "pooled_main returns x hw bind_ok uuid es =
     (let (st, pool) = GetInstance (pool3_ctor hw) singleton_init in
      if \<not> bind_ok then exit_process x 0 st False
      else
        case tlv_StartAccept hw uuid \<lparr>tv_sessions = Map.empty, tv_heap = (\<lambda>_. tlv_Session []), tv_context = (\<lambda>_. 0), tv_new = 0,
               tv_accepting = None, tv_pool = st\<rparr> of
          Inl f \<Rightarrow> Faulted f
        | Inr s \<Rightarrow>
            (case run_context (tlv_HandleAccept hw) es \<lparr>mn_server = s, mn_live = [], mn_logic = False\<rparr> of
               Inl f \<Rightarrow> Faulted f
             | Inr (Runs, m) \<Rightarrow> Running
             | Inr (Raised, m) \<Rightarrow> exit_process x 0 (tv_pool (mn_server m)) (mn_logic m)
             | Inr (Signalled rest, m) \<Rightarrow>
                 (let m = during_stop rest m in
                  case s_instance (tv_pool (mn_server m)) of
                    None \<Rightarrow> Faulted Null_Deref
                  | Some pool \<Rightarrow>
                      (case pool3_Stop returns (load_contexts m pool) of
                         None \<Rightarrow> Hanging
                       | Some (Inl f) \<Rightarrow> Faulted f
                       | Some (Inr pool) \<Rightarrow> exit_process x 0 ((tv_pool (mn_server m))\<lparr>s_instance := Some pool\<rparr>) (mn_logic m)))))"

text \<open>\<open>HandleAccept\<close> of the coroutine server in one piece, for the events of the main context.\<close>

definition coro_handle_accept :: "nat \<Rightarrow> accept_handler" where
  "coro_handle_accept hw next_uuid p err sv =
     (let sv = sv\<lparr>tv_accepting := None\<rparr>;
          sv = (if err = None then
                  (let sv = sv\<lparr>tv_heap := (tv_heap sv)(p := tlv_Start (tv_heap sv p))\<rparr>
                   in sv\<lparr>tv_sessions := map_insert (ts_uuid (tv_heap sv p)) p (tv_sessions sv)\<rparr>)
                else sv)
      in coro_StartAccept hw next_uuid sv)"

definition coro_main :: "(io_service \<Rightarrow> bool) \<Rightarrow> exit_schedule \<Rightarrow> nat \<Rightarrow> bool \<Rightarrow> string \<Rightarrow> main_event list \<Rightarrow> process_end" where
  "coro_main returns x hw bind_ok uuid es =
     (let (st, pool) = GetInstance (pool4_ctor hw) singleton_init in
      if \<not> bind_ok then exit_process x 0 st False
      else
        case coro_StartAccept hw uuid \<lparr>tv_sessions = Map.empty, tv_heap = (\<lambda>_. tlv_Session []), tv_context = (\<lambda>_. 0), tv_new = 0,
               tv_accepting = None, tv_pool = st\<rparr> of
          Inl f \<Rightarrow> Faulted f
        | Inr s \<Rightarrow>
            (case run_context (coro_handle_accept hw) es \<lparr>mn_server = s, mn_live = [], mn_logic = False\<rparr> of
               Inl f \<Rightarrow> Faulted f
             | Inr (Runs, m) \<Rightarrow> Running
             | Inr (Raised, m) \<Rightarrow> exit_process x 0 (tv_pool (mn_server m)) (mn_logic m)
             | Inr (Signalled rest, m) \<Rightarrow>
                 (let m = during_stop rest m in
                  case s_instance (tv_pool (mn_server m)) of
                    None \<Rightarrow> Faulted Null_Deref
                  | Some pool \<Rightarrow>
                      (case pool4_Stop returns (load_contexts m pool) of
                         None \<Rightarrow> Hanging
                       | Some (Inl f) \<Rightarrow> Faulted f
                       | Some (Inr pool) \<Rightarrow> exit_process x 0 ((tv_pool (mn_server m))\<lparr>s_instance := Some pool\<rparr>) (mn_logic m)))))"

text \<open>The programs without a signal handler: the server when it starts to run, or how the process ends.\<close>

definition async_main :: "bool \<Rightarrow> string \<Rightarrow> process_end + async_server" where
  "async_main bind_ok uuid =
     (if bind_ok then
        Inr (async_start_accept uuid \<lparr>sv_sessions = Map.empty, sv_heap = (\<lambda>_. async_Session []), sv_next = 0, sv_accepting = None\<rparr>)
      else Inl (Exited 0))"

definition ws_main :: "bool \<Rightarrow> string \<Rightarrow> process_end + ws_server" where
  "ws_main bind_ok uuid =
     (if bind_ok then
        Inr (ws_StartAccept uuid \<lparr>ws_conns = (\<lambda>_. ws_Connection []), ws_new = 0, ws_accepting = None, ws_handshakes = []\<rparr>)
      else Inl Std_Terminate)"

section \<open>The main context\<close>

text \<open>The documented behaviour of \<open>run\<close>: it returns when the context is stopped or has no work left.\<close>

definition asio_run :: "(io_service \<Rightarrow> bool) \<Rightarrow> bool" where
  "asio_run returns \<longleftrightarrow> (\<forall>c. returns c = (io_stopped c \<or> \<not> io_work c \<and> io_pending c = 0))"

definition uneventful :: "main_event list \<Rightarrow> bool" where
  "uneventful es \<longleftrightarrow> Signal \<notin> set es \<and> Handler_Throws \<notin> set es"

text \<open>The clients connected after some events: the \<open>k\<close>-th accept, if it succeeds, makes the session \<open>k\<close>.\<close>

fun clients :: "nat \<Rightarrow> nat list \<Rightarrow> main_event list \<Rightarrow> nat list" where
  "clients k live [] = live"
| "clients k live (Accept_Done err uuid # es) = clients (Suc k) (if err = None then live @ [k] else live) es"
| "clients k live (Session_Ends p # es) = clients k (removeAll p live) es"
| "clients k live (_ # es) = clients k live es"

text \<open>Whether one of them sends a message.\<close>

fun posts :: "nat \<Rightarrow> nat list \<Rightarrow> main_event list \<Rightarrow> bool" where
  "posts k live [] \<longleftrightarrow> False"
| "posts k live (Accept_Done err uuid # es) \<longleftrightarrow> posts (Suc k) (if err = None then live @ [k] else live) es"
| "posts k live (Message p # es) \<longleftrightarrow> p \<in> set live \<or> posts k live es"
| "posts k live (Session_Ends p # es) \<longleftrightarrow> posts k (removeAll p live) es"
| "posts k live (_ # es) \<longleftrightarrow> posts k live es"

text \<open>What a session may do while the main thread is in \<open>Stop\<close>.\<close>

definition of_session :: "main_event \<Rightarrow> bool" where
  "of_session e \<longleftrightarrow> (case e of Message _ \<Rightarrow> True | Session_Ends _ \<Rightarrow> True | _ \<Rightarrow> False)"

text \<open>The logic layer exists when \<open>main\<close> returns after the events \<open>es\<close>, a signal, and the events \<open>rest\<close>.\<close>

definition logic_made :: "main_event list \<Rightarrow> main_event list \<Rightarrow> bool" where
  "logic_made es rest \<longleftrightarrow> posts 0 [] es \<or> posts 0 (clients 0 [] es) (filter of_session rest)"

definition leaves :: "main_event list \<Rightarrow> nat \<Rightarrow> bool" where
  "leaves es p \<longleftrightarrow> Session_Ends p \<in> set es"

lemma tlv_HandleAccept_new:
  assumes "tlv_HandleAccept hw uuid p err sv = Inr sv'"
  shows "tv_new sv' = Suc (tv_new sv)"
  using assms by (auto simp: tlv_HandleAccept_def tlv_StartAccept_def Let_def bindr_eq_Inr split: prod.splits option.splits if_splits)

definition main_inv :: "nat \<Rightarrow> main_state \<Rightarrow> bool" where
  "main_inv n m \<longleftrightarrow> server_wf n (mn_server m) \<and> set (mn_live m) \<subseteq> {..<tv_new (mn_server m)}"

lemma main_inv_ends: "main_inv n m \<Longrightarrow> main_inv n (session_ends p m)"
  by (auto simp: main_inv_def session_ends_def server_wf_clear) (auto simp: tlv_ClearSession_def)

lemma session_ends_simps [simp]:
  "mn_live (session_ends p m) = removeAll p (mn_live m)" "tv_new (mn_server (session_ends p m)) = tv_new (mn_server m)"
  by (simp_all add: session_ends_def tlv_ClearSession_def)

lemma session_ends_logic [simp]: "mn_logic (session_ends p m) = mn_logic m"
  by (simp add: session_ends_def)

lemma message_posted_simps [simp]:
  "mn_live (message_posted p m) = mn_live m" "mn_server (message_posted p m) = mn_server m"
  "mn_logic (message_posted p m) \<longleftrightarrow> p \<in> set (mn_live m) \<or> mn_logic m"
  by (simp_all add: message_posted_def)

lemma main_inv_message [simp]: "main_inv n (message_posted p m) = main_inv n m"
  by (simp add: main_inv_def)

lemma main_inv_accept:
  assumes "0 < n" and "main_inv n m"
  shows "\<exists>m'. main_dispatch (tlv_HandleAccept n) (Accept_Done err uuid) m = Inr m' \<and> main_inv n m' \<and>
     tv_new (mn_server m') = Suc (tv_new (mn_server m)) \<and>
     mn_live m' = (if err = None then mn_live m @ [tv_new (mn_server m) - 1] else mn_live m) \<and> mn_logic m' = mn_logic m"
proof -
  let ?p = "tv_new (mn_server m) - 1"
  have wf: "server_wf n (mn_server m)" "tv_accepting (mn_server m) = Some ?p" using assms(2) by (simp_all add: main_inv_def server_wf_def)
  from server_wf_accept [OF assms(1) wf(1), of uuid err] obtain sv where
    sv: "tlv_HandleAccept n uuid ?p err (mn_server m) = Inr sv" "server_wf n sv" by blast
  with wf(2) assms(2) tlv_HandleAccept_new [OF sv(1)] show ?thesis by (auto simp: main_inv_def)
qed

lemma run_context_uneventful:
  assumes "0 < n" and "uneventful es" and "main_inv n m"
  shows "\<exists>m'. run_context (tlv_HandleAccept n) (es @ rest) m = run_context (tlv_HandleAccept n) rest m' \<and> main_inv n m' \<and>
     mn_live m' = clients (tv_new (mn_server m) - 1) (mn_live m) es \<and>
     mn_logic m' = (mn_logic m \<or> posts (tv_new (mn_server m) - 1) (mn_live m) es)"
  using assms(2,3)
proof (induction es arbitrary: m)
  case (Cons e es)
  have es: "uneventful es" using Cons.prems(1) by (simp add: uneventful_def)
  show ?case
  proof (cases e)
    case (Accept_Done err uuid)
    from main_inv_accept [OF assms(1) Cons.prems(2), of err uuid] obtain m1 where
      m1: "main_dispatch (tlv_HandleAccept n) e m = Inr m1" "main_inv n m1" "tv_new (mn_server m1) = Suc (tv_new (mn_server m))"
        "mn_live m1 = (if err = None then mn_live m @ [tv_new (mn_server m) - 1] else mn_live m)" "mn_logic m1 = mn_logic m" unfolding Accept_Done by blast
    have "0 < tv_new (mn_server m)" using Cons.prems(2) by (simp add: main_inv_def server_wf_def)
    with Cons.IH [OF es m1(2)] m1 Accept_Done show ?thesis by (cases err) simp_all
  next
    case (Session_Ends p)
    with Cons.IH [OF es main_inv_ends [OF Cons.prems(2), of p]] show ?thesis by simp
  next
    case (Message p)
    with Cons.IH [OF es, of "message_posted p m"] Cons.prems(2) show ?thesis by auto
  qed (use Cons.prems(1) in \<open>simp_all add: uneventful_def\<close>)
qed auto

lemma during_stop_inv:
  assumes "main_inv n m"
  shows "main_inv n (during_stop es m) \<and> mn_live (during_stop es m) = filter (\<lambda>p. \<not> leaves es p) (mn_live m) \<and>
     mn_logic (during_stop es m) = (mn_logic m \<or> posts 0 (mn_live m) (filter of_session es))"
  using assms
proof (induction es m rule: during_stop.induct)
  case (3 p es m)
  then show ?case by (auto simp: of_session_def main_inv_ends leaves_def removeAll_filter_not_eq intro: filter_cong)
qed (auto simp: leaves_def of_session_def)

lemma main_start:
  assumes "0 < n"
  shows "\<exists>sv. tlv_StartAccept n uuid \<lparr>tv_sessions = Map.empty, tv_heap = (\<lambda>_. tlv_Session []), tv_context = (\<lambda>_. 0), tv_new = 0,
      tv_accepting = None, tv_pool = \<lparr>s_flag = True, s_instance = Some (pool_ready n)\<rparr>\<rparr> = Inr sv \<and>
    main_inv n \<lparr>mn_server = sv, mn_live = [], mn_logic = False\<rparr> \<and> tv_new sv = 1"
proof -
  have r: "pool_ready n\<lparr>pool_next := 0\<rparr> = pool_ready n" by (simp add: pool_ready_def)
  show ?thesis
    using assms tlv_StartAccept_ready [OF assms, of _ 0 uuid] r
    by (simp add: GetInstance_def main_inv_def server_wf_def map_find_def)
qed

section \<open>Stopping under load\<close>

lemma load_contexts_ready:
  assumes "main_inv n m"
  obtains k where "s_instance (tv_pool (mn_server m)) = Some (pool_ready n\<lparr>pool_next := k\<rparr>)"
    and "\<And>c. c \<in> set (pool_ioServices (load_contexts m (pool_ready n\<lparr>pool_next := k\<rparr>))) \<Longrightarrow> \<not> io_stopped c"
    and "(\<exists>c \<in> set (pool_ioServices (load_contexts m (pool_ready n\<lparr>pool_next := k\<rparr>))). 0 < io_pending c) \<longleftrightarrow> 0 < n \<and> mn_live m \<noteq> []"
    and "pool_threads (load_contexts m (pool_ready n\<lparr>pool_next := k\<rparr>)) = replicate n True"
    and "length (pool_ioServices (load_contexts m (pool_ready n\<lparr>pool_next := k\<rparr>))) = n"
proof
  let ?k = "tv_new (mn_server m) mod n"
  let ?l = "load_contexts m (pool_ready n\<lparr>pool_next := ?k\<rparr>)"
  show "s_instance (tv_pool (mn_server m)) = Some (pool_ready n\<lparr>pool_next := ?k\<rparr>)" using assms by (simp add: main_inv_def server_wf_def)
  have l: "set (pool_ioServices ?l) = (\<lambda>i. busy_service\<lparr>io_pending := length (filter (\<lambda>p. tv_context (mn_server m) p = i) (mn_live m))\<rparr>) ` {..<n}"
    by (auto simp: load_contexts_def pool_ready_def)
  show "\<not> io_stopped c" if "c \<in> set (pool_ioServices ?l)" for c using that unfolding l by (auto simp: busy_service_def)
  show "(\<exists>c \<in> set (pool_ioServices ?l). 0 < io_pending c) \<longleftrightarrow> 0 < n \<and> mn_live m \<noteq> []"
  proof
    assume "0 < n \<and> mn_live m \<noteq> []"
    then obtain p ps where p: "mn_live m = p # ps" "0 < n" by (cases "mn_live m") auto
    with assms have "tv_context (mn_server m) p = p mod n" by (simp add: main_inv_def server_wf_def)
    with p show "\<exists>c \<in> set (pool_ioServices ?l). 0 < io_pending c" unfolding l by (auto intro!: bexI [of _ "p mod n"])
  qed (auto simp: l)
  show "pool_threads ?l = replicate n True" "length (pool_ioServices ?l) = n" by (simp_all add: load_contexts_def pool_ready_def)
qed

lemma pool3_Stop_load:
  assumes "asio_run returns" and "\<And>c. c \<in> set (pool_ioServices pool) \<Longrightarrow> \<not> io_stopped c"
    and "pool_threads pool = replicate n True" and "length (pool_ioServices pool) = n"
  shows "if \<exists>c \<in> set (pool_ioServices pool). 0 < io_pending c then pool3_Stop returns pool = None
     else \<exists>pool'. pool3_Stop returns pool = Some (Inr pool') \<and> True \<notin> set (pool_threads pool')"
proof (cases "\<exists>c \<in> set (pool_ioServices pool). 0 < io_pending c")
  case True
  then obtain c where c: "c \<in> set (pool_ioServices pool)" "0 < io_pending c" by blast
  have "join_threads returns False (pool_ioServices (reset_works pool)) (replicate n True) = None"
    using c assms by (intro join_threads_blocks [of "c\<lparr>io_work := False\<rparr>"]) (auto simp: reset_works_def asio_run_def)
  with c assms(3) show ?thesis by (auto simp: pool3_Stop_def reset_works_def)
next
  case False
  have "returns c" if "c \<in> set (pool_ioServices (reset_works pool))" for c
    using that False assms(1) by (auto simp: reset_works_def asio_run_def)
  then have "join_threads returns False (pool_ioServices (reset_works pool)) (replicate n True) = Some (Inr (replicate n False))"
    using assms(4) join_threads_all [of "pool_ioServices (reset_works pool)" returns "replicate n True" False] by (simp add: reset_works_def)
  with False assms(3) show ?thesis by (auto simp: pool3_Stop_def reset_works_def)
qed

lemma pool4_Stop_load:
  assumes "asio_run returns" and "pool_threads pool = replicate n True" and "length (pool_ioServices pool) = n"
  shows "\<exists>pool'. pool4_Stop returns pool = Some (Inr pool') \<and> True \<notin> set (pool_threads pool')"
proof -
  let ?p = "stop_services (reset_works pool)"
  have "io_stopped c" if "c \<in> set (pool_ioServices ?p)" for c
    using that by (auto simp: stop_services_def)
  with assms(1) have "returns c" if "c \<in> set (pool_ioServices ?p)" for c using that unfolding asio_run_def by blast
  then have "join_threads returns True (pool_ioServices ?p) (replicate n True) = Some (Inr (replicate n False))"
    using assms(3) join_threads_all [of "pool_ioServices ?p" returns "replicate n True" True] by (simp add: stop_services_def reset_works_def)
  moreover have "pool_threads ?p = replicate n True" using assms(2) by (simp add: stop_services_def reset_works_def)
  ultimately show ?thesis by (simp add: pool4_Stop_def)
qed

text \<open>The coroutine server is the pooled one over a pool that is never empty.\<close>

lemma coro_StartAccept_eq: "coro_StartAccept hw = tlv_StartAccept (max 1 hw)"
proof -
  have "pool4_ctor hw = pool3_ctor (max 1 hw)" by (simp add: pool4_ctor_ready pool3_ctor_ready max_def)
  then show ?thesis unfolding coro_StartAccept_def [abs_def] tlv_StartAccept_def [abs_def] pool4_get_eq by simp
qed

lemma coro_handle_accept_eq: "coro_handle_accept hw = tlv_HandleAccept (max 1 hw)"
  by (simp add: fun_eq_iff coro_handle_accept_def tlv_HandleAccept_def coro_StartAccept_eq)

lemma exit_joinable:
  "0 < n \<Longrightarrow> main_inv n m \<Longrightarrow>
     exit_process x code (tv_pool (mn_server m)) logic = (if logic \<and> \<not> joins x \<and> logic_first x then Hanging else Std_Terminate)"
  by (simp add: main_inv_def server_wf_def exit_process_def pool_ready_def)

section \<open>Properties\<close>

text \<open>
  C25. How the pooled server ends. If the port cannot be bound, or a handler throws, the exception is
  caught in \<open>main\<close> but the static pool is destroyed with its threads running, and the process
  ends in \<open>std::terminate\<close>. Without a signal the server runs on. After a signal it exits with 0 if
  every client it has accepted has left, before the signal or while \<open>Stop\<close> waits; as long as one
  is still connected it hangs in \<open>Stop\<close>, whatever else happens, a second signal included. Once a client
  has sent a message there is one more way to hang: in the destructor of the logic layer, when its
  \<open>join\<close> does not return.
\<close>

theorem pooled_main_ends:
  assumes "asio_run returns" and "0 < hw" and "uneventful es"
  shows "pooled_main returns x hw False uuid es = Std_Terminate \<and>
     pooled_main returns x hw True uuid (es @ Handler_Throws # rest) =
       (if posts 0 [] es \<and> \<not> joins x \<and> logic_first x then Hanging else Std_Terminate) \<and>
     pooled_main returns x hw True uuid es = Running \<and>
     pooled_main returns x hw True uuid (es @ Signal # rest) =
       (if (\<exists>p \<in> set (clients 0 [] es). \<not> leaves rest p) \<or> logic_made es rest \<and> \<not> joins x then Hanging else Exited 0)"
proof -
  let ?st = "\<lparr>s_flag = True, s_instance = Some (pool_ready hw)\<rparr>"
  have st: "GetInstance (pool3_ctor hw) singleton_init = (?st, Some (pool_ready hw))"
    by (simp add: GetInstance_def singleton_init_def pool3_ctor_ready)
  obtain sv where sv: "tlv_StartAccept hw uuid \<lparr>tv_sessions = Map.empty, tv_heap = (\<lambda>_. tlv_Session []), tv_context = (\<lambda>_. 0),
      tv_new = 0, tv_accepting = None, tv_pool = ?st\<rparr> = Inr sv" "main_inv hw \<lparr>mn_server = sv, mn_live = [], mn_logic = False\<rparr>" "tv_new sv = 1"
    using main_start [OF assms(2)] by blast
  note run = run_context_uneventful [OF assms(2,3) sv(2)]
  obtain m where m: "run_context (tlv_HandleAccept hw) (es @ Handler_Throws # rest) \<lparr>mn_server = sv, mn_live = [], mn_logic = False\<rparr> = Inr (Raised, m)"
    "main_inv hw m" "mn_logic m = posts 0 [] es" using run [of "Handler_Throws # rest"] sv(3) by auto
  obtain m1 where m1: "run_context (tlv_HandleAccept hw) es \<lparr>mn_server = sv, mn_live = [], mn_logic = False\<rparr> = Inr (Runs, m1)" using run [of "[]"] by auto
  obtain m2 where m2: "run_context (tlv_HandleAccept hw) (es @ Signal # rest) \<lparr>mn_server = sv, mn_live = [], mn_logic = False\<rparr> = Inr (Signalled rest, m2)"
    "main_inv hw m2" "mn_live m2 = clients 0 [] es" "mn_logic m2 = posts 0 [] es" using run [of "Signal # rest"] sv(3) by auto
  define m3 where "m3 = during_stop rest m2"
  have m3: "main_inv hw m3" "mn_live m3 = filter (\<lambda>p. \<not> leaves rest p) (clients 0 [] es)" "mn_logic m3 = logic_made es rest"
    using during_stop_inv [OF m2(2), of rest] m2(3,4) by (simp_all add: m3_def logic_made_def)
  from load_contexts_ready [OF m3(1)] obtain k where
    k: "s_instance (tv_pool (mn_server m3)) = Some (pool_ready hw\<lparr>pool_next := k\<rparr>)"
      "\<And>c. c \<in> set (pool_ioServices (load_contexts m3 (pool_ready hw\<lparr>pool_next := k\<rparr>))) \<Longrightarrow> \<not> io_stopped c"
      "(\<exists>c \<in> set (pool_ioServices (load_contexts m3 (pool_ready hw\<lparr>pool_next := k\<rparr>))). 0 < io_pending c) \<longleftrightarrow> 0 < hw \<and> mn_live m3 \<noteq> []"
      "pool_threads (load_contexts m3 (pool_ready hw\<lparr>pool_next := k\<rparr>)) = replicate hw True"
      "length (pool_ioServices (load_contexts m3 (pool_ready hw\<lparr>pool_next := k\<rparr>))) = hw" by blast
  have "mn_live m3 \<noteq> [] \<longleftrightarrow> (\<exists>p \<in> set (clients 0 [] es). \<not> leaves rest p)" unfolding m3(2) by (simp add: filter_empty_conv)
  then have "pooled_main returns x hw True uuid (es @ Signal # rest) =
      (if (\<exists>p \<in> set (clients 0 [] es). \<not> leaves rest p) \<or> logic_made es rest \<and> \<not> joins x then Hanging else Exited 0)"
    using pool3_Stop_load [OF assms(1) k(2,4,5)] k(1,3) assms(2) m3(3)
    by (auto simp: pooled_main_def st sv(1) m2(1) exit_process_def Let_def simp flip: m3_def split: if_splits)
  moreover have "pooled_main returns x hw False uuid es = Std_Terminate"
    using assms(2) by (simp add: pooled_main_def st exit_process_def pool_ready_def)
  ultimately show ?thesis
    using exit_joinable [OF assms(2) m(2)] m(3) by (simp add: pooled_main_def st sv(1) m(1) m1)
qed

theorem pooled_main_ends_witness:
  "\<exists>returns x. asio_run returns \<and>
     pooled_main returns x 2 True ''a'' ([Accept_Done None ''b'', Accept_Done None ''c'', Session_Ends 0] @ Signal # [Signal]) = Hanging \<and>
     pooled_main returns x 2 True ''a'' ([Accept_Done None ''b'', Accept_Done None ''c'', Session_Ends 0] @ Signal # [Session_Ends 1]) = Exited 0"
proof -
  let ?r = "\<lambda>c. io_stopped c \<or> \<not> io_work c \<and> io_pending c = 0"
  let ?es = "[Accept_Done None ''b'', Accept_Done None ''c'', Session_Ends 0]"
  have h: "asio_run ?r" "(0::nat) < 2" "uneventful ?es" by (simp_all add: asio_run_def uneventful_def)
  have "clients 0 [] ?es = [1]" by simp
  with h pooled_main_ends [OF h, of "\<lparr>logic_first = False, joins = True\<rparr>" "''a''" "[Signal]"]
    pooled_main_ends [OF h, of "\<lparr>logic_first = False, joins = True\<rparr>" "''a''" "[Session_Ends 1]"]
  show ?thesis by (intro exI [of _ ?r] exI [of _ "\<lparr>logic_first = False, joins = True\<rparr>"]) (simp add: leaves_def)
qed

text \<open>
  C26. How the coroutine server ends, on any machine, also where \<open>hardware_concurrency\<close> returns 0: after a signal
  \<open>Stop\<close> always returns, whoever is still connected, and the process exits with 0, unless a client has sent
  a message and the destructor of the logic layer hangs in \<open>join\<close>. Without a signal it runs on. A port
  that cannot be bound and a handler that throws end it in \<open>std::terminate\<close>, like the pooled server, or in
  that \<open>join\<close> if it comes first.
\<close>

theorem coro_main_ends:
  assumes "asio_run returns" and "uneventful es"
  shows "coro_main returns x hw True uuid (es @ Signal # rest) =
       (if logic_made es rest \<and> \<not> joins x then Hanging else Exited 0) \<and>
     coro_main returns x hw True uuid es = Running \<and>
     coro_main returns x hw False uuid es = Std_Terminate \<and>
     coro_main returns x hw True uuid (es @ Handler_Throws # rest) =
       (if posts 0 [] es \<and> \<not> joins x \<and> logic_first x then Hanging else Std_Terminate)"
proof -
  define n where "n = max 1 hw"
  have n: "0 < n" by (simp add: n_def)
  let ?st = "\<lparr>s_flag = True, s_instance = Some (pool_ready n)\<rparr>"
  have st: "GetInstance (pool4_ctor hw) singleton_init = (?st, Some (pool_ready n))"
    by (simp add: GetInstance_def singleton_init_def pool4_ctor_ready max_def n_def)
  obtain sv where sv: "tlv_StartAccept n uuid \<lparr>tv_sessions = Map.empty, tv_heap = (\<lambda>_. tlv_Session []), tv_context = (\<lambda>_. 0),
      tv_new = 0, tv_accepting = None, tv_pool = ?st\<rparr> = Inr sv" "main_inv n \<lparr>mn_server = sv, mn_live = [], mn_logic = False\<rparr>" "tv_new sv = 1"
    using main_start [OF n] by blast
  note run = run_context_uneventful [OF n assms(2) sv(2)]
  note d = coro_main_def coro_StartAccept_eq [of hw, folded n_def] coro_handle_accept_eq [of hw, folded n_def] st sv(1)
  obtain m where m: "run_context (tlv_HandleAccept n) (es @ Handler_Throws # rest) \<lparr>mn_server = sv, mn_live = [], mn_logic = False\<rparr> = Inr (Raised, m)"
    "main_inv n m" "mn_logic m = posts 0 [] es" using run [of "Handler_Throws # rest"] sv(3) by auto
  obtain m1 where m1: "run_context (tlv_HandleAccept n) es \<lparr>mn_server = sv, mn_live = [], mn_logic = False\<rparr> = Inr (Runs, m1)" using run [of "[]"] by auto
  obtain m2 where m2: "run_context (tlv_HandleAccept n) (es @ Signal # rest) \<lparr>mn_server = sv, mn_live = [], mn_logic = False\<rparr> = Inr (Signalled rest, m2)"
    "main_inv n m2" "mn_live m2 = clients 0 [] es" "mn_logic m2 = posts 0 [] es" using run [of "Signal # rest"] sv(3) by auto
  define m3 where "m3 = during_stop rest m2"
  have m3: "main_inv n m3" "mn_logic m3 = logic_made es rest"
    using during_stop_inv [OF m2(2), of rest] m2(3,4) by (simp_all add: m3_def logic_made_def)
  from load_contexts_ready [OF m3(1)] obtain k where
    k: "s_instance (tv_pool (mn_server m3)) = Some (pool_ready n\<lparr>pool_next := k\<rparr>)"
      "pool_threads (load_contexts m3 (pool_ready n\<lparr>pool_next := k\<rparr>)) = replicate n True"
      "length (pool_ioServices (load_contexts m3 (pool_ready n\<lparr>pool_next := k\<rparr>))) = n" by blast
  have "coro_main returns x hw True uuid (es @ Signal # rest) = (if logic_made es rest \<and> \<not> joins x then Hanging else Exited 0)"
    using pool4_Stop_load [OF assms(1) k(2,3)] k(1) m3(2) by (auto simp: d m2(1) exit_process_def Let_def simp flip: m3_def)
  moreover have "coro_main returns x hw False uuid es = Std_Terminate"
    using n by (simp add: d exit_process_def pool_ready_def)
  ultimately show ?thesis using exit_joinable [OF n m(2)] m(3) by (simp add: d m(1) m1)
qed

theorem coro_main_ends_witness:
  "\<exists>returns. coro_main returns \<lparr>logic_first = True, joins = False\<rparr> 0 True ''a'' ([Accept_Done None ''b''] @ Signal # []) = Exited 0 \<and>
     coro_main returns \<lparr>logic_first = True, joins = False\<rparr> 0 True ''a'' ([Accept_Done None ''b'', Message 0] @ Signal # []) = Hanging"
proof -
  let ?r = "\<lambda>c. io_stopped c \<or> \<not> io_work c \<and> io_pending c = 0" and ?x = "\<lparr>logic_first = True, joins = False\<rparr>"
  show ?thesis
    using coro_main_ends [of ?r "[Accept_Done None ''b'']" ?x 0 "''a''" "[]"] coro_main_ends [of ?r "[Accept_Done None ''b'', Message 0]" ?x 0 "''a''" "[]"]
    by (intro exI [of _ ?r]) (simp add: asio_run_def uneventful_def logic_made_def)
qed

end
