(* ===== verification/Buffer_Lifetime.thy ===== *)
theory Buffer_Lifetime
  imports Tlv_Server Web_Socket
begin

text \<open>
  The buffers of asynchronous writes. asio keeps no copy of what it is told to write: it reads the
  memory of the buffer at some time between the call of \<open>async_write\<close> and the completion, so the
  memory has to live as long. The sending functions are given here a second time over an
  explicit store, with the objects that own the bytes: for \<open>Session.cpp\<close> of
  \<open>3. AsyncServerIOservicepool\<close>, whose buffers belong to the nodes of the send queue, and for
  \<open>Connection.cpp\<close> of \<open>6. WebSocketServer\<close>, whose buffers belong to a parameter passed by value.
\<close>

section \<open>A store of objects\<close>

text \<open>Objects under addresses; a destroyed object is no longer there, and its address is not given out again.\<close>

record 'a objects =
  cells :: "nat \<rightharpoonup> 'a"
  fresh :: nat

definition empty_store :: "'a objects" where
  "empty_store = \<lparr>cells = Map.empty, fresh = 0\<rparr>"

definition alloc :: "'a \<Rightarrow> 'a objects \<Rightarrow> nat \<times> 'a objects" where
  "alloc x h = (fresh h, \<lparr>cells = (cells h)(fresh h \<mapsto> x), fresh = Suc (fresh h)\<rparr>)"

definition deref :: "nat \<Rightarrow> 'a objects \<Rightarrow> 'a res" where
  "deref a h = (case cells h a of None \<Rightarrow> Inl Use_After_Free | Some x \<Rightarrow> Inr x)"

definition destroy :: "nat \<Rightarrow> 'a objects \<Rightarrow> 'a objects res" where
  "destroy a h = (case cells h a of None \<Rightarrow> Inl Use_After_Free | Some _ \<Rightarrow> Inr (h\<lparr>cells := (cells h)(a := None)\<rparr>))"

definition store_ok :: "'a objects \<Rightarrow> bool" where
  "store_ok h \<longleftrightarrow> (\<forall>a. fresh h \<le> a \<longrightarrow> cells h a = None)"

lemma store_ok_simps [simp]:
  "store_ok empty_store" "store_ok h \<Longrightarrow> store_ok (snd (alloc x h))" "store_ok h \<Longrightarrow> store_ok (h\<lparr>cells := (cells h)(a := None)\<rparr>)"
  by (auto simp: store_ok_def empty_store_def alloc_def)

section \<open>The nodes of the pooled server\<close>

text \<open>
  The send queue holds \<open>shared_ptr<SendNode>\<close>, the only ones to their nodes, so that \<open>pop\<close> destroys
  the node. A write in flight is the address and the length of its buffer.
\<close>

record ptr_session =
  ps_uuid :: string
  ps_open :: bool
  ps_nodes :: "tlv_node objects"
  ps_send_que :: "nat list"
  ps_writes :: "(nat \<times> nat) list"

definition ptr_Session :: "string \<Rightarrow> ptr_session" where
  "ptr_Session uuid = \<lparr>ps_uuid = uuid, ps_open = True, ps_nodes = empty_store, ps_send_que = [], ps_writes = []\<rparr>"

definition ptr_async_write :: "nat \<Rightarrow> ptr_session \<Rightarrow> ptr_session res" where
  "ptr_async_write a s =
     bindr (deref a (ps_nodes s)) (\<lambda>m. Inr (s\<lparr>ps_writes := ps_writes s @ [(a, nat (node_total_len m))]\<rparr>))"

definition ptr_Send :: "char list \<Rightarrow> int \<Rightarrow> int \<Rightarrow> ptr_session \<Rightarrow> ptr_session res" where
  "ptr_Send msg len msgid s =
     (let send_que_size = length (ps_send_que s) in
      if MAX_SENDQUE < int send_que_size then Inr s
      else
        bindr (SendNode msg len msgid) (\<lambda>m.
        let (a, h) = alloc m (ps_nodes s);
            s = s\<lparr>ps_nodes := h, ps_send_que := push_back a (ps_send_que s)\<rparr> in
        if 0 < send_que_size then Inr s
        else bindr (front (ps_send_que s)) (\<lambda>a. ptr_async_write a s)))"

definition ptr_HandleWrite :: "asio_error option \<Rightarrow> ptr_session \<Rightarrow> sessions \<Rightarrow> (ptr_session \<times> sessions) res" where
  "ptr_HandleWrite err s ss =
     (let s = s\<lparr>ps_writes := tl (ps_writes s)\<rparr> in
      if err = None then
        bindr (front (ps_send_que s)) (\<lambda>a.
        bindr (destroy a (ps_nodes s)) (\<lambda>h.
        bindr (pop_front (ps_send_que s)) (\<lambda>q.
        let s = s\<lparr>ps_nodes := h, ps_send_que := q\<rparr> in
        if q \<noteq> [] then bindr (front q) (\<lambda>a. bindr (ptr_async_write a s) (\<lambda>s. Inr (s, ss)))
        else Inr (s, ss))))
      else Inr (s\<lparr>ps_open := False\<rparr>, map_erase (ps_uuid s) ss))"

text \<open>What asio reads when it looks at a buffer: nothing if the node is gone.\<close>

definition ptr_read :: "ptr_session \<Rightarrow> nat \<times> nat \<Rightarrow> char list option" where
  "ptr_read s = (\<lambda>(a, n). map_option (\<lambda>m. take n (node_data m)) (cells (ps_nodes s) a))"

definition ptr_queue :: "ptr_session \<Rightarrow> char list option list" where
  "ptr_queue s = map (\<lambda>a. map_option tlv_bytes (cells (ps_nodes s) a)) (ps_send_que s)"

definition ptr_inflight :: "ptr_session \<Rightarrow> char list option list" where
  "ptr_inflight s = map (ptr_read s) (ps_writes s)"

definition ptr_send_pair :: "string \<times> int \<Rightarrow> ptr_session \<Rightarrow> ptr_session res" where
  "ptr_send_pair = (\<lambda>(msg, msgid). ptr_Send (msg @ [NUL]) (to_short (int (length msg))) (to_short msgid))"

definition ptr_write_done :: "ptr_session \<Rightarrow> ptr_session res" where
  "ptr_write_done s = bindr (ptr_HandleWrite None s Map.empty) (\<lambda>(s, _). Inr s)"

definition ptr_admits :: "ptr_session \<Rightarrow> bool" where
  "ptr_admits s \<longleftrightarrow> int (length (ps_send_que s)) \<le> MAX_SENDQUE"

text \<open>The buffer of the write in flight is that of the first node, and every node of the queue is alive.\<close>

definition node_buffer :: "ptr_session \<Rightarrow> nat \<Rightarrow> nat \<times> nat" where
  "node_buffer s a = (a, case cells (ps_nodes s) a of None \<Rightarrow> 0 | Some m \<Rightarrow> nat (node_total_len m))"

definition ptr_inv :: "ptr_session \<Rightarrow> bool" where
  "ptr_inv s \<longleftrightarrow> store_ok (ps_nodes s) \<and> distinct (ps_send_que s) \<and> set (ps_send_que s) \<subseteq> dom (cells (ps_nodes s)) \<and>
     ps_writes s = take 1 (map (node_buffer s) (ps_send_que s))"

lemma ptr_inflight_queue: "ptr_inv s \<Longrightarrow> ptr_inflight s = take 1 (ptr_queue s)"
  by (cases "ps_send_que s")
    (auto simp: ptr_inv_def ptr_inflight_def ptr_queue_def ptr_read_def node_buffer_def tlv_bytes_def split: option.splits)

lemma ptr_Send_node:
  assumes inv: "ptr_inv s" and m: "SendNode msg len msgid = Inr m"
  shows "\<exists>s'. ptr_Send msg len msgid s = Inr s' \<and> ptr_inv s' \<and>
     ptr_queue s' = (if ptr_admits s then ptr_queue s @ [Some (tlv_bytes m)] else ptr_queue s)"
proof (cases "ptr_admits s")
  case False
  with inv show ?thesis by (simp add: ptr_Send_def ptr_admits_def)
next
  case True
  let ?a = "fresh (ps_nodes s)"
  let ?s = "s\<lparr>ps_nodes := snd (alloc m (ps_nodes s)), ps_send_que := ps_send_que s @ [?a]\<rparr>"
  have "cells (ps_nodes s) ?a = None" using inv by (simp add: ptr_inv_def store_ok_def)
  then have a: "?a \<notin> set (ps_send_que s)" using inv by (auto simp: ptr_inv_def)
  have nb: "map (node_buffer ?s) (ps_send_que s) = map (node_buffer s) (ps_send_que s)"
    using a by (auto simp: node_buffer_def alloc_def)
  have q: "ptr_queue ?s = ptr_queue s @ [Some (tlv_bytes m)]" using a by (auto simp: ptr_queue_def alloc_def)
  show ?thesis
  proof (cases "ps_send_que s")
    case Nil
    let ?s' = "?s\<lparr>ps_writes := ps_writes s @ [(?a, nat (node_total_len m))]\<rparr>"
    have "ptr_Send msg len msgid s = Inr ?s'"
      using True Nil m by (simp add: ptr_Send_def ptr_admits_def alloc_def queue_defs ptr_async_write_def deref_def)
    moreover have "ptr_inv ?s'" using inv Nil by (simp add: ptr_inv_def) (simp add: node_buffer_def alloc_def)
    moreover have "ptr_queue ?s' = ptr_queue ?s" by (simp add: ptr_queue_def)
    ultimately show ?thesis using q True by simp
  next
    case (Cons b bs)
    then have "ptr_Send msg len msgid s = Inr ?s" using True m by (simp add: ptr_Send_def ptr_admits_def alloc_def queue_defs)
    moreover have "ptr_inv ?s" using inv a nb Cons by (auto simp: ptr_inv_def) (auto simp: alloc_def)
    ultimately show ?thesis using q True by simp
  qed
qed

lemma ptr_write_done_ok:
  assumes inv: "ptr_inv s" and "ptr_queue s \<noteq> []"
  shows "\<exists>s'. ptr_write_done s = Inr s' \<and> ptr_inv s' \<and> ptr_queue s' = tl (ptr_queue s)"
proof -
  obtain a q where aq: "ps_send_que s = a # q" using assms(2) by (cases "ps_send_que s") (auto simp: ptr_queue_def)
  then obtain m where m: "cells (ps_nodes s) a = Some m" using inv by (auto simp: ptr_inv_def)
  have w: "ps_writes s = [node_buffer s a]" using inv aq by (simp add: ptr_inv_def)
  let ?s = "s\<lparr>ps_writes := [], ps_nodes := (ps_nodes s)\<lparr>cells := (cells (ps_nodes s))(a := None)\<rparr>, ps_send_que := q\<rparr>"
  have a: "a \<notin> set q" using inv aq by (simp add: ptr_inv_def)
  have q: "ptr_queue ?s = tl (ptr_queue s)" using aq a by (auto simp: ptr_queue_def)
  have i: "store_ok (ps_nodes ?s)" "distinct q" "set q \<subseteq> dom (cells (ps_nodes ?s))" using inv aq a by (auto simp: ptr_inv_def)
  show ?thesis
  proof (cases q)
    case Nil
    then have "ptr_write_done s = Inr ?s"
      using aq m w by (simp add: ptr_write_done_def ptr_HandleWrite_def queue_defs destroy_def)
    moreover have "ptr_inv ?s" using i Nil by (simp add: ptr_inv_def)
    ultimately show ?thesis using q by blast
  next
    case (Cons b bs)
    then obtain n where n: "cells (ps_nodes s) b = Some n" "b \<noteq> a" using inv aq a by (auto simp: ptr_inv_def)
    let ?s' = "?s\<lparr>ps_writes := [(b, nat (node_total_len n))]\<rparr>"
    have "ptr_write_done s = Inr ?s'"
      using aq m w n Cons by (simp add: ptr_write_done_def ptr_HandleWrite_def queue_defs destroy_def ptr_async_write_def deref_def)
    moreover have "ptr_inv ?s'" using i n Cons by (simp add: ptr_inv_def node_buffer_def)
    moreover have "ptr_queue ?s' = ptr_queue ?s" by (simp add: ptr_queue_def)
    ultimately show ?thesis using q by auto
  qed
qed

interpretation ptr_sender: send_queue ptr_queue ptr_inflight "\<lambda>m. Some (tlv_frame_of m)" tlv_valid ptr_inv ptr_admits
  ptr_send_pair ptr_write_done
proof unfold_locales
  fix s :: ptr_session and m
  show "ptr_inflight s = take 1 (ptr_queue s)" if "ptr_inv s" using ptr_inflight_queue [OF that] .
  show "\<exists>s'. ptr_send_pair m s = Inr s' \<and> ptr_inv s' \<and>
      ptr_queue s' = (if ptr_admits s then ptr_queue s @ [Some (tlv_frame_of m)] else ptr_queue s)"
    if "ptr_inv s" "tlv_valid m"
  proof -
    obtain msg msgid where m: "m = (msg, msgid)" by (cases m)
    with that(2) have "length msg \<le> 32763" by (simp add: tlv_valid_def)
    from SendNode_string [OF this, of msgid] obtain n where
      n: "SendNode (msg @ [NUL]) (to_short (int (length msg))) (to_short msgid) = Inr n" "tlv_bytes n = tlv_frame msgid msg" .
    from ptr_Send_node [OF that(1) n(1)] n(2) show ?thesis unfolding m ptr_send_pair_def tlv_frame_of_def prod.case by (simp only:)
  qed
  show "\<exists>s'. ptr_write_done s = Inr s' \<and> ptr_inv s' \<and> ptr_queue s' = tl (ptr_queue s)"
    if "ptr_inv s" "ptr_queue s \<noteq> []" using ptr_write_done_ok [OF that] .
qed

section \<open>Two senders in step\<close>

text \<open>
  Two implementations of the sending discipline whose frames correspond and which admit the same
  messages run in step: the queues, what was accepted and what was delivered correspond after any
  sequence of calls and completions.
\<close>

locale send_refinement =
  conc: send_queue queue inflight frame valid inv admits send complete +
  abst: send_queue queue' inflight' frame' valid inv' admits' send' complete'
  for queue :: "'s \<Rightarrow> 'f list" and inflight frame and valid :: "'m \<Rightarrow> bool" and inv admits send complete
    and queue' :: "'t \<Rightarrow> 'g list" and inflight' frame' inv' admits' send' complete' +
  fixes view :: "'g \<Rightarrow> 'f"
  assumes frames: "frame m = view (frame' m)"
    and same_admits: "inv s \<Longrightarrow> inv' t \<Longrightarrow> queue s = map view (queue' t) \<Longrightarrow> admits s \<longleftrightarrow> admits' t"
begin

definition in_step :: "('s, 'f) send_run \<Rightarrow> ('t, 'g) send_run \<Rightarrow> bool" where
  "in_step r r' \<longleftrightarrow> inv (run_state r) \<and> inv' (run_state r') \<and> queue (run_state r) = map view (queue' (run_state r')) \<and>
     run_accepted r = map view (run_accepted r') \<and> run_delivered r = map view (run_delivered r')"

lemma event_in_step:
  assumes "in_step r r'" and "calls_valid valid (e # es)"
  shows "\<exists>q q'. run_sends queue inflight frame send complete (e # es) r = run_sends queue inflight frame send complete es q \<and>
     run_sends queue' inflight' frame' send' complete' (e # es) r' = run_sends queue' inflight' frame' send' complete' es q' \<and> in_step q q'"
proof (cases e)
  case (Send_Call m)
  have v: "valid m" using assms(2) Send_Call by simp
  obtain s t where s: "send m (run_state r) = Inr s" "inv s" "queue s = (if admits (run_state r) then queue (run_state r) @ [frame m] else queue (run_state r))"
    and t: "send' m (run_state r') = Inr t" "inv' t" "queue' t = (if admits' (run_state r') then queue' (run_state r') @ [frame' m] else queue' (run_state r'))"
    using conc.send_ok [OF _ v] abst.send_ok [OF _ v] assms(1) unfolding in_step_def by meson
  have "admits (run_state r) \<longleftrightarrow> admits' (run_state r')" using same_admits assms(1) by (simp add: in_step_def)
  let ?q = "r\<lparr>run_state := s, run_accepted := run_accepted r @ (if length (queue (run_state r)) < length (queue s) then [frame m] else [])\<rparr>"
  let ?q' = "r'\<lparr>run_state := t, run_accepted := run_accepted r' @ (if length (queue' (run_state r')) < length (queue' t) then [frame' m] else [])\<rparr>"
  have "in_step ?q ?q'" using assms(1) s t \<open>admits (run_state r) \<longleftrightarrow> admits' (run_state r')\<close> by (auto simp: in_step_def frames)
  with s(1) t(1) Send_Call show ?thesis by (intro exI [of _ ?q] exI [of _ ?q']) simp
next
  case Write_Done
  show ?thesis
  proof (cases "queue' (run_state r')")
    case Nil
    with Write_Done assms(1) show ?thesis by (intro exI [of _ r] exI [of _ r']) (simp add: in_step_def conc.one_write abst.one_write)
  next
    case (Cons g gs)
    then have "queue (run_state r) = view g # map view gs" using assms(1) by (simp add: in_step_def)
    moreover obtain s t where "complete (run_state r) = Inr s" "inv s" "queue s = tl (queue (run_state r))"
      "complete' (run_state r') = Inr t" "inv' t" "queue' t = tl (queue' (run_state r'))"
      using conc.complete_ok [of "run_state r"] abst.complete_ok [of "run_state r'"] assms(1) Cons by (auto simp: in_step_def)
    ultimately show ?thesis using assms(1) Write_Done Cons
      by (intro exI [of _ "r\<lparr>run_state := s, run_delivered := run_delivered r @ [view g]\<rparr>"]
          exI [of _ "r'\<lparr>run_state := t, run_delivered := run_delivered r' @ [g]\<rparr>"])
        (simp add: in_step_def conc.one_write abst.one_write)
  qed
qed

lemma runs_in_step:
  assumes "in_step r r'" and "calls_valid valid es"
  shows "\<exists>q q'. run_sends queue inflight frame send complete es r = Inr q \<and>
     run_sends queue' inflight' frame' send' complete' es r' = Inr q' \<and> in_step q q'"
  using assms
proof (induction es arbitrary: r r')
  case (Cons e es)
  moreover have "calls_valid valid es" using Cons.prems(2) by (cases e) simp_all
  ultimately show ?case using event_in_step [OF Cons.prems] by metis
qed simp

lemma inflight_in_step: "in_step r r' \<Longrightarrow> inflight (run_state r) = map view (inflight' (run_state r'))"
  by (simp add: in_step_def conc.one_write abst.one_write take_map)

end

interpretation ptr_tlv: send_refinement ptr_queue ptr_inflight "\<lambda>m. Some (tlv_frame_of m)" tlv_valid ptr_inv ptr_admits
  ptr_send_pair ptr_write_done tlv_queue ts_writes tlv_frame_of tlv_inv tlv_admits tlv_send_pair tlv_write_done Some
proof unfold_locales
  fix s t assume "ptr_queue s = map Some (tlv_queue t)"
  then have "length (ptr_queue s) = length (tlv_queue t)" by simp
  then have "length (ps_send_que s) = length (ts_send_que t)" by (simp add: ptr_queue_def tlv_queue_def)
  then show "ptr_admits s \<longleftrightarrow> tlv_admits t" by (simp add: ptr_admits_def tlv_admits_def)
qed simp

section \<open>The strings of the WebSocket server\<close>

text \<open>
  The send queue holds strings; \<open>AsyncSend\<close> and \<open>SendCallBack\<close> take theirs by value, and the parameter
  is destroyed when they return. \<open>taken\<close> says whether the write has read its buffer before the call
  of \<open>async_write\<close> returns; otherwise it reads it later.
\<close>

datatype ws_write = Taken string | Deferred nat nat

record ws_ptr =
  wp_uuid :: string
  wp_strings :: "string objects"
  wp_send_que :: "nat list"
  wp_writes :: "ws_write list"

definition ws_ptr_Connection :: "string \<Rightarrow> ws_ptr" where
  "ws_ptr_Connection uuid = \<lparr>wp_uuid = uuid, wp_strings = empty_store, wp_send_que = [], wp_writes = []\<rparr>"

definition ws_ptr_SendCallBack :: "bool \<Rightarrow> string \<Rightarrow> ws_ptr \<Rightarrow> ws_ptr res" where
  "ws_ptr_SendCallBack taken msg c =
     (let (p, h) = alloc msg (wp_strings c);
          c = c\<lparr>wp_strings := h, wp_writes := wp_writes c @ [if taken then Taken msg else Deferred p (length msg)]\<rparr> in
      bindr (destroy p (wp_strings c)) (\<lambda>h. Inr (c\<lparr>wp_strings := h\<rparr>)))"

definition ws_ptr_AsyncSend :: "bool \<Rightarrow> string \<Rightarrow> ws_ptr \<Rightarrow> ws_ptr res" where
  "ws_ptr_AsyncSend taken msg c =
     (let (p, h) = alloc msg (wp_strings c);
          que_len = length (wp_send_que c);
          (a, h) = alloc msg h;
          c = c\<lparr>wp_strings := h, wp_send_que := push_back a (wp_send_que c)\<rparr> in
      bindr (if que_len > 0 then Inr c else ws_ptr_SendCallBack taken msg c) (\<lambda>c.
      bindr (destroy p (wp_strings c)) (\<lambda>h. Inr (c\<lparr>wp_strings := h\<rparr>))))"

definition ws_ptr_on_written :: "bool \<Rightarrow> asio_error option \<Rightarrow> ws_ptr \<Rightarrow> sessions \<Rightarrow> (ws_ptr \<times> sessions) res" where
  "ws_ptr_on_written taken err c cons =
     (let c = c\<lparr>wp_writes := tl (wp_writes c)\<rparr> in
      if err \<noteq> None then Inr (c, RmvConnection (wp_uuid c) cons)
      else
        bindr (front (wp_send_que c)) (\<lambda>a.
        bindr (destroy a (wp_strings c)) (\<lambda>h.
        bindr (pop_front (wp_send_que c)) (\<lambda>q.
        let c = c\<lparr>wp_strings := h, wp_send_que := q\<rparr> in
        if q = [] then Inr (c, cons)
        else
          bindr (front q) (\<lambda>b.
          bindr (deref b (wp_strings c)) (\<lambda>send_msg.
          bindr (ws_ptr_SendCallBack taken send_msg c) (\<lambda>c. Inr (c, cons))))))))"

text \<open>What a write sends when it reads its buffer.\<close>

fun ws_sent :: "ws_ptr \<Rightarrow> ws_write \<Rightarrow> string res" where
  "ws_sent c (Taken t) = Inr t"
| "ws_sent c (Deferred p n) = bindr (deref p (wp_strings c)) (\<lambda>t. Inr (take n t))"

datatype ws_event = Ws_Message bool string | Ws_Written bool

fun ws_ptr_run :: "ws_event list \<Rightarrow> ws_ptr \<Rightarrow> ws_ptr res" where
  "ws_ptr_run [] c = Inr c"
| "ws_ptr_run (Ws_Message taken msg # es) c = bindr (ws_ptr_AsyncSend taken msg c) (ws_ptr_run es)"
| "ws_ptr_run (Ws_Written taken # es) c =
     (if wp_writes c = [] then ws_ptr_run es c
      else bindr (ws_ptr_on_written taken None c Map.empty) (\<lambda>(c, _). ws_ptr_run es c))"

text \<open>The same run with what every completed write has sent, and the messages of a run.\<close>

fun ws_ptr_echo :: "ws_event list \<Rightarrow> ws_ptr \<Rightarrow> (string res list \<times> ws_ptr) res" where
  "ws_ptr_echo [] c = Inr ([], c)"
| "ws_ptr_echo (Ws_Message taken msg # es) c = bindr (ws_ptr_AsyncSend taken msg c) (ws_ptr_echo es)"
| "ws_ptr_echo (Ws_Written taken # es) c =
     (if wp_writes c = [] then ws_ptr_echo es c
      else
        bindr (ws_ptr_on_written taken None c Map.empty) (\<lambda>(c', _).
        bindr (ws_ptr_echo es c') (\<lambda>(sent, c'').
        Inr (ws_sent c (hd (wp_writes c)) # sent, c''))))"

fun ws_messages :: "ws_event list \<Rightarrow> string list" where
  "ws_messages [] = []"
| "ws_messages (Ws_Message taken msg # es) = msg # ws_messages es"
| "ws_messages (Ws_Written taken # es) = ws_messages es"

fun ws_taken :: "ws_event \<Rightarrow> bool" where
  "ws_taken (Ws_Message taken msg) = taken"
| "ws_taken (Ws_Written taken) = taken"

text \<open>A write that has been taken carries the first message of the queue; a deferred one points to a string that is gone.\<close>

definition write_state :: "ws_ptr \<Rightarrow> nat \<Rightarrow> ws_write \<Rightarrow> bool" where
  "write_state c a w = (case w of Taken t \<Rightarrow> cells (wp_strings c) a = Some t
     | Deferred p n \<Rightarrow> p < fresh (wp_strings c) \<and> cells (wp_strings c) p = None)"

definition ws_ptr_inv :: "ws_ptr \<Rightarrow> bool" where
  "ws_ptr_inv c \<longleftrightarrow> store_ok (wp_strings c) \<and> distinct (wp_send_que c) \<and> set (wp_send_que c) \<subseteq> dom (cells (wp_strings c)) \<and>
     list_all2 (write_state c) (take 1 (wp_send_que c)) (wp_writes c)"

text \<open>The messages in the queue, and whether the writes on their way have been taken.\<close>

definition ws_texts :: "ws_ptr \<Rightarrow> string list" where
  "ws_texts c = map (\<lambda>a. the (cells (wp_strings c) a)) (wp_send_que c)"

fun is_taken :: "ws_write \<Rightarrow> bool" where
  "is_taken (Taken t) = True"
| "is_taken (Deferred p n) = False"

definition ws_flags :: "ws_ptr \<Rightarrow> bool set" where
  "ws_flags c = is_taken ` set (wp_writes c)"

lemma ws_ptr_AsyncSend_ok:
  assumes "ws_ptr_inv c"
  shows "\<exists>c'. ws_ptr_AsyncSend taken msg c = Inr c' \<and> ws_ptr_inv c' \<and> ws_texts c' = ws_texts c @ [msg] \<and>
     ws_flags c' \<subseteq> insert taken (ws_flags c)"
proof -
  have f: "cells (wp_strings c) a = None" if "fresh (wp_strings c) \<le> a" for a using assms that by (simp add: ws_ptr_inv_def store_ok_def)
  have lt: "a < fresh (wp_strings c)" if "a \<in> set (wp_send_que c)" for a
  proof (rule ccontr)
    assume "\<not> a < fresh (wp_strings c)"
    with f [of a] that assms show False by (auto simp: ws_ptr_inv_def)
  qed
  show ?thesis
  proof (cases "wp_send_que c")
    case Nil
    with assms have "wp_writes c = []" by (simp add: ws_ptr_inv_def)
    with Nil f assms show ?thesis
      by (auto simp: ws_texts_def ws_flags_def ws_ptr_AsyncSend_def ws_ptr_SendCallBack_def alloc_def destroy_def push_back_def ws_ptr_inv_def write_state_def store_ok_def)
  next
    case (Cons a q)
    then obtain w where w: "wp_writes c = [w]" "write_state c a w" using assms by (auto simp: ws_ptr_inv_def list_all2_Cons1)
    show ?thesis
      using Cons w f lt assms
      by (auto simp: ws_texts_def ws_flags_def ws_ptr_AsyncSend_def alloc_def destroy_def push_back_def ws_ptr_inv_def write_state_def store_ok_def split: ws_write.splits)
  qed
qed

lemma ws_ptr_written_ok:
  assumes "ws_ptr_inv c" and "wp_writes c \<noteq> []"
  shows "\<exists>c' t. ws_ptr_on_written taken None c cons = Inr (c', cons) \<and> ws_ptr_inv c' \<and> ws_flags c' \<subseteq> {taken} \<and>
     ws_texts c = t # ws_texts c' \<and>
     ws_sent c (hd (wp_writes c)) = (if is_taken (hd (wp_writes c)) then Inr t else Inl Use_After_Free)"
proof -
  obtain a q w where q: "wp_send_que c = a # q" and w: "wp_writes c = [w]"
    using assms by (cases "wp_send_que c") (auto simp: ws_ptr_inv_def list_all2_Cons1)
  obtain t where t: "cells (wp_strings c) a = Some t" using assms(1) q by (auto simp: ws_ptr_inv_def)
  have a: "a \<notin> set q" using assms(1) q by (simp add: ws_ptr_inv_def)
  have f: "cells (wp_strings c) (fresh (wp_strings c)) = None" using assms(1) by (simp add: ws_ptr_inv_def store_ok_def)
  have "write_state c a w" using assms(1) q w by (simp add: ws_ptr_inv_def)
  with w t have sent: "ws_sent c (hd (wp_writes c)) = (if is_taken (hd (wp_writes c)) then Inr t else Inl Use_After_Free)"
    by (cases w) (simp_all add: write_state_def deref_def)
  have "\<exists>c'. ws_ptr_on_written taken None c cons = Inr (c', cons) \<and> ws_ptr_inv c' \<and> ws_flags c' \<subseteq> {taken} \<and> ws_texts c = t # ws_texts c'"
  proof (cases q)
    case Nil
    with q w t assms(1) show ?thesis
      by (auto simp: ws_texts_def ws_flags_def ws_ptr_on_written_def destroy_def queue_defs ws_ptr_inv_def store_ok_def)
  next
    case (Cons b bs)
    then obtain u where u: "cells (wp_strings c) b = Some u" "b \<noteq> a" using assms(1) q a by (auto simp: ws_ptr_inv_def)
    then have "b \<noteq> fresh (wp_strings c)" using f by auto
    moreover have "fresh (wp_strings c) \<notin> set bs" using assms(1) q Cons f by (auto simp: ws_ptr_inv_def)
    ultimately show ?thesis using Cons q w t u a f assms(1)
      by (auto simp: ws_texts_def ws_flags_def ws_ptr_on_written_def destroy_def deref_def queue_defs ws_ptr_SendCallBack_def alloc_def ws_ptr_inv_def
          write_state_def store_ok_def)
  qed
  with sent show ?thesis by blast
qed

lemma ws_ptr_run_inv:
  assumes "ws_ptr_inv c"
  shows "\<exists>c'. ws_ptr_run es c = Inr c' \<and> ws_ptr_inv c'"
  using assms
proof (induction es arbitrary: c)
  case (Cons e es)
  show ?case
  proof (cases e)
    case (Ws_Message taken msg)
    with ws_ptr_AsyncSend_ok [OF Cons.prems, of taken msg] Cons.IH show ?thesis by auto
  next
    case (Ws_Written taken)
    with ws_ptr_written_ok [OF Cons.prems, of taken Map.empty] Cons show ?thesis by auto
  qed
qed simp

text \<open>Every completed write is for the message whose turn it is.\<close>

lemma ws_ptr_echo_inv:
  assumes "ws_ptr_inv c"
  shows "\<exists>sent c' ts ms. ws_ptr_echo es c = Inr (sent, c') \<and> ws_ptr_inv c' \<and>
     ws_texts c @ ws_messages es = ms @ ws_texts c' \<and> length ts = length ms \<and>
     sent = map2 (\<lambda>t m. if t then Inr m else Inl Use_After_Free) ts ms \<and> set ts \<subseteq> ws_flags c \<union> ws_taken ` set es"
  using assms
proof (induction es arbitrary: c)
  case Nil
  then show ?case by (intro exI [of _ "[]"] exI [of _ c]) simp
next
  case (Cons e es)
  show ?case
  proof (cases e)
    case (Ws_Message taken msg)
    from ws_ptr_AsyncSend_ok [OF Cons.prems, of taken msg] obtain c1 where
      1: "ws_ptr_AsyncSend taken msg c = Inr c1" "ws_ptr_inv c1" "ws_texts c1 = ws_texts c @ [msg]" "ws_flags c1 \<subseteq> insert taken (ws_flags c)" by blast
    from Cons.IH [OF 1(2)] obtain sent c' ts ms where
      "ws_ptr_echo es c1 = Inr (sent, c')" "ws_ptr_inv c'" "ws_texts c1 @ ws_messages es = ms @ ws_texts c'" "length ts = length ms"
      "sent = map2 (\<lambda>t m. if t then Inr m else Inl Use_After_Free) ts ms" "set ts \<subseteq> ws_flags c1 \<union> ws_taken ` set es" by blast
    with 1 Ws_Message show ?thesis
      by (intro exI [of _ sent] exI [of _ c'] exI [of _ ts] exI [of _ ms]) auto
  next
    case (Ws_Written taken)
    show ?thesis
    proof (cases "wp_writes c = []")
      case True
      with Cons.IH [OF Cons.prems] Ws_Written show ?thesis by fastforce
    next
      case False
      from ws_ptr_written_ok [OF Cons.prems False, of taken Map.empty] obtain c1 t where
        1: "ws_ptr_on_written taken None c Map.empty = Inr (c1, Map.empty)" "ws_ptr_inv c1" "ws_flags c1 \<subseteq> {taken}" "ws_texts c = t # ws_texts c1"
          "ws_sent c (hd (wp_writes c)) = (if is_taken (hd (wp_writes c)) then Inr t else Inl Use_After_Free)" by blast
      from Cons.IH [OF 1(2)] obtain sent c' ts ms where
        2: "ws_ptr_echo es c1 = Inr (sent, c')" "ws_ptr_inv c'" "ws_texts c1 @ ws_messages es = ms @ ws_texts c'" "length ts = length ms"
        "sent = map2 (\<lambda>t m. if t then Inr m else Inl Use_After_Free) ts ms" "set ts \<subseteq> ws_flags c1 \<union> ws_taken ` set es" by blast
      have "is_taken (hd (wp_writes c)) \<in> ws_flags c" using False by (simp add: ws_flags_def)
      with 1 2 False Ws_Written show ?thesis
        by (intro exI [of _ "ws_sent c (hd (wp_writes c)) # sent"] exI [of _ c'] exI [of _ "is_taken (hd (wp_writes c)) # ts"] exI [of _ "t # ms"]) auto
    qed
  qed
qed

section \<open>Properties\<close>

text \<open>
  C21. The buffers of the pooled server live long enough: run over an explicit store, any sequence of sends
  and completed writes does not fault, the buffer of the write in flight belongs to a node that is
  alive and holds the first frame of the queue, and the session runs in step with the one whose
  buffers are kept by value: the same frames are accepted, delivered, waiting and in flight.
\<close>

theorem tlv_buffers_live:
  assumes "calls_valid tlv_valid es"
  shows "\<exists>r r'. run_sends ptr_queue ptr_inflight (\<lambda>m. Some (tlv_frame_of m)) ptr_send_pair ptr_write_done es (run_start (ptr_Session uuid)) = Inr r \<and>
     run_sends tlv_queue ts_writes tlv_frame_of tlv_send_pair tlv_write_done es (run_start (tlv_Session uuid)) = Inr r' \<and>
     run_accepted r = map Some (run_accepted r') \<and> run_delivered r = map Some (run_delivered r') \<and>
     ptr_queue (run_state r) = map Some (tlv_queue (run_state r')) \<and>
     map (ptr_read (run_state r)) (ps_writes (run_state r)) = map Some (ts_writes (run_state r'))"
proof -
  have "ptr_tlv.in_step (run_start (ptr_Session uuid)) (run_start (tlv_Session uuid))"
    by (simp add: ptr_tlv.in_step_def run_start_def ptr_Session_def tlv_Session_def ptr_inv_def tlv_inv_def ptr_queue_def tlv_queue_def)
  from ptr_tlv.runs_in_step [OF this assms] obtain r r' where
    r: "run_sends ptr_queue ptr_inflight (\<lambda>m. Some (tlv_frame_of m)) ptr_send_pair ptr_write_done es (run_start (ptr_Session uuid)) = Inr r"
      "run_sends tlv_queue ts_writes tlv_frame_of tlv_send_pair tlv_write_done es (run_start (tlv_Session uuid)) = Inr r'"
      "ptr_tlv.in_step r r'" by blast
  with ptr_tlv.inflight_in_step [OF r(3)] show ?thesis
    by (intro exI [of _ r] exI [of _ r']) (simp add: ptr_tlv.in_step_def ptr_inflight_def)
qed

theorem tlv_buffers_live_witness:
  "\<exists>r r'. run_sends ptr_queue ptr_inflight (\<lambda>m. Some (tlv_frame_of m)) ptr_send_pair ptr_write_done
       [Send_Call (''ab'', 1001), Send_Call (''c'', 1001), Write_Done] (run_start (ptr_Session ''u'')) = Inr r \<and>
     run_sends tlv_queue ts_writes tlv_frame_of tlv_send_pair tlv_write_done
       [Send_Call (''ab'', 1001), Send_Call (''c'', 1001), Write_Done] (run_start (tlv_Session ''u'')) = Inr r' \<and>
     run_accepted r = map Some (run_accepted r') \<and> run_delivered r = map Some (run_delivered r') \<and>
     ptr_queue (run_state r) = map Some (tlv_queue (run_state r')) \<and>
     map (ptr_read (run_state r)) (ps_writes (run_state r)) = map Some (ts_writes (run_state r'))"
  by (rule tlv_buffers_live) (simp add: tlv_valid_def)

text \<open>
  C33. The buffers of the WebSocket server do not: for any sequence of messages and completed writes the
  program itself runs on, but a write that has not read its buffer when \<open>async_write\<close> returns
  always points to a string that has been destroyed, and reads freed memory; only a write that
  has been taken at once sends the first message of the queue.
\<close>

theorem ws_deferred_writes_dangle:
  "\<exists>c. ws_ptr_run es (ws_ptr_Connection uuid) = Inr c \<and> length (wp_writes c) = min 1 (length (wp_send_que c)) \<and>
     (\<forall>w \<in> set (wp_writes c). case w of
        Taken t \<Rightarrow> deref (hd (wp_send_que c)) (wp_strings c) = Inr t
      | Deferred p n \<Rightarrow> ws_sent c w = Inl Use_After_Free)"
proof -
  have "ws_ptr_inv (ws_ptr_Connection uuid)" by (simp add: ws_ptr_inv_def ws_ptr_Connection_def)
  from ws_ptr_run_inv [OF this] obtain c where c: "ws_ptr_run es (ws_ptr_Connection uuid) = Inr c" "ws_ptr_inv c" by blast
  show ?thesis
  proof (cases "wp_send_que c")
    case Nil
    with c show ?thesis by (auto simp: ws_ptr_inv_def)
  next
    case (Cons a q)
    then obtain w where "wp_writes c = [w]" "write_state c a w" using c(2) by (auto simp: ws_ptr_inv_def list_all2_Cons1)
    with c(1) Cons show ?thesis by (cases w) (auto simp: write_state_def deref_def)
  qed
qed

theorem ws_deferred_writes_dangle_witness:
  "\<exists>c. ws_ptr_run [Ws_Message False ''hi''] (ws_ptr_Connection ''u'') = Inr c \<and>
     (\<exists>w. wp_writes c = [w] \<and> ws_sent c w = Inl Use_After_Free)"
proof -
  from ws_deferred_writes_dangle [of "[Ws_Message False ''hi'']" "''u''"] obtain c where
    c: "ws_ptr_run [Ws_Message False ''hi''] (ws_ptr_Connection ''u'') = Inr c" and
    w: "\<forall>w \<in> set (wp_writes c). case w of Taken t \<Rightarrow> deref (hd (wp_send_que c)) (wp_strings c) = Inr t
      | Deferred p n \<Rightarrow> ws_sent c w = Inl Use_After_Free" by blast
  from c have "\<exists>p n. wp_writes c = [Deferred p n]"
    by (auto simp: ws_ptr_AsyncSend_def ws_ptr_SendCallBack_def alloc_def destroy_def push_back_def ws_ptr_Connection_def empty_store_def)
  with c w show ?thesis by auto
qed


end
