(* ===== verification/Coro_Client.thy ===== *)
theory Coro_Client
  imports Clients Coro_Logic
begin

text \<open>
  The message nodes and the client of \<open>4. CoroutineAsyncServer\<close> (\<open>MsgNode.h\<close>, \<open>MsgNode.cpp\<close>,
  \<open>JsonClient.cpp\<close>). The nodes are those of the pooled server and are proved to be. The client, whose
  text is that of the pooled server's client, is given here as the whole program: connecting,
  the loop over the lines of the user, every way out of it; and it is run against the server.
\<close>

section \<open>Message nodes\<close>

definition coro_MsgNode :: "int \<Rightarrow> msg_node res" where
  "coro_MsgNode max_len =
     bindr (new_chars (max_len + 1)) (\<lambda>data.
     bindr (store data max_len NUL) (\<lambda>data.
     Inr \<lparr>node_cur_len = 0, node_total_len = max_len, node_data = data\<rparr>))"

definition coro_Clear :: "msg_node \<Rightarrow> msg_node" where
  "coro_Clear m = m\<lparr>node_data := replicate (nat (node_total_len m)) NUL @ drop (nat (node_total_len m)) (node_data m),
     node_cur_len := 0\<rparr>"

definition coro_RecvNode :: "int \<Rightarrow> int \<Rightarrow> tlv_node res" where
  "coro_RecvNode max_len msg_id =
     bindr (coro_MsgNode max_len) (\<lambda>m.
     Inr \<lparr>node_cur_len = node_cur_len m, node_total_len = node_total_len m, node_data = node_data m, node_msg_id = msg_id\<rparr>)"

definition coro_SendNode :: "char list \<Rightarrow> int \<Rightarrow> int \<Rightarrow> tlv_node res" where
  "coro_SendNode msg max_len msg_id =
     bindr (coro_MsgNode (to_short (max_len + HEAD_TOTAL_LEN))) (\<lambda>m.
     let msg_id_host = bytes16 (word_of_int msg_id) in
     bindr (memcpy (node_data m) 0 msg_id_host HEAD_ID_LEN) (\<lambda>data.
     let max_len_host = bytes16 (word_of_int max_len) in
     bindr (memcpy data HEAD_ID_LEN max_len_host HEAD_DATA_LEN) (\<lambda>data.
     bindr (memcpy data (HEAD_ID_LEN + HEAD_DATA_LEN) msg max_len) (\<lambda>data.
     Inr \<lparr>node_cur_len = node_cur_len m, node_total_len = node_total_len m, node_data = data, node_msg_id = msg_id\<rparr>))))"

lemma coro_nodes_eq:
  "coro_MsgNode = tlv_msg_node" "coro_Clear = node_clear" "coro_RecvNode = RecvNode" "coro_SendNode = SendNode"
proof -
  show m: "coro_MsgNode = tlv_msg_node" by (simp add: fun_eq_iff coro_MsgNode_def tlv_msg_node_def)
  show "coro_Clear = node_clear" by (simp add: fun_eq_iff coro_Clear_def node_clear_def)
  have x: "msg_node.extend n (tlv_node.fields i) =
      \<lparr>node_cur_len = node_cur_len n, node_total_len = node_total_len n, node_data = node_data n, node_msg_id = i\<rparr>" for n :: msg_node and i
    by (cases n) (simp add: msg_node.defs tlv_node.defs)
  show "coro_RecvNode = RecvNode" by (simp add: fun_eq_iff coro_RecvNode_def RecvNode_def m x)
  show "coro_SendNode = SendNode" by (simp add: fun_eq_iff coro_SendNode_def SendNode_def m x Let_def)
qed

section \<open>The client\<close>

text \<open>How the program ends; it returns 0 in every case.\<close>

datatype client_end = Connect_Failed | Input_Ended | Quit | Invalid_Length | Exception_Caught

text \<open>What it prints for a line: an id with a JSON value, or one of two messages.\<close>

datatype 'j shown = Shown int 'j | Input_Too_Long | Parse_Failed

text \<open>The reply to a request, with what the server has sent after it.\<close>

definition json_client_reply :: "char list \<Rightarrow> (client_end + int \<times> string \<times> char list) res" where
  "json_client_reply inp =
     (case co_read (nat HEAD_TOTAL) inp of
        None \<Rightarrow> Inr (Inl Exception_Caught)
      | Some (reply_head, inp) \<Rightarrow>
          (let resp_msgid = uint (word16 reply_head);
               msglen = uint (word16 (drop 2 reply_head)) in
           if msglen = 0 \<or> msglen > MAX_LENGTH then Inr (Inl Invalid_Length)
           else
             (case co_read (nat msglen) inp of
                None \<Rightarrow> Inr (Inl Exception_Caught)
              | Some (bs, inp) \<Rightarrow>
                  bindr (memcpy (replicate (nat MAX_LENGTH) NUL) 0 bs msglen) (\<lambda>msg.
                  Inr (Inr (resp_msgid, take (nat msglen) msg, inp))))))"

text \<open>
  The loop. The user's lines come with whether the write of the request succeeds, if there is
  one; \<open>inp\<close> is all the server sends from here on. The result: how the program ends, the requests
  written, what is printed. An exception, of asio or of the JSON library, ends the loop.
\<close>

fun json_client_loop :: "'j json_lib \<Rightarrow> (string \<times> bool) list \<Rightarrow> char list \<Rightarrow> (client_end \<times> char list list \<times> 'j shown list) res" where
  "json_client_loop js [] inp = Inr (Input_Ended, [], [])"
| "json_client_loop js ((user_input, write_ok) # lines) inp =
     (if user_input = ''quit'' then Inr (Quit, [], [])
      else if user_input = [] then json_client_loop js lines inp
      else
        case json_client_send js user_input of
          Inl e \<Rightarrow> if is_exception e then Inr (Exception_Caught, [], []) else Inl e
        | Inr None \<Rightarrow> bindr (json_client_loop js lines inp) (\<lambda>(end, sent, out). Inr (end, sent, Input_Too_Long # out))
        | Inr (Some request) \<Rightarrow>
            if \<not> write_ok then Inr (Exception_Caught, [], [])
            else
              bindr (json_client_reply inp) (\<lambda>reply. case reply of
                Inl end \<Rightarrow> Inr (end, [request], [])
              | Inr (resp_msgid, text, inp) \<Rightarrow>
                  (case json_parse js text of
                     None \<Rightarrow> bindr (json_client_loop js lines inp) (\<lambda>(end, sent, out). Inr (end, request # sent, Parse_Failed # out))
                   | Some resp_root \<Rightarrow>
                       (case json_at js ''data'' resp_root of
                          None \<Rightarrow> Inr (Exception_Caught, [request], [])
                        | Some (_, v) \<Rightarrow>
                            bindr (json_client_loop js lines inp) (\<lambda>(end, sent, out). Inr (end, request # sent, Shown resp_msgid v # out))))))"

definition json_client_main :: "'j json_lib \<Rightarrow> bool \<Rightarrow> (string \<times> bool) list \<Rightarrow> char list \<Rightarrow> (client_end \<times> char list list \<times> 'j shown list) res" where
  "json_client_main js connected lines inp =
     (if \<not> connected then Inr (Connect_Failed, [], []) else json_client_loop js lines inp)"

section \<open>Safety\<close>

lemma json_client_reply_safe: "\<exists>r. json_client_reply inp = Inr r"
proof (cases "co_read (nat HEAD_TOTAL) inp")
  case (Some x)
  obtain h inp1 where x: "x = (h, inp1)" by (cases x)
  obtain n where n: "n = uint (word16 (drop 2 h))" by blast
  show ?thesis
  proof (cases "n = 0 \<or> n > MAX_LENGTH \<or> co_read (nat n) inp1 = None")
    case True
    with Some x n show ?thesis by (auto simp: json_client_reply_def Let_def)
  next
    case False
    then obtain bs inp2 where bs: "co_read (nat n) inp1 = Some (bs, inp2)" by auto
    then have "length bs = nat n" by (auto simp: co_read_def split: if_splits)
    moreover have "0 \<le> n" by (simp add: n)
    ultimately have "memcpy (replicate (nat MAX_LENGTH) NUL) 0 bs n = Inr (bs @ drop (nat n) (replicate (nat MAX_LENGTH) NUL))"
      using False by (auto simp: memcpy_def MAX_LENGTH_def)
    with False bs Some x show ?thesis by (simp add: json_client_reply_def Let_def flip: n)
  qed
qed (simp add: json_client_reply_def)

lemma json_client_send_safe: "json_client_send js line = Inl e \<Longrightarrow> e = Logic_Error"
proof -
  assume e: "json_client_send js line = Inl e"
  show "e = Logic_Error"
  proof (rule ccontr)
    assume n: "e \<noteq> Logic_Error"
    obtain o1 o2 where o: "json_set js ''id'' (json_int js 1001) (json_null js) = Some o1"
      "json_set js ''data'' (json_string js line) o1 = Some o2"
      using e n by (auto simp: json_client_send_def bindr_eq_Inl throws_def split: if_splits option.splits)
    show False
    proof (cases "line \<noteq> [] \<and> length (json_styled js o2) \<le> 2044")
      case True
      with json_client_send_frame [OF o] e show False by simp
    next
      case False
      with e o show False by (auto simp: json_client_send_def MAX_LENGTH_def HEAD_TOTAL_def Let_def split: if_splits)
    qed
  qed
qed

lemma json_client_loop_safe: "\<exists>r. json_client_loop js lines inp = Inr r"
proof (induction lines arbitrary: inp)
  case (Cons l lines)
  obtain line ok where l: "l = (line, ok)" by (cases l)
  obtain r where r: "json_client_reply inp = Inr r" using json_client_reply_safe by blast
  obtain f where f: "json_client_loop js lines i = Inr (f i)" for i using Cons.IH by metis
  show ?case
    using json_client_send_safe [of js line]
    by (cases r) (auto simp: l r f is_exception_def split: sum.split option.split prod.split)
qed simp

section \<open>A conversation\<close>

text \<open>
  What the JSON library says of the objects made for a line: the request and the answer are read
  back as they were written, and fit into the messages.
\<close>

definition json_echo :: "'j json_lib \<Rightarrow> string \<Rightarrow> 'j \<Rightarrow> bool" where
  "json_echo js line v \<longleftrightarrow> (\<exists>o1 o2 o3 o4 vi vd.
     json_set js ''id'' (json_int js 1001) (json_null js) = Some o1 \<and>
     json_set js ''data'' (json_string js line) o1 = Some o2 \<and>
     0 < length (json_styled js o2) \<and> length (json_styled js o2) \<le> 2044 \<and> json_parse js (json_styled js o2) = Some o2 \<and>
     json_at js ''id'' o2 = Some (o2, vi) \<and> json_asInt js vi = Some 1001 \<and>
     json_at js ''data'' o2 = Some (o2, vd) \<and> json_asString js vd = Some line \<and>
     json_set js ''data'' (json_string js (''server has received msg, msg data is '' @ line)) o2 = Some o3 \<and>
     json_at js ''id'' o3 = Some (o3, vi) \<and>
     0 < length (json_styled js o3) \<and> length (json_styled js o3) \<le> 2048 \<and>
     json_parse js (json_styled js o3) = Some o4 \<and> json_at js ''data'' o4 = Some (o4, v))"

text \<open>
  The server on one connection, whose client waits for the answer before it writes again. The state
  is that of the connection: the bytes not read yet, the session, and the map of sessions; it is kept
  from request to request. When bytes arrive, the receiving coroutine does a turn of its loop, the
  logic layer calls the callback for the message posted, and if a write has been started, it
  completes and its bytes are the client's.
\<close>

definition server_turn ::
  "'j json_lib \<Rightarrow> char list \<Rightarrow> char list \<times> tlv_session \<times> sessions \<Rightarrow> (char list \<times> char list \<times> tlv_session \<times> sessions) res" where
  "server_turn js bs = (\<lambda>(unread, s, ss).
     if ts_b_close s then Inr ([], unread @ bs, s, ss)
     else
       bindr (coro_turn (unread @ bs) s ss) (\<lambda>((s, ss), posted). case posted of
         None \<Rightarrow> Inr ([], [], s, ss)
       | Some (m, unread) \<Rightarrow>
           bindr (run_callback (coro_RegisterCallBacks js Map.empty) \<lparr>ln_session = ts_uuid s, ln_recvnode = m\<rparr> (\<lambda>_. s)) (\<lambda>sessions.
           let s = sessions (ts_uuid s) in
           case ts_writes s of
             [] \<Rightarrow> Inr ([], unread, s, ss)
           | w # _ \<Rightarrow> bindr (coro_HandleWrite None s ss) (\<lambda>(s, ss). Inr (w, unread, s, ss)))))"

fun server_run ::
  "'j json_lib \<Rightarrow> char list list \<Rightarrow> char list \<times> tlv_session \<times> sessions \<Rightarrow> (char list list \<times> char list \<times> tlv_session \<times> sessions) res" where
  "server_run js [] st = Inr ([], st)"
| "server_run js (bs # bss) st =
     bindr (server_turn js bs st) (\<lambda>(out, st).
     bindr (server_run js bss st) (\<lambda>(outs, st). Inr (out # outs, st)))"

text \<open>A session that waits for a request: nothing queued, no write on its way.\<close>

definition waiting :: "string \<Rightarrow> tlv_session \<Rightarrow> bool" where
  "waiting uuid s \<longleftrightarrow> ts_uuid s = uuid \<and> \<not> ts_b_close s \<and> ts_send_que s = [] \<and> ts_writes s = []"

lemma Send_string_keeps: "tlv_Send_string t i s = Inr s' \<Longrightarrow> ts_b_close s' = ts_b_close s \<and> ts_uuid s' = ts_uuid s"
  by (auto simp: tlv_Send_string_def tlv_Send_def tlv_async_write_def Let_def bindr_eq_Inr split: if_splits)

lemma answered_and_written:
  assumes "waiting uuid s" and "length t \<le> 32763"
  obtains s1 s2 where "tlv_Send_string t i s = Inr s1" and "ts_uuid s1 = uuid" and "ts_writes s1 = [tlv_frame i t]"
    and "coro_HandleWrite None s1 ss = Inr (s2, ss)" and "waiting uuid s2"
proof -
  have z: "tlv_inv s" "tlv_queue s = []" "tlv_admits s"
    using assms(1) by (simp_all add: waiting_def tlv_inv_def tlv_queue_def tlv_admits_def MAX_SENDQUE_def)
  from Send_string_reply [OF z(1) assms(2), of i] z obtain s1 where
    s1: "tlv_Send_string t i s = Inr s1" "tlv_inv s1" "tlv_queue s1 = [tlv_frame i t]" by auto
  from s1(3) obtain n where q: "ts_send_que s1 = [n]" by (auto simp: tlv_queue_def)
  have w: "ts_writes s1 = [tlv_frame i t]" using s1(2,3) by (simp add: tlv_inv_def)
  have k: "ts_b_close s1 = ts_b_close s" "ts_uuid s1 = ts_uuid s" using Send_string_keeps [OF s1(1)] by simp_all
  let ?s2 = "s1\<lparr>ts_writes := [], ts_send_que := []\<rparr>"
  have "coro_HandleWrite None s1 ss = Inr (?s2, ss)" using q w by (simp add: coro_HandleWrite_def queue_defs)
  moreover have "waiting uuid ?s2" "ts_uuid s1 = uuid" using k assms(1) by (simp_all add: waiting_def)
  ultimately show thesis using s1(1) w by (intro that)
qed

lemma json_client_reply_frame:
  assumes "0 < length t" and "length t \<le> 2048"
  shows "json_client_reply (tlv_frame 1001 t @ rest) = Inr (Inr (1001, t, rest))"
proof -
  let ?n = "int (length t)"
  let ?h = "bytes16 (word_of_int 1001) @ bytes16 (word_of_int ?n)"
  have 1: "co_read (nat HEAD_TOTAL) (tlv_frame 1001 t @ rest) = Some (?h, t @ rest)"
    using co_read_append [of ?h 4 "t @ rest"] by (simp add: HEAD_TOTAL_def tlv_frame_split)
  have "drop 2 ?h = bytes16 (word_of_int ?n)" by simp
  then have 2: "uint (word16 (drop 2 ?h)) = ?n" using assms(2) by (simp only: word16_pair uint_length16)
  have 3: "uint (word16 ?h) = 1001" unfolding word16_pair by simp
  have 4: "co_read (nat ?n) (t @ rest) = Some (t, rest)" by (simp add: co_read_append)
  have 5: "memcpy (replicate (nat MAX_LENGTH) NUL) 0 t ?n = Inr (t @ drop (length t) (replicate 2048 NUL))"
    using assms by (simp add: memcpy_def MAX_LENGTH_def del: drop_replicate)
  have "\<not> (?n = 0 \<or> ?n > MAX_LENGTH)" using assms by (simp add: MAX_LENGTH_def)
  then show ?thesis unfolding json_client_reply_def 1 option.case prod.case Let_def 2 3 4 5 by simp
qed

text \<open>One line of the conversation, before any others, on a session that waits.\<close>

lemma conversation_line:
  assumes "json_echo js line v" and "line \<noteq> []" and "line \<noteq> ''quit''" and "waiting uuid s"
  obtains request reply s' where "server_turn js request ([], s, ss) = Inr (reply, [], s', ss)" and "waiting uuid s'"
    and "\<And>lines inp. json_client_loop js ((line, True) # lines) (reply @ inp) =
      bindr (json_client_loop js lines inp) (\<lambda>(end, sent, out). Inr (end, request # sent, Shown 1001 v # out))"
proof -
  from assms(1) obtain o1 o2 o3 o4 vi vd where
    o1: "json_set js ''id'' (json_int js 1001) (json_null js) = Some o1" and o2: "json_set js ''data'' (json_string js line) o1 = Some o2"
    and h: "0 < length (json_styled js o2)" "length (json_styled js o2) \<le> 2044" "json_parse js (json_styled js o2) = Some o2"
      "json_at js ''id'' o2 = Some (o2, vi)" "json_asInt js vi = Some 1001" "json_at js ''data'' o2 = Some (o2, vd)" "json_asString js vd = Some line"
      "json_set js ''data'' (json_string js (''server has received msg, msg data is '' @ line)) o2 = Some o3"
      "json_at js ''id'' o3 = Some (o3, vi)" "0 < length (json_styled js o3)" "length (json_styled js o3) \<le> 2048"
    and o4: "json_parse js (json_styled js o3) = Some o4" "json_at js ''data'' o4 = Some (o4, v)" unfolding json_echo_def by blast
  let ?t = "json_styled js o2" and ?u = "json_styled js o3"
  let ?request = "tlv_frame 1001 ?t" and ?reply = "tlv_frame 1001 ?u"
  have send: "json_client_send js line = Inr (Some ?request)" using json_client_send_frame [OF o1 o2 assms(2) h(2)] .
  obtain s0 where s0: "coro_turn (?request @ []) s ss = Inr ((s0, ss), Some (tlv_message 1001 ?t, []))"
    "ts_uuid s0 = ts_uuid s" "ts_b_close s0 = ts_b_close s" "ts_send_que s0 = ts_send_que s" "ts_writes s0 = ts_writes s"
    using coro_turn_frame [of 1001 ?t "[]" s ss] h(1,2) by auto
  then have "waiting uuid s0" using assms(4) by (simp add: waiting_def)
  with h(11) obtain s1 s2 where s1: "tlv_Send_string ?u 1001 s0 = Inr s1" "ts_uuid s1 = uuid" "ts_writes s1 = [?reply]"
    "coro_HandleWrite None s1 ss = Inr (s2, ss)" "waiting uuid s2"
    using answered_and_written [of uuid s0 ?u 1001 ss] by auto
  have "HelloWordCallBack js MSG_HELLO_WORLD ?t s0 = Inr s1"
    unfolding HelloWordCallBack_def h(3) using s1(1) h(4-9) by simp
  then have cb: "run_callback (coro_RegisterCallBacks js Map.empty) \<lparr>ln_session = ts_uuid s0, ln_recvnode = tlv_message 1001 ?t\<rparr> (\<lambda>_. s0) =
      Inr ((\<lambda>_. s0)(ts_uuid s0 := s1))"
    using run_hello [of "\<lparr>ln_session = ts_uuid s0, ln_recvnode = tlv_message 1001 ?t\<rparr>" js Map.empty "\<lambda>_. s0"]
    by (simp add: MSG_HELLO_WORLD_def coro_RegisterCallBacks_def RegisterCallBacks_def coro_HelloWordCallBack_eq)
  have "\<not> ts_b_close s" using assms(4) by (simp add: waiting_def)
  with s0(1) cb s1(3,4) have turn: "server_turn js ?request ([], s, ss) = Inr (?reply, [], s2, ss)" by (simp add: server_turn_def)
  show thesis
    by (rule that [OF turn s1(5)]) (use send assms(2,3) o4 in \<open>simp add: json_client_reply_frame [OF h(10,11)]\<close>)
qed

lemma conversation:
  assumes "\<forall>line \<in> set lines. json_echo js line (v line) \<and> line \<noteq> [] \<and> line \<noteq> ''quit''" and "waiting uuid s"
  shows "\<exists>requests replies s'. length requests = length lines \<and>
     server_run js requests ([], s, ss) = Inr (replies, [], s', ss) \<and> waiting uuid s' \<and>
     json_client_loop js (map (\<lambda>line. (line, True)) lines) (concat replies) =
       Inr (Input_Ended, requests, map (\<lambda>line. Shown 1001 (v line)) lines)"
  using assms
proof (induction lines arbitrary: s)
  case Nil
  then show ?case by (intro exI [of _ "[]"] exI [of _ s]) simp
next
  case (Cons line lines)
  from Cons.prems have "json_echo js line (v line)" "line \<noteq> []" "line \<noteq> ''quit''" by simp_all
  from conversation_line [OF this Cons.prems(2), of ss] obtain request reply s1 where
    1: "server_turn js request ([], s, ss) = Inr (reply, [], s1, ss)" "waiting uuid s1"
      "\<And>lines inp. json_client_loop js ((line, True) # lines) (reply @ inp) =
        bindr (json_client_loop js lines inp) (\<lambda>(end, sent, out). Inr (end, request # sent, Shown 1001 (v line) # out))" by blast
  from Cons.IH [OF _ 1(2)] Cons.prems(1) obtain requests replies s' where
    "length requests = length lines" "server_run js requests ([], s1, ss) = Inr (replies, [], s', ss)" "waiting uuid s'"
    "json_client_loop js (map (\<lambda>line. (line, True)) lines) (concat replies) =
       Inr (Input_Ended, requests, map (\<lambda>line. Shown 1001 (v line)) lines)" by auto
  with 1 show ?case by (intro exI [of _ "request # requests"] exI [of _ "reply # replies"] exI [of _ s']) simp
qed

section \<open>Properties\<close>

text \<open>
  C9. A whole conversation between the JSON client and the coroutine server, on one connection: for any
  sequence of lines whose JSON objects fit into the messages, the client writes one request per line,
  and the server, fed with these requests one after the other on the same session, answers each;
  the client, reading the answers from one stream, prints for every line, in order, the id 1001 and
  the value the server has put under \<open>data\<close>, until the input ends. Afterwards the session is still
  open, with an empty queue and no write on its way.
\<close>

theorem json_conversation:
  assumes "\<forall>line \<in> set lines. json_echo js line (v line) \<and> line \<noteq> [] \<and> line \<noteq> ''quit''"
  shows "\<exists>requests replies s'. length requests = length lines \<and>
     server_run js requests ([], tlv_Session uuid, ss) = Inr (replies, [], s', ss) \<and>
     \<not> ts_b_close s' \<and> ts_send_que s' = [] \<and> ts_writes s' = [] \<and>
     json_client_main js True (map (\<lambda>line. (line, True)) lines) (concat replies) =
       Inr (Input_Ended, requests, map (\<lambda>line. Shown 1001 (v line)) lines)"
proof -
  have "waiting uuid (tlv_Session uuid)" by (simp add: waiting_def tlv_Session_def)
  from conversation [OF assms this, of ss] show ?thesis by (auto simp: waiting_def json_client_main_def)
qed

theorem json_conversation_witness:
  "\<exists>js :: jval json_lib. \<exists>requests replies s'. length requests = 2 \<and>
     server_run js requests ([], tlv_Session ''u'', Map.empty) = Inr (replies, [], s', Map.empty) \<and>
     json_client_main js True [(''hi'', True), (''there'', True)] (concat replies) =
       Inr (Input_Ended, requests, [Shown 1001 (J_Str ''server has received msg, msg data is hi''),
         Shown 1001 (J_Str ''server has received msg, msg data is there'')])"
proof -
  let ?js = "example_json\<lparr>json_parse := \<lambda>t. Some (J_Obj [(''id'', J_Int 1001), (''data'', J_Str t)])\<rparr>"
  let ?v = "\<lambda>line. J_Str (''server has received msg, msg data is '' @ line)"
  have e: "json_echo ?js line (?v line)" if "0 < length line" "length line < 100" for line
    unfolding json_echo_def
    by (rule exI [of _ "J_Obj [(''id'', J_Int 1001)]"], rule exI [of _ "J_Obj [(''id'', J_Int 1001), (''data'', J_Str line)]"],
        rule exI [of _ "J_Obj [(''id'', J_Int 1001), (''data'', ?v line)]"], rule exI [of _ "J_Obj [(''id'', J_Int 1001), (''data'', ?v line)]"],
        rule exI [of _ "J_Int 1001"], rule exI [of _ "J_Str line"]) (use that in \<open>simp add: example_json_def\<close>)
  have "\<forall>line \<in> set [''hi'', ''there'']. json_echo ?js line (?v line) \<and> line \<noteq> [] \<and> line \<noteq> ''quit''" using e by simp
  from json_conversation [OF this, of "''u''" Map.empty] show ?thesis by (intro exI [of _ ?js]) (auto simp: numeral_2_eq_2)
qed

text \<open>
  C34. The JSON client is safe against its user and its server: whatever is typed, whatever bytes
  arrive or fail to, and whatever the JSON library answers, no access of the client is out of
  bounds, and the loop ends.
\<close>

theorem json_client_safe:
  "\<exists>end sent out. json_client_main js connected lines inp = Inr (end, sent, out)"
  using json_client_loop_safe [of js lines inp] by (auto simp: json_client_main_def)

end
