(* ===== verification/Locks.thy ===== *)
theory Locks
  imports Thread_Pool
begin

text \<open>
  The wrappers of \<open>1. Proactor/locker.h\<close> as objects with a life: \<open>locker\<close>, \<open>cond\<close> and \<open>sem\<close> are
  constructed, which may fail, used by threads, and destroyed. The thread pool has two of them as
  members, and its constructor can throw after it has started threads that use them.
\<close>

section \<open>Objects\<close>

datatype 'a object = Alive 'a | Destroyed

definition use :: "'a object \<Rightarrow> 'a res" where
  "use ob = (case ob of Alive x \<Rightarrow> Inr x | Destroyed \<Rightarrow> Inl Use_After_Free)"

lemma use_simps [simp]: "use (Alive x) = Inr x" "use Destroyed = Inl Use_After_Free"
  by (simp_all add: use_def)

text \<open>
  A constructor gets what the \<open>init\<close> function of the system returns; \<open>None\<close> is the exception. A mutex
  is its holder, a condition variable the threads that wait on it, a semaphore its count.
\<close>

definition locker_ctor :: "int \<Rightarrow> nat option object option" where
  "locker_ctor init = (if init \<noteq> 0 then None else Some (Alive None))"

definition cond_ctor :: "int \<Rightarrow> nat list object option" where
  "cond_ctor init = (if init \<noteq> 0 then None else Some (Alive []))"

definition sem_ctor :: "int \<Rightarrow> nat object option" where
  "sem_ctor init = (if init \<noteq> 0 then None else Some (Alive 0))"

definition sem_ctor_num :: "int \<Rightarrow> nat \<Rightarrow> nat object option" where
  "sem_ctor_num init num = (if init \<noteq> 0 then None else Some (Alive num))"

definition object_dtor :: "'a object \<Rightarrow> 'a object" where
  "object_dtor ob = Destroyed"

text \<open>The methods; \<open>None\<close> while the caller is blocked, and otherwise what the method returns.\<close>

definition lock_method :: "nat \<Rightarrow> nat option object \<Rightarrow> (bool \<times> nat option object) res option" where
  "lock_method t m =
     (case use m of
        Inl e \<Rightarrow> Some (Inl e)
      | Inr None \<Rightarrow> Some (Inr (True, Alive (Some t)))
      | Inr (Some _) \<Rightarrow> None)"

definition unlock_method :: "nat option object \<Rightarrow> (bool \<times> nat option object) res" where
  "unlock_method m = bindr (use m) (\<lambda>_. Inr (True, Alive None))"

definition sem_wait_method :: "nat object \<Rightarrow> (bool \<times> nat object) res option" where
  "sem_wait_method s =
     (case use s of
        Inl e \<Rightarrow> Some (Inl e)
      | Inr n \<Rightarrow> if n = 0 then None else Some (Inr (True, Alive (n - 1))))"

definition sem_post_method :: "nat object \<Rightarrow> (bool \<times> nat object) res" where
  "sem_post_method s = bindr (use s) (\<lambda>n. Inr (True, Alive (Suc n)))"

section \<open>Monitors\<close>

text \<open>
  Threads around one \<open>locker\<close> and one \<open>cond\<close>. A thread that waits has given up the lock; it is woken
  by \<open>signal\<close>, \<open>broadcast\<close>, spuriously, or by the time-out of \<open>timewait\<close>, and has to get
  the lock again before the method returns, with the result it was woken with.
\<close>

datatype mon_pc = Outside | Holding | Waiting bool | Relocking bool

record monitor =
  mo_lock :: "nat option"
  mo_cond :: "nat list"
  mo_pc :: "nat \<Rightarrow> mon_pc"

definition cond_wait :: "bool \<Rightarrow> nat \<Rightarrow> monitor \<Rightarrow> monitor" where
  "cond_wait timed t m = m\<lparr>mo_lock := None, mo_cond := mo_cond m @ [t], mo_pc := (mo_pc m)(t := Waiting timed)\<rparr>"

definition cond_wake :: "bool \<Rightarrow> nat \<Rightarrow> monitor \<Rightarrow> monitor" where
  "cond_wake result t m = m\<lparr>mo_cond := removeAll t (mo_cond m), mo_pc := (mo_pc m)(t := Relocking result)\<rparr>"

text \<open>Which of the waiting threads \<open>signal\<close> wakes is the system's choice.\<close>

definition cond_signal :: "nat \<Rightarrow> monitor \<Rightarrow> monitor" where
  "cond_signal choice m =
     (if mo_cond m = [] then m else cond_wake True (mo_cond m ! (choice mod length (mo_cond m))) m)"

definition cond_broadcast :: "monitor \<Rightarrow> monitor" where
  "cond_broadcast m = fold (cond_wake True) (mo_cond m) m"

inductive mon_step :: "monitor \<Rightarrow> monitor \<Rightarrow> bool" where
  lock: "mo_pc m t = Outside \<Longrightarrow> mo_lock m = None \<Longrightarrow> mon_step m (m\<lparr>mo_lock := Some t, mo_pc := (mo_pc m)(t := Holding)\<rparr>)"
| unlock: "mo_pc m t = Holding \<Longrightarrow> mon_step m (m\<lparr>mo_lock := None, mo_pc := (mo_pc m)(t := Outside)\<rparr>)"
| wait: "mo_pc m t = Holding \<Longrightarrow> mon_step m (cond_wait timed t m)"
| signal: "mon_step m (cond_signal choice m)"
| broadcast: "mon_step m (cond_broadcast m)"
| spurious: "mo_pc m t = Waiting timed \<Longrightarrow> mon_step m (cond_wake True t m)"
| timeout: "mo_pc m t = Waiting True \<Longrightarrow> mon_step m (cond_wake False t m)"
| return: "mo_pc m t = Relocking result \<Longrightarrow> mo_lock m = None \<Longrightarrow>
     mon_step m (m\<lparr>mo_lock := Some t, mo_pc := (mo_pc m)(t := Holding)\<rparr>)"

definition mon_start :: monitor where
  "mon_start = \<lparr>mo_lock = None, mo_cond = [], mo_pc = (\<lambda>_. Outside)\<rparr>"

definition mon_inv :: "monitor \<Rightarrow> bool" where
  "mon_inv m \<longleftrightarrow> (\<forall>t. mo_lock m = Some t \<longleftrightarrow> mo_pc m t = Holding) \<and> distinct (mo_cond m) \<and>
     (\<forall>t. t \<in> set (mo_cond m) \<longleftrightarrow> (\<exists>timed. mo_pc m t = Waiting timed))"

lemma mon_inv_holder: "mon_inv m \<Longrightarrow> mo_pc m t = Holding \<Longrightarrow> mo_pc m u = Holding \<Longrightarrow> u = t"
  unfolding mon_inv_def by (metis option.inject)

lemma mon_inv_wake:
  assumes "mon_inv m" and "\<exists>timed. mo_pc m t = Waiting timed"
  shows "mon_inv (cond_wake result t m)"
  using assms by (auto simp: mon_inv_def cond_wake_def distinct_removeAll)

lemma mon_inv_wake_all:
  assumes "mon_inv m" and "distinct ts" and "\<And>t. t \<in> set ts \<Longrightarrow> \<exists>timed. mo_pc m t = Waiting timed"
  shows "mon_inv (fold (cond_wake True) ts m)"
  using assms
proof (induction ts arbitrary: m)
  case (Cons t ts)
  have "mon_inv (cond_wake True t m)" using Cons.prems mon_inv_wake by simp
  moreover have "\<exists>timed. mo_pc (cond_wake True t m) u = Waiting timed" if "u \<in> set ts" for u
    using that Cons.prems(2,3) by (auto simp: cond_wake_def)
  ultimately show ?case using Cons.IH Cons.prems(2) by simp
qed simp

lemma mon_inv_step:
  assumes "mon_step m m'" and "mon_inv m"
  shows "mon_inv m'"
  using assms(1)
proof (cases rule: mon_step.cases)
  case (signal choice)
  show ?thesis
  proof (cases "mo_cond m = []")
    case False
    then have "mo_cond m ! (choice mod length (mo_cond m)) \<in> set (mo_cond m)" by simp
    then have "\<exists>timed. mo_pc m (mo_cond m ! (choice mod length (mo_cond m))) = Waiting timed" using assms(2) unfolding mon_inv_def by blast
    from mon_inv_wake [OF assms(2) this] show ?thesis using False signal by (simp add: cond_signal_def)
  qed (use signal assms(2) in \<open>simp add: cond_signal_def\<close>)
next
  case (unlock t)
  with assms(2) mon_inv_holder [OF assms(2)] show ?thesis by (auto simp: mon_inv_def)
next
  case (wait t timed)
  with assms(2) mon_inv_holder [OF assms(2)] show ?thesis by (auto simp: mon_inv_def cond_wait_def)
next
  case broadcast
  with assms(2) mon_inv_wake_all [OF assms(2), of "mo_cond m"] show ?thesis by (simp add: cond_broadcast_def mon_inv_def)
next
  case (spurious t timed)
  with assms(2) show ?thesis by (auto intro!: mon_inv_wake)
next
  case (timeout t)
  with assms(2) show ?thesis by (auto intro!: mon_inv_wake)
qed (use assms(2) in \<open>auto simp: mon_inv_def cond_wait_def\<close>)

lemma mon_inv_reachable: "mon_step\<^sup>*\<^sup>* mon_start m \<Longrightarrow> mon_inv m"
proof (induction rule: rtranclp_induct)
  case base
  show ?case by (simp add: mon_start_def mon_inv_def)
qed (rule mon_inv_step)

text \<open>
  \<open>wait\<close> and \<open>timewait\<close> return with the lock held: whatever the threads do, the one that holds the
  lock is the only one past \<open>lock\<close> or past the return of a wait, and the threads that the condition
  variable knows are exactly those that wait and hold nothing.
\<close>

theorem monitor_exclusion:
  assumes "mon_step\<^sup>*\<^sup>* mon_start m"
  shows "(mo_pc m t = Holding \<and> mo_pc m u = Holding \<longrightarrow> t = u) \<and> (mo_lock m = Some t \<longleftrightarrow> mo_pc m t = Holding) \<and>
     (t \<in> set (mo_cond m) \<longrightarrow> mo_lock m \<noteq> Some t)"
  using mon_inv_reachable [OF assms] mon_inv_holder by (auto simp: mon_inv_def)

section \<open>The thread pool and its members\<close>

text \<open>
  The members are constructed before the body of the constructor and destroyed when it throws; the threads
  that were started by then are detached and go on.
\<close>

datatype 'a pool_outcome =
    Pool_Made "nat option object" "nat object" "'a threadpool"
  | Pool_Failed "nat option object" "nat object" nat
  | No_Member

definition threadpool_new :: "int \<Rightarrow> int \<Rightarrow> (nat \<Rightarrow> int) \<Rightarrow> (nat \<Rightarrow> int) \<Rightarrow> int \<Rightarrow> int \<Rightarrow> 'a pool_outcome" where
  "threadpool_new mutex_init sem_init create detach thread_number max_request =
     (case locker_ctor mutex_init of
        None \<Rightarrow> No_Member
      | Some lk \<Rightarrow>
          (case sem_ctor sem_init of
             None \<Rightarrow> No_Member
           | Some st \<Rightarrow>
               (case threadpool_ctor create detach thread_number max_request of
                  Inr p \<Rightarrow> Pool_Made lk st p
                | Inl Invalid_Argument \<Rightarrow> Pool_Failed (object_dtor lk) (object_dtor st) 0
                | Inl (Thread_Failure n) \<Rightarrow> Pool_Failed (object_dtor lk) (object_dtor st) n)))"

lemma start_threads_failure:
  assumes "\<forall>j < k. create (i + j) = 0 \<and> detach (i + j) = 0" and "create (i + k) \<noteq> 0" and "k < n"
  shows "start_threads create detach i n = Inl (Thread_Failure (i + k))"
  using assms
proof (induction n arbitrary: i k)
  case (Suc n)
  show ?case
  proof (cases k)
    case 0
    with Suc.prems show ?thesis by simp
  next
    case (Suc k')
    have "\<forall>j < k'. create (Suc i + j) = 0 \<and> detach (Suc i + j) = 0"
    proof (intro allI impI)
      fix j assume "j < k'"
      with Suc.prems(1) \<open>k = Suc k'\<close> show "create (Suc i + j) = 0 \<and> detach (Suc i + j) = 0" by (metis add_Suc_shift Suc_less_eq)
    qed
    moreover have "create i = 0 \<and> detach i = 0" using Suc.prems(1) \<open>k = Suc k'\<close> by (metis add_0_right zero_less_Suc)
    ultimately show ?thesis using Suc.IH [of k' "Suc i"] Suc.prems \<open>k = Suc k'\<close> by simp
  qed
qed simp

text \<open>
  A pool whose \<open>k\<close>-th thread cannot be created leaves \<open>k\<close> threads behind on a pool that no longer
  exists: the first thing each of them does, waiting on the semaphore, is an access to a destroyed
  object. A pool that is made has a free lock and no request announced.
\<close>

theorem failed_pool_leaves_threads:
  assumes "\<forall>j < k. create j = 0 \<and> detach j = 0" and "create k \<noteq> 0" and "int k < thread_number" and "0 < max_request"
  shows "\<exists>m s. threadpool_new 0 0 create detach thread_number max_request = Pool_Failed m s k \<and>
     sem_wait_method s = Some (Inl Use_After_Free) \<and> lock_method t m = Some (Inl Use_After_Free)"
proof -
  have "start_threads create detach 0 (nat thread_number) = Inl (Thread_Failure k)"
    using start_threads_failure [of k create 0 detach "nat thread_number"] assms by simp
  with assms(3,4) show ?thesis
    by (simp add: threadpool_new_def locker_ctor_def sem_ctor_def threadpool_ctor_def object_dtor_def sem_wait_method_def lock_method_def)
qed

theorem failed_pool_leaves_threads_witness:
  "\<exists>m s. (threadpool_new 0 0 (\<lambda>i. if i = 3 then 11 else 0) (\<lambda>_. 0) 8 10000 :: nat pool_outcome) = Pool_Failed m s 3 \<and>
     sem_wait_method s = Some (Inl Use_After_Free)"
proof -
  have "\<exists>m s. (threadpool_new 0 0 (\<lambda>i. if i = 3 then 11 else 0) (\<lambda>_. 0) 8 10000 :: nat pool_outcome) = Pool_Failed m s 3 \<and>
     sem_wait_method s = Some (Inl Use_After_Free) \<and> lock_method 0 m = Some (Inl Use_After_Free)"
    by (rule failed_pool_leaves_threads) simp_all
  then show ?thesis by blast
qed

end
