(* ===== verification/Proactor_Safety.thy ===== *)
theory Proactor_Safety
  imports Proactor_Main
begin

unbundle bit_operations_syntax

text \<open>
  The whole server of \<open>1. Proactor\<close> as a state machine: the main thread handles one event after the
  other (\<open>main.cpp\<close>), the workers of the pool take turns in between, each turn of a worker being one
  step. The theory shows that the parts keep each other's invariants: what \<open>accept\<close>, \<open>read\<close>, \<open>write\<close>,
  \<open>closeconn\<close> and \<open>process\<close> leave behind is what the next of them needs, on all connections at once,
  and it names the three ways in which a sequence of events does lead to a fault. The bytes that
  \<open>init\<close> clears behind its own object are part of the model as a change of the next object
  (\<open>spill\<close>): this overflow is in every run and is not counted among the faults.
\<close>

section \<open>Operations that keep the invariants of all connections\<close>

text \<open>Every operation but \<open>read\<close> and \<open>accept\<close> keeps them in this sense, the overflow of \<open>init\<close> included.\<close>

definition conn_keeps :: "http_conn \<Rightarrow> http_conn \<Rightarrow> bool" where
  "conn_keeps c c' \<longleftrightarrow> (conn_inv c \<longrightarrow> conn_inv c') \<and> m_read_idx c' \<le> m_read_idx c"

definition srv_keeps :: "server \<Rightarrow> server \<Rightarrow> bool" where
  "srv_keeps s s' \<longleftrightarrow> length (users s') = length (users s) \<and> dom (interest (kern s')) \<subseteq> dom (interest (kern s)) \<and>
     (\<forall>i < length (users s). conn_keeps (users s ! i) (users s' ! i))"

lemma conn_keeps_refl [simp]: "conn_keeps c c"
  by (simp add: conn_keeps_def)

lemma srv_keeps_refl [simp]: "srv_keeps s s"
  by (simp add: srv_keeps_def)

lemma srv_keeps_trans: "srv_keeps s s' \<Longrightarrow> srv_keeps s' s'' \<Longrightarrow> srv_keeps s s''"
  by (force simp: srv_keeps_def conn_keeps_def)

lemma srv_keeps_put: "conn_keeps (users s ! nat i) c \<Longrightarrow> srv_keeps s (put_user i c s)"
  by (cases "nat i < length (users s)") (simp_all add: srv_keeps_def put_user_def nth_list_update)

lemma srv_keeps_kern [simp]:
  "srv_keeps s (s\<lparr>kern := modifyfd fd ev (kern s)\<rparr>)" "srv_keeps s (s\<lparr>kern := send_wire fd bs (kern s)\<rparr>)"
  by (auto simp: srv_keeps_def send_wire_def)

lemmas srv_keeps_kern_then = srv_keeps_kern [THEN srv_keeps_trans]

definition slot :: "int \<Rightarrow> server \<Rightarrow> bool" where
  "slot i s \<longleftrightarrow> 0 \<le> i \<and> i + 1 < int (length (users s))"

lemma slot_user: "slot i s \<Longrightarrow> get_user i s = Inr (users s ! nat i)"
  by (simp add: slot_def get_user_simps)

lemma slot_keeps: "srv_keeps s s' \<Longrightarrow> slot i s' = slot i s"
  by (simp add: srv_keeps_def slot_def)

lemma conn_inv_init [simp]: "conn_inv (init_conn c)"
  using fresh_after_init(1) [of "[]" c] by (simp add: fresh_conn_inv)

lemma conn_keeps_init: "conn_keeps c (init_conn c)"
  by (simp add: conn_keeps_def init_conn_def [of c, THEN arg_cong, of m_read_idx])

lemma conn_keeps_spill: "conn_keeps c (spill c)"
proof -
  let ?b = "blit (m_read_buf c) 0 (replicate SPILL NUL)"
  have b: "?b i = NUL" if "m_read_buf c i = NUL" for i using that by (simp add: blit_def)
  then have "terminated_before ?b u k" if "terminated_before (m_read_buf c) u k" for u k using that by (auto simp: terminated_before_def)
  with b show ?thesis by (auto simp: conn_keeps_def spill_def conn_inv_def)
qed

lemma closeconn_keeps:
  assumes "slot i s"
  shows "\<exists>s'. closeconn i s = Inr s' \<and> srv_keeps s s'"
proof -
  have "srv_keeps s (put_user i ((users s ! nat i)\<lparr>m_sockfd := - 1\<rparr>)
      (s\<lparr>kern := removefd fd (kern s), m_user_count := m_user_count s - 1\<rparr>))" for fd
    by (rule srv_keeps_trans [OF _ srv_keeps_put]) (auto simp: srv_keeps_def conn_keeps_def conn_inv_def)
  then show ?thesis using closeconn_user [OF slot_user [OF assms]] by auto
qed

lemma unmap_keeps:
  assumes "slot i s"
  shows "\<exists>s'. unmap i s = Inr s' \<and> srv_keeps s s'"
proof -
  have "srv_keeps s (put_user i ((users s ! nat i)\<lparr>m_file_address := 0\<rparr>) (s\<lparr>kern := (kern s)\<lparr>unmapped := u\<rparr>\<rparr>))" for u
    by (rule srv_keeps_trans [OF _ srv_keeps_put]) (auto simp: srv_keeps_def conn_keeps_def conn_inv_def)
  then show ?thesis using slot_user [OF assms] by (simp add: unmap_def)
qed

lemma init_keeps:
  assumes "slot i s"
  shows "\<exists>s'. init i s = Inr s' \<and> srv_keeps s s' \<and> users s' ! nat i = init_conn (users s ! nat i) \<and> kern s' = kern s"
proof -
  let ?s1 = "put_user i (init_conn (users s ! nat i)) s"
  let ?s = "put_user (i + 1) (spill (users s ! nat (i + 1))) ?s1"
  have i: "nat (i + 1) = Suc (nat i)" using assms by (simp add: slot_def nat_add_distrib)
  have "init i s = Inr ?s" using assms by (simp add: init_def get_user_simps slot_def)
  moreover have "srv_keeps s ?s"
    by (rule srv_keeps_trans [OF srv_keeps_put srv_keeps_put]) (simp_all add: conn_keeps_init conn_keeps_spill put_user_def i)
  moreover have "users ?s ! nat i = init_conn (users s ! nat i)" using assms by (auto simp: put_user_def i slot_def)
  ultimately show ?thesis by auto
qed

lemma write_done_keeps:
  assumes "slot i s"
  shows "\<exists>ok s'. write_done i s = Inr (ok, s') \<and> srv_keeps s s'"
proof -
  obtain s1 where s1: "unmap i s = Inr s1" "srv_keeps s s1" using unmap_keeps [OF assms] by blast
  have i1: "slot i s1" using assms slot_keeps [OF s1(2)] by simp
  obtain s2 where s2: "init i s1 = Inr s2" "srv_keeps s1 s2" using init_keeps [OF i1] by blast
  have i2: "slot i s2" using i1 slot_keeps [OF s2(2)] by simp
  let ?k = "\<lambda>s. s\<lparr>kern := modifyfd (m_sockfd (users s ! nat i)) EPOLLIN (kern s)\<rparr>"
  show ?thesis
    using s1 s2 slot_user [OF i1] slot_user [OF i2] srv_keeps_kern(1) [of s1 "m_sockfd (users s1 ! nat i)"] srv_keeps_kern(1) [of s2 "m_sockfd (users s2 ! nat i)"]
    by (cases "m_linger (users s1 ! nat i)") (auto simp: write_done_def intro: srv_keeps_trans)
qed

lemma write_loop_keeps:
  assumes "\<And>k m n. writev k m = Sent n \<Longrightarrow> 0 < n" and "slot i s"
  shows "\<exists>ok s'. write_loop mem writev i k to_send have_send s = Some (Inr (ok, s')) \<and> srv_keeps s s'"
  using assms(2)
proof (induction "nat (to_send - have_send)" arbitrary: k to_send have_send s rule: less_induct)
  case less
  let ?c = "users s ! nat i"
  note unf = write_loop.simps [of mem writev i k] slot_user [OF less.prems]
  show ?case
  proof (cases "writev k (length (response_bytes mem ?c))")
    case (Sent n)
    let ?s = "s\<lparr>kern := send_wire (m_sockfd ?c) (take n (response_bytes mem ?c)) (kern s)\<rparr>"
    have s: "slot i ?s" "srv_keeps s ?s" using less.prems by (simp_all add: slot_def)
    show ?thesis
    proof (cases "to_send - int n \<le> have_send + int n")
      case True
      with Sent s write_done_keeps [OF s(1)] show ?thesis by (auto simp: unf Let_def intro: srv_keeps_kern_then)
    next
      case False
      with less.hyps [OF _ s(1), of "to_send - int n" "have_send + int n" "Suc k"] assms(1) [OF Sent]
      obtain ok s' where "write_loop mem writev i (Suc k) (to_send - int n) (have_send + int n) ?s = Some (Inr (ok, s'))" "srv_keeps ?s s'" by auto
      with False Sent s(2) show ?thesis by (auto simp: unf Let_def intro: srv_keeps_kern_then)
    qed
  next
    case Write_Error
    with unmap_keeps [OF less.prems] show ?thesis by (auto simp: unf)
  qed (auto simp: unf)
qed

lemma write_conn_keeps:
  assumes "\<And>k m n. writev k m = Sent n \<Longrightarrow> 0 < n" and "slot i s"
  shows "\<exists>ok s'. write_conn mem writev i s = Some (Inr (ok, s')) \<and> srv_keeps s s'"
proof (cases "m_write_idx (users s ! nat i) = 0")
  case True
  let ?s = "s\<lparr>kern := modifyfd (m_sockfd (users s ! nat i)) EPOLLIN (kern s)\<rparr>"
  have s: "slot i ?s" "srv_keeps s ?s" using assms(2) by (simp_all add: slot_def)
  with True init_keeps [OF s(1)] slot_user [OF assms(2)] show ?thesis by (auto simp: write_conn_def intro: srv_keeps_kern_then)
next
  case False
  with write_loop_keeps [OF assms] slot_user [OF assms(2)] show ?thesis by (simp add: write_conn_def)
qed

text \<open>
  What is wrong with a connection whose request makes the parser fault: it gets to a body with a bad
  length, or with a buffer that is full to the last byte.
\<close>

definition bad_body :: "filesys \<Rightarrow> http_conn \<Rightarrow> bool" where
  "bad_body fs c \<longleftrightarrow> (\<exists>ls' c'. (read_step fs)\<^sup>*\<^sup>* (LINE_OK, c) (ls', c') \<and> m_check_state c' = CHECK_STATE_CONTENT \<and>
     (m_content_length c' < 0 \<or> INT_MAX - int READ_BUFFER_SIZE < m_content_length c' \<or> m_read_idx c = READ_BUFFER_SIZE))"

lemma fault_bad_body:
  assumes "conn_inv c" and "process_read fs c = Inl e"
  shows "bad_body fs c"
proof -
  have "m_read_idx c \<le> READ_BUFFER_SIZE" using assms(1) by (simp add: conn_inv_def)
  with process_read_loop_fault [OF assms(1), of fs LINE_OK e] assms(2) show ?thesis
    by (fastforce simp: bad_body_def process_read_def body_ok_def length_ok_def not_le)
qed

lemma process_write_keeps:
  assumes "conn_inv c"
  shows "\<exists>ok c'. process_write ret c = Inr (ok, c') \<and> conn_inv c' \<and> m_read_idx c' = m_read_idx c"
  using process_write_post [of c ret] assms by (auto simp: wp_iff write_post_def conn_inv_def)

lemma process_keeps:
  assumes "slot i s" and "conn_inv (users s ! nat i)"
  shows "(\<exists>s'. process fs i s = Inr s' \<and> srv_keeps s s') \<or> (\<exists>e. process fs i s = Inl e) \<and> bad_body fs (users s ! nat i)"
proof (cases "process_read fs (users s ! nat i)")
  case (Inl e)
  with fault_bad_body [OF assms(2)] slot_user [OF assms(1)] show ?thesis by (simp add: process_def)
next
  case (Inr x)
  let ?c = "users s ! nat i" and ?k = "\<lambda>ev s. s\<lparr>kern := modifyfd (m_sockfd (users s ! nat i)) ev (kern s)\<rparr>"
  have k: "srv_keeps t (?k ev t)" for t ev by simp
  obtain code c1 where c1: "process_read fs ?c = Inr (code, c1)" using Inr by (cases x) simp
  have inv1: "conn_inv c1" "m_read_idx c1 = m_read_idx ?c"
    using process_read_loop_keeps [OF assms(2)] c1 by (simp_all add: process_read_def)
  let ?s1 = "put_user i c1 s"
  have s1: "srv_keeps s ?s1" using inv1 by (intro srv_keeps_put) (simp add: conn_keeps_def)
  have u1: "users ?s1 ! nat i = c1" using assms(1) by (auto simp: put_user_def slot_def)
  obtain ok c2 where c2: "process_write code c1 = Inr (ok, c2)" "conn_inv c2" "m_read_idx c2 = m_read_idx c1"
    using process_write_keeps [OF inv1(1)] by blast
  let ?s2 = "put_user i c2 ?s1"
  have s2: "srv_keeps s ?s2" using c2(2,3) u1 by (intro srv_keeps_trans [OF s1] srv_keeps_put) (simp add: conn_keeps_def)
  then have i2: "slot i ?s2" using assms(1) slot_keeps by blast
  from closeconn_keeps [OF i2] obtain s3 where s3: "closeconn i ?s2 = Inr s3" "srv_keeps ?s2 s3" by blast
  define s4 where "s4 = (if ok then ?s2 else s3)"
  have s4: "srv_keeps s s4" using s2 s3(2) by (auto simp: s4_def intro: srv_keeps_trans)
  then have i4: "slot i s4" using assms(1) slot_keeps by blast
  have "process fs i s = (if code = NO_REQUEST then Inr (?k EPOLLIN ?s1) else Inr (?k EPOLLOUT s4))"
    using slot_user [OF assms(1)] slot_user [OF i4] c1 c2(1) s3(1) u1 by (auto simp: process_def s4_def Let_def)
  then show ?thesis using srv_keeps_trans [OF s1 k] srv_keeps_trans [OF s4 k] by simp
qed

section \<open>The state machine\<close>

definition delivered :: "epoll_event \<Rightarrow> proactor \<Rightarrow> proactor" where
  "delivered e s = s\<lparr>srv := (srv s)\<lparr>kern := epoll_deliver (ev_fd e) (kern (srv s))\<rparr>\<rparr>"

definition queued :: "int \<Rightarrow> proactor \<Rightarrow> bool" where
  "queued fd s \<longleftrightarrow> Some fd \<in> set (m_workqueue (workers s))"

text \<open>
  What the kernel promises of an event: it is for the listening socket, and then \<open>accept\<close> may return
  anything, or for a registered descriptor; \<open>recv\<close> stores no more than asked, and a \<open>writev\<close> that
  succeeds sends at least one byte.
\<close>

definition event_ok :: "int \<Rightarrow> epoll_event \<Rightarrow> answers \<Rightarrow> proactor \<Rightarrow> bool" where
  "event_ok lfd e a s \<longleftrightarrow> ev_fd e = lfd \<or>
     interest (kern (srv s)) (ev_fd e) \<noteq> None \<and> recv_contract (on_recv a) \<and> (\<forall>k m n. on_writev a k m = Sent n \<longrightarrow> 0 < n)"

text \<open>
  The event that faults: there is a connection to accept while the server is not full, and what
  \<open>accept\<close> returns, -1 or a descriptor beyond the last object but one, is no slot of \<open>users\<close>.
\<close>

definition bad_accept :: "int \<Rightarrow> epoll_event \<Rightarrow> answers \<Rightarrow> proactor \<Rightarrow> bool" where
  "bad_accept lfd e a s \<longleftrightarrow> ev_fd e = lfd \<and> m_user_count (srv s) < MAX_FD \<and> \<not> slot (accept_fd a) (srv s)"

inductive proactor_step :: "cbuf \<Rightarrow> filesys \<Rightarrow> int \<Rightarrow> proactor \<Rightarrow> proactor \<Rightarrow> bool" for mem fs lfd where
  event: "event_ok lfd e a s \<Longrightarrow> handle_event mem a lfd e (delivered e s) = Some (Inr s') \<Longrightarrow> proactor_step mem fs lfd s s'"
| worker: "worker_turn fs t s = Some (Inr s') \<Longrightarrow> proactor_step mem fs lfd s s'"

definition proactor_inv :: "int \<Rightarrow> proactor \<Rightarrow> bool" where
  "proactor_inv lfd s \<longleftrightarrow> m_queuelocker (workers s) = None \<and>
     (\<forall>fd. fd \<in> dom (interest (kern (srv s))) - {lfd} \<or> queued fd s \<longrightarrow> slot fd (srv s) \<and> conn_inv (users (srv s) ! nat fd))"

lemma proactor_inv_keeps:
  assumes "proactor_inv lfd s" and "srv_keeps (srv s) t"
  shows "proactor_inv lfd (s\<lparr>srv := t\<rparr>)"
proof -
  have "slot fd t \<and> conn_keeps (users (srv s) ! nat fd) (users t ! nat fd)" if "slot fd (srv s)" for fd
    using that assms(2) slot_keeps [OF assms(2), of fd] by (auto simp: srv_keeps_def slot_def)
  then have k: "slot fd t" "conn_keeps (users (srv s) ! nat fd) (users t ! nat fd)" if "slot fd (srv s)" for fd using that by blast+
  have d: "dom (interest (kern t)) \<subseteq> dom (interest (kern (srv s)))" using assms(2) by (simp add: srv_keeps_def)
  have old: "slot fd (srv s)" "conn_inv (users (srv s) ! nat fd)"
    if "fd \<in> dom (interest (kern t)) - {lfd} \<or> queued fd s" for fd using that assms(1) d by (auto simp: proactor_inv_def)
  have q: "queued fd (s\<lparr>srv := t\<rparr>) = queued fd s" for fd by (simp add: queued_def)
  have "slot fd t \<and> conn_inv (users t ! nat fd)" if "fd \<in> dom (interest (kern t)) - {lfd} \<or> queued fd s" for fd
    using old [OF that] k [of fd] by (simp add: conn_keeps_def)
  then show ?thesis using assms(1) unfolding proactor_inv_def q by simp
qed

lemma delivered_inv: "proactor_inv lfd s \<Longrightarrow> proactor_inv lfd (delivered e s)"
  unfolding delivered_def
  by (erule proactor_inv_keeps) (auto simp: srv_keeps_def epoll_deliver_def split: option.splits if_splits)

lemma delivered_simps [simp]:
  "users (srv (delivered e s)) = users (srv s)" "m_user_count (srv (delivered e s)) = m_user_count (srv s)" "workers (delivered e s) = workers s" "slot fd (srv (delivered e s)) = slot fd (srv s)"
  "dom (interest (kern (srv (delivered e s)))) = dom (interest (kern (srv s)))"
  by (auto simp: delivered_def slot_def epoll_deliver_def split: option.splits)

text \<open>A new connection may take over any slot; the object before it and the one behind it keep what they had.\<close>

lemma accept_inv:
  assumes "proactor_inv lfd s" and slot: "m_user_count (srv s) < MAX_FD \<Longrightarrow> slot (accept_fd a) (srv s)"
  shows "\<exists>t. on_accept a (srv s) = Inr t \<and> proactor_inv lfd (s\<lparr>srv := t\<rparr>)"
proof -
  let ?fd = "accept_fd a"
  let ?s = "(srv s)\<lparr>kern := (kern (srv s))\<lparr>open_fds := open_fds (kern (srv s)) \<union> {?fd}\<rparr>\<rparr>"
  show ?thesis
  proof (cases "MAX_FD \<le> m_user_count (srv s)")
    case True
    have "srv_keeps (srv s) (v\<lparr>kern := close_fd ?fd (kern v)\<rparr>)" if "v = ?s \<or> v = srv s" for v
      using that by (auto simp: srv_keeps_def close_fd_def)
    with proactor_inv_keeps [OF assms(1)] True show ?thesis by (auto simp: on_accept_def Let_def)
  next
    case False
    then have assms2: "slot ?fd (srv s)" using slot by simp
    then have fd: "0 \<le> ?fd" by (simp add: slot_def)
    let ?c = "(users (srv s) ! nat ?fd)\<lparr>m_sockfd := ?fd, m_address := accept_addr a\<rparr>"
    let ?s1 = "(put_user ?fd ?c ?s)\<lparr>kern := addfd ?fd True (kern ?s), m_user_count := m_user_count (srv s) + 1\<rparr>"
    have i: "slot ?fd ?s" "slot ?fd ?s1" using assms2 by (simp_all add: slot_def)
    from init_keeps [OF i(2)] obtain t where t: "init ?fd ?s1 = Inr t" "srv_keeps ?s1 t"
      "users t ! nat ?fd = init_conn (users ?s1 ! nat ?fd)" "kern t = kern ?s1" by blast
    have "on_accept a (srv s) = Inr t"
      using False fd slot_user [OF i(1)] t(1) by (simp add: on_accept_def init_sock_def Let_def)
    moreover have "proactor_inv lfd (s\<lparr>srv := t\<rparr>)"
    proof -
      have sl: "slot j t = slot j (srv s)" for j using slot_keeps [OF t(2)] by (simp add: slot_def)
      have dom: "dom (interest (kern t)) \<subseteq> insert ?fd (dom (interest (kern (srv s))))" using t(4) by auto
      have new: "conn_inv (users t ! nat ?fd)" using t(3) by simp
      have old: "conn_keeps (users (srv s) ! nat j) (users t ! nat j)" if "slot j (srv s)" "j \<noteq> ?fd" for j
      proof -
        have "nat j \<noteq> nat ?fd" using that fd by (simp add: slot_def eq_nat_nat_iff)
        then have eq: "users ?s1 ! nat j = users (srv s) ! nat j" by (simp add: put_user_def)
        have "nat j < length (users ?s1)" using that(1) by (auto simp: slot_def)
        with t(2) have "conn_keeps (users ?s1 ! nat j) (users t ! nat j)" unfolding srv_keeps_def by blast
        with eq show ?thesis by simp
      qed
      have "slot j t \<and> conn_inv (users t ! nat j)" if "j \<in> dom (interest (kern t)) - {lfd} \<or> queued j s" for j
      proof -
        have "j = ?fd \<or> slot j (srv s) \<and> conn_inv (users (srv s) ! nat j)"
          using that assms(1) dom by (auto simp: proactor_inv_def)
        with old [of j] new sl assms2 show ?thesis by (auto simp: conn_keeps_def)
      qed
      then show ?thesis using assms(1) by (simp add: proactor_inv_def queued_def)
    qed
    ultimately show ?thesis by blast
  qed
qed

lemma accept_fault:
  assumes "bad_accept lfd e a s"
  shows "handle_event mem a lfd e (delivered e s) = Some (Inl Out_Of_Bounds)"
proof -
  have "init_sock (accept_fd a) (accept_fd a) (accept_addr a) v = Inl Out_Of_Bounds"
    if "length (users v) = length (users (srv s))" for v
    using assms that by (auto simp: bad_accept_def slot_def init_sock_def init_def get_user_def Let_def)
  with assms show ?thesis by (simp add: handle_event_def on_accept_def bad_accept_def Let_def)
qed

text \<open>Any registered connection may be filled, and queued.\<close>

lemma read_inv:
  assumes inv: "proactor_inv lfd s" and i: "slot i (srv s)" "conn_inv (users (srv s) ! nat i)" and c: "conn_inv c"
  shows "proactor_inv lfd (s\<lparr>srv := put_user i c (srv s)\<rparr>)" (is "proactor_inv lfd ?s")
proof -
  have "users (put_user i c (srv s)) ! nat fd = (if fd = i then c else users (srv s) ! nat fd)" if "slot fd (srv s)" for fd
    using that i(1) by (auto simp: put_user_def slot_def nth_list_update eq_nat_nat_iff)
  moreover have "slot fd (put_user i c (srv s)) = slot fd (srv s)" for fd by (simp add: slot_def)
  ultimately show ?thesis using inv c unfolding proactor_inv_def queued_def by auto
qed

lemma append_inv:
  assumes inv: "proactor_inv lfd s" and i: "slot i (srv s)" "conn_inv (users (srv s) ! nat i)"
  shows "\<exists>ok p. append_request 0 (Some i) (workers s) = Some (ok, p) \<and> proactor_inv lfd (s\<lparr>workers := p\<rparr>)"
proof (cases "queue_full (workers s)")
  case True
  then have "append_request 0 (Some i) (workers s) = Some (False, workers s)"
    using inv by (cases "workers s") (simp add: proactor_inv_def append_request_def sync_defs queue_full_def)
  with inv show ?thesis by (intro exI [of _ False] exI [of _ "workers s"]) simp
next
  case False
  have "m_queuelocker (workers s) = None" using inv by (simp add: proactor_inv_def)
  from append_request_free [OF this False, of 0 "Some i"] inv i show ?thesis by (auto simp: proactor_inv_def queued_def)
qed

lemma event_inv:
  assumes inv: "proactor_inv lfd s" and ok: "event_ok lfd e a s" and acc: "\<not> bad_accept lfd e a s"
  shows "\<exists>s'. handle_event mem a lfd e (delivered e s) = Some (Inr s') \<and> proactor_inv lfd s'"
proof -
  define u where "u = delivered e s"
  let ?i = "ev_fd e"
  have u: "proactor_inv lfd u" using delivered_inv [OF inv] by (simp add: u_def)
  have cl: "\<exists>t. closeconn ?i (srv v) = Inr t \<and> proactor_inv lfd (v\<lparr>srv := t\<rparr>)" if "proactor_inv lfd v" "slot ?i (srv v)" for v
    using closeconn_keeps [OF that(2)] proactor_inv_keeps [OF that(1)] by blast
  show ?thesis
  proof (cases "?i = lfd")
    case True
    then have "slot (accept_fd a) (srv u)" if "m_user_count (srv u) < MAX_FD"
      using acc that by (simp add: bad_accept_def u_def)
    from accept_inv [OF u this] True show ?thesis by (auto simp: handle_event_def Let_def simp flip: u_def)
  next
    case False
    have reg: "?i \<in> dom (interest (kern (srv u)))" "recv_contract (on_recv a)" "\<And>k m n. on_writev a k m = Sent n \<Longrightarrow> 0 < n"
      using ok False by (auto simp: event_ok_def u_def)
    with u False have i: "slot ?i (srv u)" "conn_inv (users (srv u) ! nat ?i)" by (auto simp: proactor_inv_def)
    consider (hup) "ev_events e AND (EPOLLRDHUP OR EPOLLHUP OR EPOLLERR) \<noteq> 0"
      | (inp) "ev_events e AND (EPOLLRDHUP OR EPOLLHUP OR EPOLLERR) = 0" "ev_events e AND EPOLLIN \<noteq> 0"
      | (out) "ev_events e AND (EPOLLRDHUP OR EPOLLHUP OR EPOLLERR) = 0" "ev_events e AND EPOLLIN = 0" "ev_events e AND EPOLLOUT \<noteq> 0"
      | (none) "ev_events e AND (EPOLLRDHUP OR EPOLLHUP OR EPOLLERR) = 0" "ev_events e AND EPOLLIN = 0" "ev_events e AND EPOLLOUT = 0" by blast
    then show ?thesis
    proof cases
      case hup
      with cl [OF u i(1)] False show ?thesis by (auto simp: handle_event_def Let_def simp flip: u_def)
    next
      case inp
      have "wp (read_post (users (srv u) ! nat ?i)) (read_conn (on_recv a) (users (srv u) ! nat ?i))"
        using read_loop_post [OF reg(2) i(2), of 0] i(2) by (auto simp: read_conn_def read_post_def intro: exI [of _ "[]"])
      then obtain rd c where c: "read_conn (on_recv a) (users (srv u) ! nat ?i) = Inr (rd, c)" "conn_inv c"
        by (auto simp: wp_iff read_post_def)
      let ?v = "u\<lparr>srv := put_user ?i c (srv u)\<rparr>"
      have v: "proactor_inv lfd ?v" using read_inv [OF u i c(2)] .
      have vi: "slot ?i (srv ?v)" "users (srv ?v) ! nat ?i = c" using i(1) by (auto simp: slot_def put_user_def)
      have "handle_event mem a lfd e u = (if rd then (case append_request 0 (Some ?i) (workers ?v) of None \<Rightarrow> None | Some (_, p) \<Rightarrow> Some (Inr (?v\<lparr>workers := p\<rparr>)))
          else Some (bindr (closeconn ?i (srv ?v)) (\<lambda>t. Inr (?v\<lparr>srv := t\<rparr>))))"
        using False inp c(1) slot_user [OF i(1)] by (simp add: handle_event_def Let_def)
      moreover have "\<exists>ok p. append_request 0 (Some ?i) (workers ?v) = Some (ok, p) \<and> proactor_inv lfd (?v\<lparr>workers := p\<rparr>)" if rd
        using append_inv [OF v vi(1)] c(2) vi(2) by simp
      moreover obtain t where "closeconn ?i (srv ?v) = Inr t" "proactor_inv lfd (?v\<lparr>srv := t\<rparr>)" using cl [OF v vi(1)] by blast
      ultimately show ?thesis unfolding u_def [symmetric] by (cases rd) auto
    next
      case out
      have "\<exists>w t. write_conn mem (on_writev a) ?i (srv u) = Some (Inr (w, t)) \<and> srv_keeps (srv u) t"
        by (rule write_conn_keeps) (use reg(3) i(1) in blast)+
      then obtain w t where t: "write_conn mem (on_writev a) ?i (srv u) = Some (Inr (w, t))" "srv_keeps (srv u) t" by blast
      let ?v = "u\<lparr>srv := t\<rparr>"
      have v: "proactor_inv lfd ?v" "slot ?i (srv ?v)" using proactor_inv_keeps [OF u t(2)] slot_keeps [OF t(2)] i(1) by simp_all
      from cl [OF v] obtain t' where "closeconn ?i t = Inr t'" "proactor_inv lfd (u\<lparr>srv := t'\<rparr>)" by auto
      with False out t(1) v(1) show ?thesis by (cases w) (auto simp: handle_event_def Let_def simp flip: u_def)
    next
      case none
      with False u show ?thesis by (simp add: handle_event_def Let_def flip: u_def)
    qed
  qed
qed

text \<open>The connection a worker would take next is one whose request faults.\<close>

definition poisoned :: "filesys \<Rightarrow> proactor \<Rightarrow> bool" where
  "poisoned fs s \<longleftrightarrow> (\<exists>fd q c. m_workqueue (workers s) = Some fd # q \<and> get_user fd (srv s) = Inr c \<and> bad_body fs c)"

lemma worker_inv:
  assumes inv: "proactor_inv lfd s" and "0 < m_queuestat (workers s)"
  shows "(\<exists>s'. worker_turn fs t s = Some (Inr s') \<and> proactor_inv lfd s') \<or> (\<exists>f. worker_turn fs t s = Some (Inl f)) \<and> poisoned fs s"
proof (cases "m_workqueue (workers s)")
  case Nil
  then show ?thesis using assms by (auto simp: worker_turn_def sync_defs proactor_inv_def queued_def)
next
  case (Cons r q)
  let ?p = "(workers s)\<lparr>m_queuestat := m_queuestat (workers s) - 1, m_workqueue := q\<rparr>"
  let ?s = "s\<lparr>workers := ?p\<rparr>"
  have lk: "m_queuelocker (workers s) = None" using inv by (simp add: proactor_inv_def)
  have s: "proactor_inv lfd ?s" using inv Cons by (auto simp: proactor_inv_def queued_def)
  show ?thesis
  proof (cases r)
    case None
    have "worker_turn fs t s = Some (Inr ?s)"
      using Cons None assms(2) lk by (cases "workers s") (simp add: worker_turn_def sync_defs queue_defs Let_def)
    with s show ?thesis by blast
  next
    case (Some fd)
    have "queued fd s" using Cons Some by (simp add: queued_def)
    with inv have fd: "slot fd (srv s)" "conn_inv (users (srv s) ! nat fd)"
      by (simp_all add: proactor_inv_def)
    from process_keeps [OF fd, of fs] show ?thesis
    proof (elim disjE exE conjE)
      fix v assume v: "process fs fd (srv s) = Inr v" "srv_keeps (srv s) v"
      from worker_takes [OF _ assms(2) lk v(1), of q t] Cons Some
      have "worker_turn fs t s = Some (Inr (?s\<lparr>srv := v\<rparr>))" by simp
      with proactor_inv_keeps [OF s, of v] v(2) show ?thesis by auto
    next
      fix e assume e: "process fs fd (srv s) = Inl e" and b: "bad_body fs (users (srv s) ! nat fd)"
      have "worker_turn fs t s = Some (Inl e)"
        using Cons Some assms(2) lk e by (simp add: worker_turn_def sync_defs queue_defs Let_def)
      with b Cons Some slot_user [OF fd(1)] show ?thesis by (auto simp: poisoned_def)
    qed
  qed
qed

lemma step_inv:
  assumes "proactor_step mem fs lfd s s'" and "proactor_inv lfd s"
  shows "proactor_inv lfd s'"
  using assms(1)
proof (cases rule: proactor_step.cases)
  case (event e a)
  then have "\<not> bad_accept lfd e a s" using accept_fault [of lfd e a s mem] by auto
  with event event_inv [OF assms(2), of e a mem] show ?thesis by auto
next
  case (worker t)
  then have "0 < m_queuestat (workers s)" by (auto simp: worker_turn_def sem_wait_def split: if_splits)
  with worker_inv [OF assms(2), of fs t] worker show ?thesis by auto
qed

lemma proactor_inv_reachable:
  assumes "main_setup su argc k = Inr s0" and "interest k = Map.empty" and "(proactor_step mem fs (su_socket su))\<^sup>*\<^sup>* s0 s"
  shows "proactor_inv (su_socket su) s"
  using assms(3)
proof (induction rule: rtranclp_induct)
  case base
  have "m_queuelocker (workers s0) = None" "m_workqueue (workers s0) = []" "dom (interest (kern (srv s0))) \<subseteq> {su_socket su}"
    using assms(1,2) by (auto simp: main_setup_def threadpool_ctor_def split: if_splits sum.splits)
  then show ?case by (auto simp: proactor_inv_def queued_def)
qed (rule step_inv)

section \<open>Properties\<close>

text \<open>
  C3. Where the whole server faults, and that it faults nowhere else. From start-up on, whatever
  clients connect, send and leave and in whatever order the workers take their turns (a turn being
  one step): an event of \<open>epoll_wait\<close> ends in a store outside of \<open>users\<close> if \<open>accept\<close> has failed or has
  returned a descriptor that has no room there while the server is not full, and is handled to its
  end otherwise; and a worker that is woken does its turn to the end unless the request it takes
  gets to a body with a negative or huge Content-Length, or with a full read buffer. The overflow
  of \<open>init\<close> into the next object is part of the model and does not count as a fault here.
\<close>

theorem proactor_safe:
  assumes "main_setup su argc k = Inr s0" and "interest k = Map.empty" and "(proactor_step mem fs (su_socket su))\<^sup>*\<^sup>* s0 s"
  shows "(\<forall>e a. event_ok (su_socket su) e a s \<longrightarrow>
       (if bad_accept (su_socket su) e a s then handle_event mem a (su_socket su) e (delivered e s) = Some (Inl Out_Of_Bounds)
        else \<exists>s'. handle_event mem a (su_socket su) e (delivered e s) = Some (Inr s'))) \<and>
     (0 < m_queuestat (workers s) \<longrightarrow> (\<exists>s'. worker_turn fs t s = Some (Inr s')) \<or> poisoned fs s)"
  using event_inv worker_inv accept_fault proactor_inv_reachable [OF assms] by metis

text \<open>A server that has just started, and its first client.\<close>

definition first_setup :: setup_answers where
  "first_setup = \<lparr>su_create = (\<lambda>_. 0), su_detach = (\<lambda>_. 0), su_socket = 3, su_bind = 0, su_listen = 0, su_memory = replicate 10 sample_conn\<rparr>"

definition first_kernel :: kernel where
  "first_kernel = \<lparr>interest = Map.empty, fd_flags = (\<lambda>_. 0), open_fds = {0, 1, 2}, wire = (\<lambda>_. []), unmapped = []\<rparr>"

theorem proactor_safe_witness:
  "\<exists>s0 s1 s2. main_setup first_setup 2 first_kernel = Inr s0 \<and>
     handle_event zero_buf (sample_answers\<lparr>accept_fd := 5\<rparr>) 3 \<lparr>ev_fd = 3, ev_events = EPOLLIN\<rparr> (delivered \<lparr>ev_fd = 3, ev_events = EPOLLIN\<rparr> s0) = Some (Inr s1) \<and>
     handle_event zero_buf (sample_answers\<lparr>on_writev := \<lambda>_ _. Write_Again\<rparr>) 3 \<lparr>ev_fd = 5, ev_events = EPOLLIN\<rparr> (delivered \<lparr>ev_fd = 5, ev_events = EPOLLIN\<rparr> s1) = Some (Inr s2) \<and>
     handle_event zero_buf sample_answers 3 \<lparr>ev_fd = 3, ev_events = EPOLLIN\<rparr> (delivered \<lparr>ev_fd = 3, ev_events = EPOLLIN\<rparr> s0) = Some (Inl Out_Of_Bounds)"
proof -
  let ?a = "sample_answers\<lparr>accept_fd := 5\<rparr>" and ?e = "\<lparr>ev_fd = 3, ev_events = EPOLLIN\<rparr>" and ?f = "\<lparr>ev_fd = 5, ev_events = EPOLLIN\<rparr>"
  have n: "start_threads (\<lambda>_. 0) (\<lambda>_. 0) 0 8 = Inr 8" by code_simp
  obtain s0 where s0: "main_setup first_setup 2 first_kernel = Inr s0"
    and u0: "length (users (srv s0)) = 10" "workers s0 = \<lparr>m_thread_number = 8, m_maxrequestnum = 10000, m_workqueue = [], m_queuelocker = None, m_queuestat = 0, m_stop = False\<rparr>"
      "m_user_count (srv s0) = 0" "interest (kern (srv s0)) 5 = None"
    by (simp add: main_setup_def first_setup_def first_kernel_def threadpool_ctor_def n MAX_FD_def)
  have k: "interest first_kernel = Map.empty" "su_socket first_setup = 3" by (simp_all add: first_kernel_def first_setup_def)
  have "event_ok 3 ?e ?a s0" "\<not> bad_accept 3 ?e ?a s0" using u0(1) by (simp_all add: event_ok_def bad_accept_def slot_def)
  moreover from this obtain s1 where s1: "handle_event zero_buf ?a 3 ?e (delivered ?e s0) = Some (Inr s1)"
    using proactor_safe [OF s0 k(1), of zero_buf sample_fs s0 0] unfolding k(2) by force
  ultimately have "proactor_step zero_buf sample_fs 3 s0 s1" by (intro proactor_step.event)
  then have st: "(proactor_step zero_buf sample_fs (su_socket first_setup))\<^sup>*\<^sup>* s0 s1" using k(2) by simp
  have "interest (kern (srv s1)) 5 \<noteq> None" "m_workqueue (workers s1) = []"
    using s1 u0 by (auto simp: handle_event_def on_accept_def init_sock_def init_def get_user_def delivered_def epoll_deliver_def MAX_FD_def Let_def bindr_eq_Inr
        split: if_splits option.splits)
  then have ok: "event_ok 3 ?f (sample_answers\<lparr>on_writev := \<lambda>_ _. Write_Again\<rparr>) s1"
    by (auto simp: event_ok_def sample_answers_def recv_script_contract)
  moreover have "\<not> bad_accept 3 ?f (sample_answers\<lparr>on_writev := \<lambda>_ _. Write_Again\<rparr>) s1" by (simp add: bad_accept_def)
  ultimately have "\<exists>s2. handle_event zero_buf (sample_answers\<lparr>on_writev := \<lambda>_ _. Write_Again\<rparr>) 3 ?f (delivered ?f s1) = Some (Inr s2)"
    using proactor_safe [OF s0 k(1) st, of 0] unfolding k(2) by metis
  moreover have "event_ok 3 ?e sample_answers s0" "bad_accept 3 ?e sample_answers s0"
    using u0(3) by (simp_all add: event_ok_def bad_accept_def slot_def sample_answers_def MAX_FD_def)
  then have "handle_event zero_buf sample_answers 3 ?e (delivered ?e s0) = Some (Inl Out_Of_Bounds)"
    using proactor_safe [OF s0 k(1), of zero_buf sample_fs s0 0] unfolding k(2) by force
  ultimately show ?thesis using s0 s1 by blast
qed

end
