(* ===== verification/Spec2Isabelle.thy ===== *)
theory Spec2Isabelle
  imports Proactor_Main Async_Session Clients Beast_Http Web_Socket Session_Safety Webbench Service_Refinement Asio_Examples Coro_Logic
    Http_Deadline Server_Main Buffer_Lifetime Coro_Client Locks Proactor_Safety
begin

text \<open>
  Verification of the servers of Backend-lab.

  The repository holds six network servers in C++, each in a directory of its own, with the clients
  to try them: a static file server over epoll with a thread pool, an asynchronous echo server, a
  server with message ids over a pool of asio contexts and a logic thread, the same server with
  coroutines, an HTTP server and a WebSocket server over Beast. They are modelled as functions on
  explicit states; an operation that may go wrong returns \<open>fault + 'a\<close>, where a fault is an access
  outside of an array, a null pointer, an overflow, an empty container, or an exception the code
  can raise. Machine integers are kept at their width where the code converts or compares them.

  \<^bold>\<open>Shared theories.\<close>
  \<^item> \<open>Prelude\<close>: faults, \<open>bindr\<close>, weakest preconditions, C integers, character arrays.
  \<^item> \<open>CString\<close>: the string functions of C (\<open>strpbrk\<close>, \<open>strspn\<close>, \<open>strchr\<close>, \<open>atol\<close>) on arrays, and
    their meaning on lists.
  \<^item> \<open>Containers\<close>: \<open>std::list\<close>, \<open>std::queue\<close>, \<open>std::map\<close>; the locales \<open>fifo\<close> and \<open>dictionary\<close>, interpreted
    on them as \<open>std_queue\<close>, \<open>std_map\<close> and \<open>std_map_assign\<close>.
  \<^item> \<open>Send_Queue\<close>: the discipline all asynchronous sessions send by (queue, one write in flight, the
    completion starts the next), as the locales \<open>send_queue\<close> and \<open>bounded_send_queue\<close>. Order, exactly-once
    delivery and the bound on the queue are proved there once and used through five
    interpretations: \<open>async_echo\<close>, \<open>tlv_sender\<close>, \<open>write_all\<close>, \<open>ws_echo\<close>, \<open>ptr_sender\<close>.
  \<^item> \<open>Session_Safety\<close>: sessions as reactors to completions (locale \<open>reactor\<close>, interpreted as \<open>tlv_reactor\<close> and
    \<open>async_reactor\<close>): no sequence of bytes, errors and answers leads a handler to a fault.
  \<^item> \<open>Service_Refinement\<close>: an abstract service whose steps are labelled with the submissions, starts and
    ends of requests, and a locale \<open>simulation\<close>, interpreted on the logic layer (\<open>logic_sim\<close>) and on the
    thread pool (\<open>pool_sim\<close>): every sequence of such events they show is one of the service.
  \<^item> \<open>Buffer_Lifetime\<close>: asio reads a buffer after the call that passes it. The sending functions of the
    pooled server and of the WebSocket server over a store of objects that are destroyed; the locale
    \<open>send_refinement\<close>, interpreted as \<open>ptr_tlv\<close>, runs the first in step with the model that keeps the
    bytes by value. For the second, which message every completed write belongs to, and that it reads
    freed memory unless it was taken at once.
  \<^item> \<open>Server_Main\<close>: the \<open>main\<close> functions of the asio servers, from the construction of the pool to the
    destruction of the static objects after \<open>main\<close>, with the events of the \<open>io_context\<close> and the messages
    of the clients as a list. Whether the \<open>join\<close> in the destructor of the logic layer returns, and
    which of the static objects goes first, are arguments.
  \<^item> \<open>Msg_Codec\<close>: network byte order, \<open>memcpy\<close>, \<open>new char[n]\<close>, and the message nodes of the servers
    (\<open>MsgNode\<close>, \<open>RecvNode\<close>, \<open>SendNode\<close>) with their \<open>short\<close> lengths.

  \<^bold>\<open>1. Proactor\<close> (\<open>src/1. Proactor\<close>).
  \<^item> \<open>Http_Parse\<close>: the two state machines of \<open>http_conn.cpp\<close> (\<open>parse_line\<close>, \<open>process_read\<close> and what it
    calls) on the fields of \<open>http_conn\<close>, a record. \<open>Http_Parse_Safety\<close>: the invariant of the indices,
    memory safety but for a body with a bad \<open>Content-Length\<close> or a full buffer, termination of
    \<open>process_read\<close> by a measure.
    \<open>Http_Parse_Correct\<close>: the result of \<open>process_read\<close> on a complete request as a function of its
    lines.
  \<^item> \<open>Http_Response\<close>: \<open>add_response\<close> and \<open>process_write\<close>, the bytes of every response.
  \<^item> \<open>Http_Conn\<close>: \<open>init\<close>, \<open>read\<close>, \<open>write\<close>, \<open>closeconn\<close>, \<open>process\<close> and the epoll wrappers over a record of
    descriptors; the results of \<open>recv\<close> and \<open>writev\<close> are arguments. The loop of \<open>read\<close> ends by the room
    left in the buffer; that of \<open>write\<close> is a partial function, proved to return if every \<open>writev\<close> that
    succeeds takes a byte.
  \<^item> \<open>Thread_Pool\<close>: \<open>threadpool.h\<close> and \<open>locker.h\<close> as one step per statement of each thread, the tests of
    the queue apart from the push, the \<open>front\<close> and the \<open>pop\<close> that rely on them, with invariants by
    rule induction over all interleavings. \<open>Locks\<close>: the classes of \<open>locker.h\<close> as objects
    with a life, \<open>cond\<close> included, and the members of a pool whose constructor throws.
  \<^item> \<open>Proactor_Main\<close>: start-up and event loop of \<open>main.cpp\<close>; a client served from its first byte to
    its last, through connection, pool and worker, for whatever \<open>writev\<close> returns. \<open>Proactor_Safety\<close>: the
    server as a state machine over all its connections, events and turns of workers, a turn being one
    step; the invariants of the parts hold together, and the events and requests that fault are named.
  \<^item> \<open>Webbench\<close>: the load generator \<open>webbench-1.5\<close> (\<open>webbench.c\<close>, \<open>socket.c\<close>): options, \<open>build_request\<close> with its
    fixed arrays, \<open>benchcore\<close> and \<open>bench\<close>; the request it builds, composed with the parser of the
    server. System calls are lists of results; the loop of a client ends where the alarm goes off.

  \<^bold>\<open>2. AsyncServer\<close> (\<open>src/2. AsyncServer\<close>).
  \<^item> \<open>Async_Server\<close>: \<open>AsyncServer.cpp\<close>; what the session asks of asio (bytes of the writes in flight,
    the read it waits for) is part of its state, and a handler is a function of the error, the
    number of bytes and the bytes.
  \<^item> \<open>Async_Session\<close>: \<open>Session.cpp\<close>, three ways of writing and two of reading, with short writes.
  \<^item> \<open>Asio_Examples\<close>: \<open>apiexample.cpp\<close>, with asio as a record of functions; the two loops are partial
    functions, proved to return under the documented behaviour of \<open>write_some\<close> and \<open>read_some\<close>.

  \<^bold>\<open>3. AsyncServerIOservicepool\<close>.
  \<^item> \<open>Tlv_Server\<close>: \<open>Session.cpp\<close>. \<open>Logic_System\<close>: \<open>logicsystem.cpp\<close>, with mutex, condition variable and
    destructor step by step, for any number of posting threads and spurious wakeups; the JSON
    library is a record of functions passed as an argument. \<open>IO_Pool\<close>: \<open>IOservicePool.cpp\<close> of this
    server and of the next, \<open>Singleton.h\<close>, \<open>Server.cpp\<close>.

  \<^bold>\<open>4. CoroutineAsyncServer\<close>.
  \<^item> \<open>Coro_Server\<close>: \<open>Session.cpp\<close>; the coroutine as a recursive function of the bytes that arrive,
    total because every turn takes a header; the copied functions, proved equal to the originals.
  \<^item> \<open>Coro_Logic\<close>: \<open>logicsystem.cpp\<close> a second time, as rules, proved to have the same steps;
    \<open>Server.cpp\<close>, whose \<open>HandleAccept\<close> interleaves with the sessions it has started.
  \<^item> \<open>Coro_Client\<close>: \<open>MsgNode.cpp\<close> and \<open>JsonClient.cpp\<close>, the latter as a whole program, run against
    the server on one session, whose state is kept from request to request.

  \<^bold>\<open>5. HTTPserver\<close>: \<open>Beast_Http\<close>, one connection; \<open>Http_Deadline\<close>, all of them, interleaved, with a clock in
  seconds. \<^bold>\<open>6. WebSocketServer\<close>: \<open>Web_Socket\<close>. \<^bold>\<open>Clients\<close>: \<open>syncclient.cpp\<close>,
  \<open>JsonClient.cpp\<close>, \<open>syncserver.cpp\<close>, and the clients composed with the servers.

  \<^bold>\<open>What is shown.\<close> For every server: that requests and messages are answered as the code's tables
  say, that what is sent goes out in order and once, that the encoders and decoders of both sides
  agree, and what every malformed input leads to. For the sessions: no peer can make a handler fault.
  For the programs: how each of them ends, after a signal, an exception or a port that is taken.
  For the threads: mutual exclusion, exactly-once
  processing, no lost wakeup of a message, progress, and refinement of the abstract service. Where the code does not do what it means
  to, a theorem states what it does: the memory faults of a negative \<open>Content-Length\<close>, of a request that
  fills the buffer, of a failed \<open>accept\<close> and of a message length of -1, the neighbour overwritten by \<open>init\<close>, the truncated and repeated responses,
  the wakeup the destructor of the logic layer loses, the pool that is never stopped, the mixed
  writes, the overflow in the clients, the session that stays in the map after its end, the
  examples that do not return a value, the write of a string that is gone, the processes that end in
  \<open>std::terminate\<close>.

  \<^bold>\<open>Not modelled.\<close> asio, Beast and the JSON library are arguments or the callers of the handlers. Outside
  of \<open>Buffer_Lifetime\<close> a buffer given to asio is kept by value. Text written to the terminal is left
  out (the report of \<open>webbench\<close>, the messages of the destructors), the examples of \<open>apiexample.cpp\<close> that only make
  buffer objects are not translated, and boost is third-party code. \<open>JsonClient.cpp\<close> of the pooled server is
  the text of the one in the coroutine server; of the former one round of the loop is modelled. The
  destructor of a session is not an event: \<open>ts_open\<close> follows the calls of \<open>Close()\<close>, not the socket of a
  session that is destroyed. The unlocked maps of sessions are changed in one step each. The C++
  memory model is taken as sequentially consistent.
\<close>

end
